(* ===== verification/Prelude.thy ===== *)
theory Prelude
  imports Main "HOL-Library.Word"
begin

unbundle bit_operations_syntax

text \<open>
  What every component shares: the exceptions the Python code raises, results as a sum of an
  exception and a value, byte strings as lists of 8-bit words, the fact collections the proofs
  draw on, and general lemmas on lists and bits.

  An exception is modelled by its class only: no handler of the program looks at a message, so
  \<open>HPACKError\<close> stands for every \<open>raise HPACKError(...)\<close>. A Python iterator over bytes is the
  list of the bytes not consumed yet, so a parser takes that list and returns a value with what
  is left of it.
\<close>

section \<open>Exceptions and results\<close>

datatype exn =
    StopIteration
  | AssertionError
  | ValueError
  | OverflowError
  | IndexError
  | KeyError
  | HPACKError
  | H2Error
  | REPLParseError
  | OSError
  | EOFError
  | ZlibError

type_synonym byte = "8 word"
type_synonym bytes = "byte list"
type_synonym 'a result = "exn + 'a"
type_synonym 'a parser = "bytes \<Rightarrow> exn + 'a \<times> bytes"

text \<open>Facts collected over the theories: how results propagate, what parsers give back on
  what was printed, and how far they advance.\<close>

named_theorems result_simps
named_theorems printed_simps
named_theorems shorter_dests

text \<open>Sequencing: an exception skips the rest of the computation.\<close>

definition bindE :: "'a result \<Rightarrow> ('a \<Rightarrow> 'b result) \<Rightarrow> 'b result" where
  "bindE m f = (case m of Inl e \<Rightarrow> Inl e | Inr x \<Rightarrow> f x)"

text \<open>Python's \<open>if c: raise e\<close> and \<open>assert c\<close> as a result without a value.\<close>

definition raise_if :: "bool \<Rightarrow> exn \<Rightarrow> unit result" where
  "raise_if c e = (if c then Inl e else Inr ())"

fun mapE :: "('a \<Rightarrow> 'b result) \<Rightarrow> 'a list \<Rightarrow> 'b list result" where
  "mapE f [] = Inr []"
| "mapE f (x # xs) = bindE (f x) (\<lambda>y. bindE (mapE f xs) (\<lambda>ys. Inr (y # ys)))"

definition is_ok :: "'a result \<Rightarrow> bool" where
  "is_ok m = (case m of Inl _ \<Rightarrow> False | Inr _ \<Rightarrow> True)"

lemma bindE_Inl [simp, result_simps]: "bindE (Inl e) f = Inl e"
  by (simp add: bindE_def)

lemma bindE_Inr [simp, result_simps]: "bindE (Inr x) f = f x"
  by (simp add: bindE_def)

lemma bindE_eq_Inr [result_simps]: "bindE m f = Inr y \<longleftrightarrow> (\<exists>x. m = Inr x \<and> f x = Inr y)"
  by (cases m) auto

lemma bindE_eq_Inl [result_simps]:
  "bindE m f = Inl e \<longleftrightarrow> m = Inl e \<or> (\<exists>x. m = Inr x \<and> f x = Inl e)"
  by (cases m) auto

lemma bindE_cong [fundef_cong]:
  "m = m' \<Longrightarrow> (\<And>x. m' = Inr x \<Longrightarrow> f x = g x) \<Longrightarrow> bindE m f = bindE m' g"
  by (cases m') auto

lemma bindE_assoc: "bindE (bindE m f) g = bindE m (\<lambda>x. bindE (f x) g)"
  by (cases m) auto

lemma raise_if_Inr [simp, result_simps]: "raise_if c e = Inr u \<longleftrightarrow> \<not> c"
  by (simp add: raise_if_def)

lemma raise_if_Inl [simp, result_simps]: "raise_if c e = Inl e' \<longleftrightarrow> c \<and> e' = e"
  by (auto simp: raise_if_def)

lemma raise_if_False [simp]: "raise_if False e = Inr ()"
  by (simp add: raise_if_def)

lemma raise_if_True [simp]: "raise_if True e = Inl e"
  by (simp add: raise_if_def)

lemma is_ok_Inr [simp]: "is_ok (Inr x)"
  by (simp add: is_ok_def)

lemma is_ok_Inl [simp]: "\<not> is_ok (Inl e)"
  by (simp add: is_ok_def)

lemma is_ok_iff: "is_ok m \<longleftrightarrow> (\<exists>x. m = Inr x)"
  by (cases m) auto

lemma mapE_cong [fundef_cong]:
  "xs = ys \<Longrightarrow> (\<And>x. x \<in> set ys \<Longrightarrow> f x = g x) \<Longrightarrow> mapE f xs = mapE g ys"
  by (induction ys arbitrary: xs) auto

lemma mapE_Inr_map: "(\<And>x. x \<in> set xs \<Longrightarrow> f x = Inr (g x)) \<Longrightarrow> mapE f xs = Inr (map g xs)"
  by (induction xs) auto

lemma mapE_map: "mapE f (map g xs) = mapE (\<lambda>x. f (g x)) xs"
  by (induction xs) auto

lemma mapE_length: "mapE f xs = Inr ys \<Longrightarrow> length ys = length xs"
  by (induction xs arbitrary: ys) (auto simp: bindE_eq_Inr)

lemma mapE_nth: "mapE f xs = Inr ys \<Longrightarrow> i < length xs \<Longrightarrow> f (xs ! i) = Inr (ys ! i)"
proof (induction xs arbitrary: ys i)
  case Nil
  then show ?case by simp
next
  case (Cons x xs)
  then show ?case by (cases i) (auto simp: bindE_eq_Inr)
qed

section \<open>Lists\<close>

lemma append_eq_same_length:
  "length xs = length ys \<Longrightarrow> xs @ us = ys @ vs \<longleftrightarrow> xs = ys \<and> us = vs"
  by simp

lemma take_append_exact [simp]: "length xs = n \<Longrightarrow> take n (xs @ ys) = xs"
  by simp

lemma drop_append_exact [simp]: "length xs = n \<Longrightarrow> drop n (xs @ ys) = ys"
  by simp

lemma all_takeWhile: "\<forall>x \<in> set xs. P x \<Longrightarrow> takeWhile P (xs @ ys) = xs @ takeWhile P ys"
  by (simp add: takeWhile_append2)

section \<open>Bits of integers\<close>

text \<open>The masks and shifts of the sources, on Python's unbounded integers.\<close>

lemma and_mask_int: "(x::int) AND (push_bit n 1 - 1) = x mod 2 ^ n"
  by (simp add: push_bit_of_1 take_bit_eq_mod flip: mask_eq_exp_minus_1 take_bit_eq_mask)

lemma and_mask_exp_int: "(x::int) AND (2 ^ n - 1) = x mod 2 ^ n"
  using and_mask_int [of x n] by (simp add: push_bit_of_1)

lemma unset_high_bit:
  assumes "0 \<le> x" and "x < 2 ^ Suc n"
  shows "(x::int) AND NOT (push_bit n 1) = x mod 2 ^ n"
proof (rule bit_eqI)
  fix i
  show "bit (x AND NOT (push_bit n 1)) i = bit (x mod 2 ^ n) i"
  proof (cases "i \<le> n")
    case True
    then show ?thesis
      by (auto simp: bit_simps simp flip: take_bit_eq_mod)
  next
    case False
    from assms have "take_bit (Suc n) x = x"
      by (simp only: take_bit_int_eq_self_iff)
    then have "\<not> bit x i"
      using False by (metis bit_take_bit_iff not_less_eq not_le_imp_less less_Suc_eq_le)
    then show ?thesis
      by (auto simp: bit_simps simp flip: take_bit_eq_mod)
  qed
qed

lemma or_high_bit:
  assumes "0 \<le> x" and "x < 2 ^ n"
  shows "(push_bit n a :: int) OR x = a * 2 ^ n + x"
proof -
  have "take_bit n x = x"
    using assms by (simp only: take_bit_int_eq_self_iff)
  then have "push_bit n a AND x = 0"
    by (metis (no_types, lifting) and.commute bit_eqI bit_and_iff bit_push_bit_iff bit_take_bit_iff
        bit_0_eq bot_apply linorder_not_le bot_bool_def)
  then have "push_bit n a OR x = push_bit n a + x"
    by (simp add: disjunctive_add_eq_or)
  then show ?thesis
    by (simp add: push_bit_eq_mult)
qed

text \<open>A mask of the high bits: what is left is the quotient.\<close>

lemma and_high_mask:
  assumes "0 \<le> x" and "x < 2 ^ n" and "k \<le> n"
  shows "(x::int) AND push_bit k (mask (n - k)) = x div 2 ^ k * 2 ^ k"
proof -
  have "x AND push_bit k (mask (n - k)) = push_bit k (drop_bit k x)"
  proof (rule bit_eqI)
    fix i
    have "take_bit n x = x"
      using assms by (simp only: take_bit_int_eq_self_iff)
    then have "bit x i \<Longrightarrow> i < n"
      by (metis bit_take_bit_iff)
    then show "bit (x AND push_bit k (mask (n - k))) i = bit (push_bit k (drop_bit k x)) i"
      using assms(3) by (auto simp: bit_simps)
  qed
  then show ?thesis
    by (simp add: push_bit_eq_mult drop_bit_eq_div)
qed

lemma byte_masks:
  assumes "0 \<le> x" and "x < (256::int)"
  shows "x AND 0x80 = x div 128 * 128" and "x AND 0xC0 = x div 64 * 64"
    and "x AND 0xE0 = x div 32 * 32" and "x AND 0xF0 = x div 16 * 16"
  using and_high_mask [of x 8 7] and_high_mask [of x 8 6] and_high_mask [of x 8 5]
    and_high_mask [of x 8 4] assms
  by (simp_all add: mask_eq_exp_minus_1 push_bit_eq_mult)

end
