(* ===== verification/PyBytes.thy ===== *)
theory PyBytes
  imports Prelude
begin

text \<open>
  The operations of Python's \<open>int\<close>, \<open>bytes\<close> and iterators that the HPACK and HTTP/2 code is
  written with: \<open>int.to_bytes\<close> and \<open>int.from_bytes\<close> (big endian), the constructor \<open>bytes\<close> on
  a list of integers, \<open>next\<close> and \<open>itertools.islice\<close> on an iterator over bytes, and text
  literals as bytes. Where the Python operation raises, so does the model.
\<close>

section \<open>Literals\<close>

text \<open>\<open>b"abc"\<close> is \<open>ascii ''abc''\<close>.\<close>

definition ascii :: "string \<Rightarrow> bytes" where
  "ascii s = map of_char s"

lemma ascii_Nil [simp]: "ascii [] = []"
  by (simp add: ascii_def)

lemma ascii_Cons: "ascii (c # s) = of_char c # ascii s"
  by (simp add: ascii_def)

lemma of_char_byte: "(of_char c :: byte) = of_char d \<longleftrightarrow> c = d"
proof
  assume "(of_char c :: byte) = of_char d"
  then have "unat (of_char c :: byte) = unat (of_char d :: byte)" by simp
  moreover have "unat (of_char c :: byte) = (of_char c :: nat)" for c
    by (cases c) (simp add: of_char_def unat_word_ariths)
  ultimately show "c = d" by simp
qed simp

lemma ascii_inj: "ascii s = ascii t \<longleftrightarrow> s = t"
  using inj_map_eq_map [of "of_char :: char \<Rightarrow> byte"] by (simp add: ascii_def inj_def of_char_byte)

lemma length_ascii [simp]: "length (ascii s) = length s"
  by (simp add: ascii_def)

text \<open>\<open>sep.join(xs)\<close>.\<close>

fun bytes_join :: "bytes \<Rightarrow> bytes list \<Rightarrow> bytes" where
  "bytes_join sep [] = []"
| "bytes_join sep [x] = x"
| "bytes_join sep (x # y # xs) = x @ sep @ bytes_join sep (y # xs)"

section \<open>Integers to bytes and back\<close>

fun be_bytes :: "nat \<Rightarrow> int \<Rightarrow> bytes" where
  "be_bytes 0 v = []"
| "be_bytes (Suc n) v = be_bytes n (v div 256) @ [word_of_int v]"

definition int_to_bytes :: "nat \<Rightarrow> int \<Rightarrow> bytes result" where
  "int_to_bytes n v = (if 0 \<le> v \<and> v < 256 ^ n then Inr (be_bytes n v) else Inl OverflowError)"

definition int_from_bytes :: "bytes \<Rightarrow> int" where
  "int_from_bytes bs = foldl (\<lambda>a b. a * 256 + uint b) 0 bs"

text \<open>\<open>bytes(xs)\<close> on a list of integers.\<close>

definition bytes_of_ints :: "int list \<Rightarrow> bytes result" where
  "bytes_of_ints xs =
     (if \<forall>x \<in> set xs. 0 \<le> x \<and> x < 256 then Inr (map word_of_int xs) else Inl ValueError)"

lemma uint_byte_bounds: "0 \<le> uint (b :: byte)" "uint (b :: byte) < 256"
  using uint_lt2p [of b] by simp_all

lemma int_unat_byte: "int (unat (b :: byte)) = uint b"
  by simp

lemma unat_byte_less [simp]: "unat (b :: byte) < 256"
  using uint_byte_bounds [of b] int_unat_byte [of b] by linarith

lemma nat_uint_byte: "nat (uint (b :: byte)) = unat b"
  by simp

lemma length_be_bytes [simp]: "length (be_bytes n v) = n"
  by (induction n v rule: be_bytes.induct) auto

lemma int_from_bytes_Nil [simp]: "int_from_bytes [] = 0"
  by (simp add: int_from_bytes_def)

lemma int_from_bytes_snoc [simp]: "int_from_bytes (bs @ [b]) = int_from_bytes bs * 256 + uint b"
  by (simp add: int_from_bytes_def)

lemma uint_word_of_int_byte: "uint (word_of_int v :: byte) = v mod 256"
  by (simp add: uint_word_of_int)

lemma int_from_be_bytes: "int_from_bytes (be_bytes n v) = v mod 256 ^ n"
proof (induction n v rule: be_bytes.induct)
  case (1 v)
  then show ?case by simp
next
  case (2 n v)
  have "int_from_bytes (be_bytes (Suc n) v) = (v div 256 mod 256 ^ n) * 256 + v mod 256"
    by (simp add: "2.IH" uint_word_of_int_byte)
  also have "\<dots> = v mod (256 * 256 ^ n)"
    by (simp add: mod_mult2_eq' zmod_zmult2_eq)
  finally show ?case by simp
qed

lemma int_from_bytes_bounds: "0 \<le> int_from_bytes bs \<and> int_from_bytes bs < 256 ^ length bs"
proof (induction bs rule: rev_induct)
  case Nil
  then show ?case by simp
next
  case (snoc b bs)
  then show ?case
    using uint_byte_bounds [of b] by auto
qed

lemmas int_from_bytes_nonneg [simp] = int_from_bytes_bounds [THEN conjunct1]
  and int_from_bytes_less = int_from_bytes_bounds [THEN conjunct2]

lemma be_bytes_int_from_bytes: "be_bytes (length bs) (int_from_bytes bs) = bs"
proof (induction bs rule: rev_induct)
  case Nil
  then show ?case by simp
next
  case (snoc b bs)
  have "(int_from_bytes bs * 256 + uint b) div 256 = int_from_bytes bs"
    using uint_byte_bounds [of b] by simp
  moreover have "(word_of_int (int_from_bytes bs * 256 + uint b) :: byte) = b"
  proof -
    have "(word_of_int (int_from_bytes bs * 256 + uint b) :: byte) = word_of_int (uint b)"
      by (simp only: word_of_int_eq_iff) (simp add: take_bit_eq_mod)
    then show ?thesis by simp
  qed
  ultimately show ?case
    using snoc.IH by simp
qed

lemma int_to_bytes_int_from_bytes [printed_simps]:
  "length bs = n \<Longrightarrow> int_to_bytes n (int_from_bytes bs) = Inr bs"
  using int_from_bytes_bounds [of bs] be_bytes_int_from_bytes [of bs]
  by (auto simp: int_to_bytes_def)

lemma int_to_bytes_Inr:
  "int_to_bytes n v = Inr bs \<longleftrightarrow> 0 \<le> v \<and> v < 256 ^ n \<and> bs = be_bytes n v"
  by (auto simp: int_to_bytes_def)

lemma int_to_bytes_roundtrip [printed_simps]:
  "int_to_bytes n v = Inr bs \<Longrightarrow> int_from_bytes bs = v"
  by (auto simp: int_to_bytes_Inr int_from_be_bytes)

lemma int_to_bytes_length: "int_to_bytes n v = Inr bs \<Longrightarrow> length bs = n"
  by (auto simp: int_to_bytes_Inr)

lemma bytes_of_ints_Inr:
  "bytes_of_ints xs = Inr bs \<longleftrightarrow> (\<forall>x \<in> set xs. 0 \<le> x \<and> x < 256) \<and> bs = map word_of_int xs"
  by (auto simp: bytes_of_ints_def)

lemma bytes_of_ints_uint [simp]: "bytes_of_ints (map uint (bs :: bytes)) = Inr bs"
  by (auto simp: bytes_of_ints_Inr uint_byte_bounds comp_def)

section \<open>Iterators\<close>

definition next_byte :: "byte parser" where
  "next_byte it = (case it of [] \<Rightarrow> Inl StopIteration | b # it' \<Rightarrow> Inr (b, it'))"

text \<open>\<open>bytes(itertools.islice(it, n))\<close>: at most \<open>n\<close> bytes, and a \<open>ValueError\<close> for a count
  that is negative or above \<open>sys.maxsize\<close>.\<close>

definition sys_maxsize :: int where
  "sys_maxsize = 2 ^ 63 - 1"

definition islice_bytes :: "int \<Rightarrow> bytes parser" where
  "islice_bytes n it =
     (if n < 0 \<or> n > sys_maxsize then Inl ValueError else Inr (take (nat n) it, drop (nat n) it))"

lemma next_byte_Nil [simp]: "next_byte [] = Inl StopIteration"
  by (simp add: next_byte_def)

lemma next_byte_Cons [simp]: "next_byte (b # it) = Inr (b, it)"
  by (simp add: next_byte_def)

lemma next_byte_Inr: "next_byte it = Inr (b, it') \<longleftrightarrow> it = b # it'"
  by (auto simp: next_byte_def split: list.splits)

lemma islice_bytes_append [printed_simps]:
  "int (length bs) \<le> sys_maxsize \<Longrightarrow> islice_bytes (int (length bs)) (bs @ rest) = Inr (bs, rest)"
  by (simp add: islice_bytes_def)

lemma islice_bytes_Inr:
  "islice_bytes n it = Inr (bs, rest) \<longleftrightarrow>
     0 \<le> n \<and> n \<le> sys_maxsize \<and> bs = take (nat n) it \<and> rest = drop (nat n) it"
  by (auto simp: islice_bytes_def)

end
