(* ===== verification/Codec.thy ===== *)
theory Codec
  imports PyBytes
begin

text \<open>
  The contracts the serialisers and parsers of HPACK and HTTP/2 are held to, as locales: a parser
  that advances, a printer and a parser that agree (\<open>codec\<close>), a parser that accepts nothing but
  printed input (\<open>exact_codec\<close>), and the loop that parses until the input ends
  (\<open>stream_codec\<close>). Each client lemma is proved once here; the theories of HPACK and HTTP/2
  interpret the locales on their own definitions.
\<close>

section \<open>A parser that advances\<close>

locale advancing =
  fixes parse :: "'a parser"
  assumes parse_shorter: "parse it = Inr (x, it') \<Longrightarrow> length it' < length it"
begin

lemma parse_Nil_fails: "parse [] \<noteq> Inr r"
  using parse_shorter by (cases r) fastforce

end

section \<open>A printer and a parser that agree\<close>

text \<open>
  \<open>canon x\<close> is what is left of \<open>x\<close> on the wire: printing may forget how a value was written
  (padding, compression), and parsing gives the canonical value back. \<open>wf\<close> is the set of values
  the printer is meant for.
\<close>

locale codec =
  fixes print :: "'a \<Rightarrow> bytes result"
    and parse :: "'a parser"
    and canon :: "'a \<Rightarrow> 'a"
    and wf :: "'a \<Rightarrow> bool"
  assumes print_parse: "wf x \<Longrightarrow> print x = Inr bs \<Longrightarrow> parse (bs @ rest) = Inr (canon x, rest)"
begin

lemma print_parse_all: "wf x \<Longrightarrow> print x = Inr bs \<Longrightarrow> parse bs = Inr (canon x, [])"
  using print_parse [of x bs "[]"] by simp

text \<open>No printed value is a proper prefix of another: a reader never needs to look ahead.\<close>

lemma print_prefix_free:
  assumes "wf x" and "wf y" and "print x = Inr bs" and "print y = Inr cs" and "bs @ r = cs @ s"
  shows "canon x = canon y \<and> bs = cs \<and> r = s"
proof -
  from print_parse [OF assms(1,3), of r] print_parse [OF assms(2,4), of s] assms(5)
  show ?thesis by auto
qed

end

section \<open>A parser that accepts printed input only\<close>

locale exact_codec = codec +
  assumes parse_print: "parse it = Inr (x, rest) \<Longrightarrow> \<exists>bs. print x = Inr bs \<and> it = bs @ rest"

section \<open>Parsing until the input ends\<close>

text \<open>The loop \<open>while True: try: result.append(parse(it)) except StopIteration: break\<close>.\<close>

locale stream_codec = codec +
  fixes parse_all :: "bytes \<Rightarrow> 'a list result"
  assumes parse_end: "parse [] = Inl StopIteration"
    and parse_all_step: "parse_all it =
          (case parse it of
             Inl e \<Rightarrow> if e = StopIteration then Inr [] else Inl e
           | Inr (x, it') \<Rightarrow> bindE (parse_all it') (\<lambda>xs. Inr (x # xs)))"
begin

lemma parse_all_Nil: "parse_all [] = Inr []"
  by (subst parse_all_step) (simp add: parse_end)

lemma parse_all_prints:
  assumes "\<forall>x \<in> set xs. wf x" and "mapE print xs = Inr bss"
  shows "parse_all (concat bss @ rest) = bindE (parse_all rest) (\<lambda>ys. Inr (map canon xs @ ys))"
  using assms
proof (induction xs arbitrary: bss)
  case Nil
  then show ?case by (cases "parse_all rest") auto
next
  case (Cons x xs)
  then obtain bs css where "print x = Inr bs" and "mapE print xs = Inr css" and "bss = bs # css"
    by (auto simp: bindE_eq_Inr)
  moreover from this Cons.prems(1) have "parse (bs @ (concat css @ rest)) = Inr (canon x, concat css @ rest)"
    by (intro print_parse) auto
  ultimately show ?case
    using Cons by (subst parse_all_step) (simp add: bindE_assoc)
qed

lemma parse_all_concat:
  assumes "\<forall>x \<in> set xs. wf x" and "mapE print xs = Inr bss"
  shows "parse_all (concat bss) = Inr (map canon xs)"
  using parse_all_prints [OF assms, of "[]"] by (simp add: parse_all_Nil)

end

locale exact_stream = stream_codec + exact_codec + advancing +
  assumes parse_stops: "parse it = Inl StopIteration \<Longrightarrow> it = []"
begin

lemma parse_all_exact:
  "parse_all it = Inr xs \<Longrightarrow> \<exists>bss. mapE print xs = Inr bss \<and> it = concat bss"
proof (induction "length it" arbitrary: it xs rule: less_induct)
  case less
  show ?case
  proof (cases "parse it")
    case (Inl e)
    with less.prems have "it = []" and "xs = []"
      by (subst (asm) parse_all_step, auto split: if_splits dest: parse_stops)+
    then show ?thesis by simp
  next
    case (Inr r)
    obtain x it' where r: "r = (x, it')" by (cases r)
    with Inr less.prems obtain ys where ys: "parse_all it' = Inr ys" and xs: "xs = x # ys"
      by (subst (asm) parse_all_step) (auto simp: bindE_eq_Inr)
    have "length it' < length it"
      using Inr r by (simp add: parse_shorter)
    from less.hyps [OF this ys] obtain bss where "mapE print ys = Inr bss" and "it' = concat bss"
      by blast
    moreover obtain bs where "print x = Inr bs" and "it = bs @ it'"
      using Inr r parse_print by blast
    ultimately show ?thesis
      using xs by (intro exI [of _ "bs # bss"]) simp
  qed
qed

end

end
