(* ===== verification/HpackInt.thy ===== *)
theory HpackInt
  imports Codec
begin

text \<open>
  \<open>tools/hpack.py\<close>, the integers: \<open>_parse_hpack_int\<close> and the class \<open>HPACKInt\<close> with its four
  subclasses, which differ in the width of the prefix only. The main facts are the round trip
  (any value, any prefix width, any zero padding), the shape of the first byte, and how far the
  parser advances.
\<close>

section \<open>Parsing\<close>

text \<open>The loop \<open>for b in data\<close>; its \<open>else\<close> branch is the end of the data.\<close>

fun hpack_int_loop :: "bytes \<Rightarrow> int \<Rightarrow> nat \<Rightarrow> (int \<times> bytes) result" where
  "hpack_int_loop [] result shift = Inl HPACKError"
| "hpack_int_loop (b # data) result shift =
     (let result = result + push_bit shift (uint b AND 0x7F); shift = shift + 7
      in if drop_bit 7 (uint b) AND 1 = 0 then Inr (result, data)
         else hpack_int_loop data result shift)"

definition parse_hpack_int :: "bytes \<Rightarrow> nat \<Rightarrow> (int \<times> bytes) result" where
  "parse_hpack_int data prefix_len =
     (if \<not> (1 \<le> prefix_len \<and> prefix_len \<le> 8) then Inl AssertionError
      else case next_byte data of
        Inl _ \<Rightarrow> Inl HPACKError
      | Inr (prefix_byte, data) \<Rightarrow>
          (let prefix_mask = push_bit prefix_len 1 - 1;
               result = uint prefix_byte AND prefix_mask
           in if result \<noteq> prefix_mask then Inr (result, data)
              else hpack_int_loop data result 0))"

section \<open>Serialising\<close>

text \<open>
  An instance of a subclass of \<open>HPACKInt\<close>: \<open>prefix_len\<close> is the class attribute, which tells
  the four subclasses apart.
\<close>

record hpack_int =
  prefix_len :: nat
  int_val :: int
  padding_amount :: int

definition HPACKInt4 :: "int \<Rightarrow> int \<Rightarrow> hpack_int" where
  "HPACKInt4 v p = \<lparr>prefix_len = 4, int_val = v, padding_amount = p\<rparr>"

definition HPACKInt5 :: "int \<Rightarrow> int \<Rightarrow> hpack_int" where
  "HPACKInt5 v p = \<lparr>prefix_len = 5, int_val = v, padding_amount = p\<rparr>"

definition HPACKInt6 :: "int \<Rightarrow> int \<Rightarrow> hpack_int" where
  "HPACKInt6 v p = \<lparr>prefix_len = 6, int_val = v, padding_amount = p\<rparr>"

definition HPACKInt7 :: "int \<Rightarrow> int \<Rightarrow> hpack_int" where
  "HPACKInt7 v p = \<lparr>prefix_len = 7, int_val = v, padding_amount = p\<rparr>"

definition HPACKInt4_parse :: "hpack_int parser" where
  "HPACKInt4_parse data = bindE (parse_hpack_int data 4) (\<lambda>(v, data). Inr (HPACKInt4 v 0, data))"

definition HPACKInt5_parse :: "hpack_int parser" where
  "HPACKInt5_parse data = bindE (parse_hpack_int data 5) (\<lambda>(v, data). Inr (HPACKInt5 v 0, data))"

definition HPACKInt6_parse :: "hpack_int parser" where
  "HPACKInt6_parse data = bindE (parse_hpack_int data 6) (\<lambda>(v, data). Inr (HPACKInt6 v 0, data))"

definition HPACKInt7_parse :: "hpack_int parser" where
  "HPACKInt7_parse data = bindE (parse_hpack_int data 7) (\<lambda>(v, data). Inr (HPACKInt7 v 0, data))"

text \<open>The loop \<open>while val >= 128\<close> with the \<open>append\<close> after it.\<close>

function hpack_int_digits :: "int \<Rightarrow> int list" where
  "hpack_int_digits v =
     (if v \<ge> 128 then (0x80 OR (v AND 0x7F)) # hpack_int_digits (v div 128) else [v])"
  by pat_completeness auto
termination
  by (relation "measure nat") auto

declare hpack_int_digits.simps [simp del]

text \<open>\<open>result[-1] |= 0x80; result += [0x80] * (padding_amount - 1) + [0]\<close>.\<close>

definition pad_digits :: "int list \<Rightarrow> int \<Rightarrow> int list" where
  "pad_digits ds padding =
     (if padding \<noteq> 0
      then butlast ds @ [last ds OR 0x80] @ replicate (nat (padding - 1)) 0x80 @ [0]
      else ds)"

definition HPACKInt_to_bytes :: "hpack_int \<Rightarrow> int \<Rightarrow> bytes result" where
  "HPACKInt_to_bytes self preprefix =
     (if \<not> (0 \<le> preprefix \<and> preprefix < push_bit (8 - prefix_len self) 1) then Inl HPACKError
      else
        (let val = int_val self; pl = prefix_len self in
         if val < push_bit pl 1 - 1 then
           (if padding_amount self \<noteq> 0 then Inl HPACKError
            else bytes_of_ints [push_bit pl preprefix OR val])
         else
           bytes_of_ints
             ((push_bit pl preprefix OR (push_bit pl 1 - 1)) #
              pad_digits (hpack_int_digits (val - (push_bit pl 1 - 1))) (padding_amount self))))"

section \<open>Round trip\<close>

lemma or_0x80: "0 \<le> x \<Longrightarrow> x < 128 \<Longrightarrow> (0x80 OR x) = 128 + (x::int)"
  using or_high_bit [of x 7 1] by (simp add: push_bit_of_1)

lemma or_0x80_right: "0 \<le> x \<Longrightarrow> x < 128 \<Longrightarrow> (x OR 0x80) = 128 + (x::int)"
  using or_0x80 by (simp add: or.commute)

lemma and_0x7F: "(x::int) AND 0x7F = x mod 128"
  using and_mask_int [of x 7] by (simp add: push_bit_of_1)

text \<open>One turn of the loop, on an integer that fits a byte.\<close>

lemma hpack_int_loop_digit:
  assumes "0 \<le> d" and "d < 256"
  shows "hpack_int_loop (word_of_int d # data) acc shift =
    (if d < 128 then Inr (acc + d * 2 ^ shift, data)
     else hpack_int_loop data (acc + (d - 128) * 2 ^ shift) (shift + 7))"
proof -
  have "uint (word_of_int d :: byte) = d"
    using assms by (simp add: uint_word_of_int)
  moreover have "drop_bit 7 d AND 1 = (if d < 128 then 0 else 1)"
    using assms by (auto simp: drop_bit_eq_div and_one_eq)
  moreover have "d mod 128 = (if d < 128 then d else d - 128)"
    using assms by presburger
  ultimately show ?thesis
    using assms by (simp add: Let_def and_0x7F push_bit_eq_mult)
qed

declare hpack_int_loop.simps(2) [simp del]

lemma hpack_int_loop_zeros:
  "hpack_int_loop (replicate n 128 @ 0 # rest) acc shift = Inr (acc, rest)"
  by (induction n arbitrary: shift) (simp_all add: hpack_int_loop.simps(2))

lemma shift_7_bits: "acc + a * 2 ^ n + b * 2 ^ (n + 7) = (acc :: int) + (a + b * 128) * 2 ^ n"
  by (simp add: power_add algebra_simps)

lemma hpack_int_loop_digits:
  "0 \<le> v \<Longrightarrow> hpack_int_loop (map word_of_int (pad_digits (hpack_int_digits v) p) @ rest) acc shift
     = Inr (acc + v * 2 ^ shift, rest)"
proof (induction v arbitrary: acc shift rule: hpack_int_digits.induct)
  case (1 v)
  show ?case
  proof (cases "v \<ge> 128")
    case True
    have nonempty: "hpack_int_digits (v div 128) \<noteq> []"
      by (subst hpack_int_digits.simps) simp
    have digit: "0x80 OR (v AND 0x7F) = 128 + v mod 128"
      by (simp add: and_0x7F or_0x80)
    have "pad_digits (hpack_int_digits v) p =
        (128 + v mod 128) # pad_digits (hpack_int_digits (v div 128)) p"
      using True nonempty digit by (subst hpack_int_digits.simps) (simp add: pad_digits_def)
    moreover have "\<not> v mod 128 < 0"
      by (simp add: not_less)
    moreover have "acc + v mod 128 * 2 ^ shift + v div 128 * 2 ^ (shift + 7) = acc + v * 2 ^ shift"
      by (simp only: shift_7_bits mod_div_mult_eq)
    ultimately show ?thesis
      using True "1" by (simp add: hpack_int_loop_digit del: of_int_add)
  next
    case False
    then have digits: "hpack_int_digits v = [v]"
      by (subst hpack_int_digits.simps) simp
    show ?thesis
    proof (cases "p = 0")
      case True
      with False "1.prems" digits show ?thesis
        by (simp add: pad_digits_def hpack_int_loop_digit)
    next
      case padded: False
      have "pad_digits [v] p = (128 + v) # replicate (nat (p - 1)) 0x80 @ [0]"
        using padded False "1.prems" by (simp add: pad_digits_def or_0x80_right)
      then show ?thesis
        using False "1.prems" digits
        by (simp add: hpack_int_loop_digit hpack_int_loop_zeros del: of_int_add)
    qed
  qed
qed

lemma hpack_int_digits_step:
  "v \<ge> 128 \<Longrightarrow> hpack_int_digits v = (128 + v mod 128) # hpack_int_digits (v div 128)"
  by (subst hpack_int_digits.simps) (simp add: and_0x7F or_0x80)

lemma hpack_int_digits_stop: "v < 128 \<Longrightarrow> hpack_int_digits v = [v]"
  by (subst hpack_int_digits.simps) simp

lemma hpack_int_digits_bounds: "0 \<le> v \<Longrightarrow> \<forall>d \<in> set (hpack_int_digits v). 0 \<le> d \<and> d < 256"
proof (induction v rule: hpack_int_digits.induct)
  case (1 v)
  show ?case
  proof (cases "v \<ge> 128")
    case True
    with "1.prems" have "\<forall>d \<in> set (hpack_int_digits (v div 128)). 0 \<le> d \<and> d < 256"
      by (intro "1.IH") simp_all
    moreover have "0 \<le> v mod 128" and "v mod 128 < 128"
      by simp_all
    ultimately show ?thesis
      unfolding hpack_int_digits_step [OF True] by force
  next
    case False
    with "1.prems" show ?thesis by (simp add: hpack_int_digits_stop)
  qed
qed

lemma hpack_int_digits_last:
  "0 \<le> v \<Longrightarrow> 0 \<le> last (hpack_int_digits v) \<and> last (hpack_int_digits v) < 128"
proof (induction v rule: hpack_int_digits.induct)
  case (1 v)
  have "hpack_int_digits (v div 128) \<noteq> []"
    by (subst hpack_int_digits.simps) simp
  with "1" show ?case
    by (cases "v \<ge> 128") (auto simp: hpack_int_digits.simps [of v])
qed

lemma pad_digits_bounds:
  assumes "0 \<le> v"
  shows "\<forall>d \<in> set (pad_digits (hpack_int_digits v) p). 0 \<le> d \<and> d < 256"
proof (cases "p = 0")
  case True
  with assms show ?thesis
    using hpack_int_digits_bounds by (simp add: pad_digits_def)
next
  case False
  let ?ds = "hpack_int_digits v"
  have "set (pad_digits ?ds p) \<subseteq> set ?ds \<union> {128 + last ?ds, 128, 0}"
    using False hpack_int_digits_last [OF assms]
    by (auto simp: pad_digits_def or_0x80_right dest: in_set_butlastD)
  with hpack_int_digits_bounds [OF assms] hpack_int_digits_last [OF assms] show ?thesis
    by fastforce
qed

text \<open>The well-formed integers: a prefix width of the classes, a value that is not negative.\<close>

definition wf_int :: "hpack_int \<Rightarrow> bool" where
  "wf_int i \<longleftrightarrow> 1 \<le> prefix_len i \<and> prefix_len i \<le> 8 \<and> 0 \<le> int_val i"

text \<open>Padding is for values that do not fit the prefix.\<close>

definition printable_int :: "hpack_int \<Rightarrow> bool" where
  "printable_int i \<longleftrightarrow>
     wf_int i \<and> (int_val i < 2 ^ prefix_len i - 1 \<longrightarrow> padding_amount i = 0)"

text \<open>The first byte: the \<open>preprefix\<close> above the prefix, whose bits hold the value or are all set.\<close>

definition first_int_byte :: "nat \<Rightarrow> int \<Rightarrow> int \<Rightarrow> int" where
  "first_int_byte pl preprefix v = preprefix * 2 ^ pl + (if v < 2 ^ pl - 1 then v else 2 ^ pl - 1)"

lemma first_int_byte_bounds:
  assumes "pl \<le> 8" and "0 \<le> v" and "0 \<le> q" and "q < 2 ^ (8 - pl)"
  shows "0 \<le> first_int_byte pl q v \<and> first_int_byte pl q v < 256"
proof -
  have "(q + 1) * 2 ^ pl \<le> 2 ^ (8 - pl) * (2 ^ pl :: int)"
    using assms(4) by (intro mult_right_mono) auto
  also have "\<dots> = 256"
    using assms(1) by (simp flip: power_add)
  finally have "q * 2 ^ pl + 2 ^ pl \<le> 256" by (simp add: algebra_simps)
  then show ?thesis
    using assms by (simp add: first_int_byte_def)
qed

lemma HPACKInt_to_bytes_Inr:
  assumes "wf_int i" and "HPACKInt_to_bytes i q = Inr bs"
  shows "0 \<le> q \<and> q < 2 ^ (8 - prefix_len i) \<and>
    bs = word_of_int (first_int_byte (prefix_len i) q (int_val i)) #
      (if int_val i < 2 ^ prefix_len i - 1 then []
       else map word_of_int (pad_digits (hpack_int_digits (int_val i - (2 ^ prefix_len i - 1)))
              (padding_amount i)))"
proof -
  have q: "0 \<le> q \<and> q < 2 ^ (8 - prefix_len i)"
    using assms(2) by (auto simp: HPACKInt_to_bytes_def push_bit_of_1 split: if_splits)
  have "push_bit (prefix_len i) q OR v = q * 2 ^ prefix_len i + v"
    if "0 \<le> v" "v < 2 ^ prefix_len i" for v
    using that by (rule or_high_bit)
  then show ?thesis
    using assms q unfolding wf_int_def
    by (auto simp: HPACKInt_to_bytes_def push_bit_of_1 first_int_byte_def Let_def
        bytes_of_ints_Inr split: if_splits)
qed

lemma HPACKInt_to_bytes_ok:
  assumes "wf_int i" and "0 \<le> q" and "q < 2 ^ (8 - prefix_len i)"
    and "int_val i < 2 ^ prefix_len i - 1 \<longrightarrow> padding_amount i = 0"
  shows "\<exists>bs. HPACKInt_to_bytes i q = Inr bs"
proof -
  have bounds: "0 \<le> first_int_byte (prefix_len i) q v \<and> first_int_byte (prefix_len i) q v < 256"
    if "0 \<le> v" for v
    using assms that by (intro first_int_byte_bounds) (auto simp: wf_int_def)
  have or_eq: "push_bit (prefix_len i) q OR v = q * 2 ^ prefix_len i + v"
    if "0 \<le> v" "v < 2 ^ prefix_len i" for v
    using that by (rule or_high_bit)
  show ?thesis
  proof (cases "int_val i < 2 ^ prefix_len i - 1")
    case True
    then show ?thesis
      using assms bounds [of "int_val i"] or_eq [of "int_val i"]
      by (simp add: HPACKInt_to_bytes_def push_bit_of_1 Let_def bytes_of_ints_def wf_int_def
          first_int_byte_def)
  next
    case False
    then show ?thesis
      using assms bounds [of "int_val i"] or_eq [of "2 ^ prefix_len i - 1"]
        pad_digits_bounds [of "int_val i - (2 ^ prefix_len i - 1)" "padding_amount i"]
      by (simp add: HPACKInt_to_bytes_def push_bit_of_1 Let_def bytes_of_ints_def wf_int_def
          first_int_byte_def)
  qed
qed

lemma hpack_int_roundtrip:
  assumes wf: "wf_int i" and ok: "HPACKInt_to_bytes i q = Inr bs"
  shows "parse_hpack_int (bs @ rest) (prefix_len i) = Inr (int_val i, rest)"
proof -
  let ?pl = "prefix_len i"
  let ?f = "first_int_byte ?pl q (int_val i)"
  have pl: "1 \<le> ?pl" "?pl \<le> 8" and v: "0 \<le> int_val i"
    using wf by (simp_all add: wf_int_def)
  note bs = HPACKInt_to_bytes_Inr [OF wf ok]
  then have "uint (word_of_int ?f :: byte) = ?f"
    using first_int_byte_bounds [OF pl(2) v] by (simp add: uint_word_of_int)
  moreover have "?f AND (2 ^ ?pl - 1) = (if int_val i < 2 ^ ?pl - 1 then int_val i else 2 ^ ?pl - 1)"
    using v by (simp add: and_mask_exp_int first_int_byte_def)
  ultimately show ?thesis
    using pl v bs hpack_int_loop_digits [of "int_val i - (2 ^ ?pl - 1)" _ rest]
    by (auto simp: parse_hpack_int_def Let_def push_bit_of_1)
qed

text \<open>Parsing advances by at least one byte, and never yields a negative value.\<close>

lemma hpack_int_loop_shorter:
  "hpack_int_loop data acc shift = Inr (v, rest) \<Longrightarrow> length rest < length data"
proof (induction data acc shift rule: hpack_int_loop.induct)
  case (2 b data result shift)
  show ?case
  proof (cases "drop_bit 7 (uint b) AND 1 = 0")
    case True
    then show ?thesis using "2.prems" by (simp add: hpack_int_loop.simps(2) Let_def)
  next
    case False
    then have "length rest < length data"
      using "2" by (simp add: hpack_int_loop.simps(2) Let_def)
    then show ?thesis by simp
  qed
qed simp

lemma hpack_int_loop_ge: "hpack_int_loop data acc shift = Inr (v, rest) \<Longrightarrow> acc \<le> v"
proof (induction data acc shift rule: hpack_int_loop.induct)
  case (2 b data result shift)
  have "0 \<le> push_bit shift (uint b AND 0x7F)"
    by simp
  moreover have "result + push_bit shift (uint b AND 0x7F) \<le> v"
    using "2" by (cases "drop_bit 7 (uint b) AND 1 = 0") (auto simp: hpack_int_loop.simps(2) Let_def)
  ultimately show ?case by linarith
qed simp

lemma parse_hpack_int_shorter [shorter_dests]:
  "parse_hpack_int data pl = Inr (v, rest) \<Longrightarrow> length rest < length data"
  by (auto simp: parse_hpack_int_def Let_def next_byte_def split: if_splits list.splits sum.splits
      dest: hpack_int_loop_shorter)

lemma parse_hpack_int_nonneg: "parse_hpack_int data pl = Inr (v, rest) \<Longrightarrow> 0 \<le> v"
  using one_le_power [of "2::int" pl]
  by (auto simp: parse_hpack_int_def Let_def next_byte_def push_bit_of_1
      split: if_splits list.splits sum.splits dest!: hpack_int_loop_ge intro: order_trans [rotated])

lemma hpack_int_loop_errors: "hpack_int_loop data acc shift = Inl e \<Longrightarrow> e = HPACKError"
  by (induction data acc shift rule: hpack_int_loop.induct)
    (auto simp: hpack_int_loop.simps(2) Let_def split: if_splits)

lemma parse_hpack_int_errors:
  "parse_hpack_int data pl = Inl e \<Longrightarrow> 1 \<le> pl \<Longrightarrow> pl \<le> 8 \<Longrightarrow> e = HPACKError"
  by (auto simp: parse_hpack_int_def Let_def split: if_splits sum.splits dest: hpack_int_loop_errors)

section \<open>What the first byte says\<close>

text \<open>The \<open>preprefix\<close> is the first byte without the bits of the prefix.\<close>

lemma first_int_byte_div:
  assumes "0 \<le> v"
  shows "first_int_byte pl q v div 2 ^ pl = q"
proof -
  have "first_int_byte pl q v = (if v < 2 ^ pl - 1 then v else 2 ^ pl - 1) + q * 2 ^ pl"
    by (simp add: first_int_byte_def)
  then show ?thesis
    using assms by (auto simp: div_pos_pos_trivial)
qed

lemma HPACKInt_to_bytes_Cons:
  assumes "wf_int i" and "HPACKInt_to_bytes i q = Inr bs"
  obtains b bs' where "bs = b # bs'" and "uint b div 2 ^ prefix_len i = q"
proof -
  from assms have pl: "prefix_len i \<le> 8" and v: "0 \<le> int_val i"
    by (simp_all add: wf_int_def)
  let ?f = "first_int_byte (prefix_len i) q (int_val i)"
  note bs = HPACKInt_to_bytes_Inr [OF assms]
  then have "uint (word_of_int ?f :: byte) = ?f"
    using first_int_byte_bounds [OF pl v] by (simp add: uint_word_of_int)
  then have "uint (word_of_int ?f :: byte) div 2 ^ prefix_len i = q"
    using first_int_byte_div [OF v] by simp
  with bs that show thesis by blast
qed

text \<open>The parsers of the four classes, on what was printed.\<close>

lemma HPACKInt_parse_printed [printed_simps]:
  assumes "wf_int i" and "HPACKInt_to_bytes i q = Inr bs"
  shows "prefix_len i = 4 \<Longrightarrow> HPACKInt4_parse (bs @ rest) = Inr (i\<lparr>padding_amount := 0\<rparr>, rest)"
    and "prefix_len i = 5 \<Longrightarrow> HPACKInt5_parse (bs @ rest) = Inr (i\<lparr>padding_amount := 0\<rparr>, rest)"
    and "prefix_len i = 6 \<Longrightarrow> HPACKInt6_parse (bs @ rest) = Inr (i\<lparr>padding_amount := 0\<rparr>, rest)"
    and "prefix_len i = 7 \<Longrightarrow> HPACKInt7_parse (bs @ rest) = Inr (i\<lparr>padding_amount := 0\<rparr>, rest)"
  using hpack_int_roundtrip [OF assms, of rest]
  by (cases i; simp add: HPACKInt4_parse_def HPACKInt5_parse_def HPACKInt6_parse_def
      HPACKInt7_parse_def HPACKInt4_def HPACKInt5_def HPACKInt6_def HPACKInt7_def)+

lemma HPACKInt_parse_shorter [shorter_dests]:
  "HPACKInt4_parse data = Inr (i, rest) \<Longrightarrow> length rest < length data"
  "HPACKInt5_parse data = Inr (i, rest) \<Longrightarrow> length rest < length data"
  "HPACKInt6_parse data = Inr (i, rest) \<Longrightarrow> length rest < length data"
  "HPACKInt7_parse data = Inr (i, rest) \<Longrightarrow> length rest < length data"
  by (auto simp: HPACKInt4_parse_def HPACKInt5_parse_def HPACKInt6_parse_def HPACKInt7_parse_def
      bindE_eq_Inr dest: parse_hpack_int_shorter)

text \<open>Every parser of an integer is a codec with its printer, for any \<open>preprefix\<close>.\<close>

interpretation hpack_int7: codec "\<lambda>i. HPACKInt_to_bytes i q" HPACKInt7_parse
    "\<lambda>i. i\<lparr>padding_amount := 0\<rparr>" "\<lambda>i. wf_int i \<and> prefix_len i = 7" for q
  by unfold_locales (simp add: printed_simps)

section \<open>Properties\<close>

text \<open>Every integer of the four classes whose zero padding is allowed is serialised, whatever
  bits stand above its prefix, and \<open>_parse_hpack_int\<close> on those bytes, followed by anything,
  gives the value back and consumes exactly those bytes. Padding is allowed unless the value
  fits the prefix, so the theorem covers padded and unpadded encodings of unbounded values.\<close>

theorem hpack_int_print_parse:
  assumes "printable_int i" and "0 \<le> q" and "q < 2 ^ (8 - prefix_len i)"
  shows "\<exists>bs. HPACKInt_to_bytes i q = Inr bs \<and>
    (\<forall>rest. parse_hpack_int (bs @ rest) (prefix_len i) = Inr (int_val i, rest))"
  using assms HPACKInt_to_bytes_ok [of i q] hpack_int_roundtrip [of i q]
  unfolding printable_int_def by blast

theorem hpack_int_print_parse_witness:
  "\<exists>bs. HPACKInt_to_bytes (HPACKInt5 1337 2) 0 = Inr bs \<and>
    (\<forall>rest. parse_hpack_int (bs @ rest) 5 = Inr (1337, rest))"
  using hpack_int_print_parse [of "HPACKInt5 1337 2" 0]
  by (simp add: printable_int_def wf_int_def HPACKInt5_def)

text \<open>\<open>HPACKInt.to_bytes\<close> never answers with an integer outside a byte for a value that is not
  negative: it raises \<open>HPACKError\<close> exactly when the bits above the prefix do not fit or when
  padding is asked for a value that fits the prefix, and otherwise returns bytes.\<close>

theorem hpack_int_print_errors:
  assumes "wf_int i"
  shows "HPACKInt_to_bytes i q = Inl e \<longleftrightarrow>
    e = HPACKError \<and>
      (\<not> (0 \<le> q \<and> q < 2 ^ (8 - prefix_len i)) \<or>
       int_val i < 2 ^ prefix_len i - 1 \<and> padding_amount i \<noteq> 0)"
proof (cases "0 \<le> q \<and> q < 2 ^ (8 - prefix_len i) \<and>
    \<not> (int_val i < 2 ^ prefix_len i - 1 \<and> padding_amount i \<noteq> 0)")
  case True
  then show ?thesis
    using HPACKInt_to_bytes_ok [OF assms, of q] by auto
next
  case False
  then show ?thesis
    by (auto simp: HPACKInt_to_bytes_def Let_def push_bit_of_1)
qed

theorem hpack_int_print_errors_witness:
  "HPACKInt_to_bytes (HPACKInt7 3 1) 1 = Inl HPACKError"
  using hpack_int_print_errors [of "HPACKInt7 3 1" 1 HPACKError]
  by (simp add: wf_int_def HPACKInt7_def)

end
