(* ===== verification/Util.thy ===== *)
theory Util
  imports PyBytes
begin

text \<open>
  \<open>tools/util.py\<close>: the helpers without a socket. \<open>safe_next\<close>, \<open>to_bits\<close>, \<open>list_split\<close>,
  \<open>translate\<close> and \<open>eager_pmap\<close> are modelled; \<open>ssl_wrap\<close>, \<open>sendall\<close> and \<open>recvall\<close> are
  socket calls in the theory \<open>Sockets\<close>. The lemmas show that splitting loses nothing and cuts at every
  separator, that the bits of a byte determine it, and which translations change nothing.
\<close>

section \<open>safe_next and eager_pmap\<close>

text \<open>\<open>safe_next(it)\<close>: the next item, or \<open>None\<close>, and the iterator afterwards.\<close>

fun safe_next :: "'a list \<Rightarrow> 'a option \<times> 'a list" where
  "safe_next [] = (None, [])"
| "safe_next (x # it) = (Some x, it)"

text \<open>\<open>eager_pmap(f, s)\<close>: the thread pool keeps the order of \<open>s\<close>, and an exception of some
  call is the exception of the whole.\<close>

definition eager_pmap :: "('u \<Rightarrow> 't result) \<Rightarrow> 'u list \<Rightarrow> 't list result" where
  "eager_pmap f s = mapE f s"

section \<open>to_bits\<close>

text \<open>Most significant bit first.\<close>

definition to_bits :: "int \<Rightarrow> bool list result" where
  "to_bits byte =
     (if \<not> (0 \<le> byte \<and> byte < 0x100) then Inl AssertionError
      else Inr (map (\<lambda>i. drop_bit (7 - i) byte AND 1 \<noteq> 0) [0..<8]))"

definition byte_bits :: "byte \<Rightarrow> bool list" where
  "byte_bits b = map (\<lambda>i. bit b (7 - i)) [0..<8]"

lemma length_byte_bits [simp]: "length (byte_bits b) = 8"
  by (simp add: byte_bits_def)

lemma and_one_neq_zero: "(x::int) AND 1 \<noteq> 0 \<longleftrightarrow> odd x"
  by (simp add: and_one_eq odd_iff_mod_2_eq_one)

lemma to_bits_byte [simp]: "to_bits (uint (b :: byte)) = Inr (byte_bits b)"
  using uint_byte_bounds [of b]
  by (auto simp: to_bits_def byte_bits_def and_one_neq_zero bit_iff_odd_drop_bit [symmetric]
      bit_uint_iff)

lemma to_bits_Inr: "to_bits v = Inr bs \<longleftrightarrow> 0 \<le> v \<and> v < 0x100 \<and> bs = byte_bits (word_of_int v)"
proof (cases "0 \<le> v \<and> v < 0x100")
  case True
  then have "uint (word_of_int v :: byte) = v"
    by (simp add: uint_word_of_int)
  then show ?thesis
    using True to_bits_byte [of "word_of_int v"] by auto
next
  case False
  then show ?thesis by (auto simp: to_bits_def)
qed

lemma byte_bits_inj: "byte_bits a = byte_bits b \<longleftrightarrow> a = b"
proof
  assume eq: "byte_bits a = byte_bits b"
  show "a = b"
  proof (rule bit_word_eqI)
    fix n :: nat
    assume "n < LENGTH(8)"
    then have "n < 8" by simp
    moreover have "byte_bits a ! (7 - n) = byte_bits b ! (7 - n)"
      using eq by simp
    moreover have "[0..<8] ! (7 - n) = 7 - n"
      using nth_upt [of 0 "7 - n" 8] by simp
    ultimately show "bit a n = bit b n"
      by (simp add: byte_bits_def del: upt_conv_Cons)
  qed
qed simp

section \<open>list_split\<close>

text \<open>\<open>l.index(t)\<close> for a \<open>t\<close> that is in \<open>l\<close>.\<close>

definition list_index :: "'a list \<Rightarrow> 'a \<Rightarrow> nat" where
  "list_index l t = length (takeWhile (\<lambda>x. x \<noteq> t) l)"

function list_split :: "'a list \<Rightarrow> 'a \<Rightarrow> 'a list list" where
  "list_split l t =
     (if t \<in> set l
      then take (list_index l t) l # list_split (drop (list_index l t + 1) l) t
      else [l])"
  by pat_completeness auto
termination
  by (relation "measure (\<lambda>(l, t). length l)") (auto dest: length_pos_if_in_set)

declare list_split.simps [simp del]

fun list_join :: "'a list list \<Rightarrow> 'a \<Rightarrow> 'a list" where
  "list_join [] t = []"
| "list_join [x] t = x"
| "list_join (x # xs) t = x @ t # list_join xs t"

lemma take_list_index: "take (list_index l t) l = takeWhile (\<lambda>x. x \<noteq> t) l"
  unfolding list_index_def by (induction l) auto

lemma list_index_split:
  "t \<in> set l \<Longrightarrow> l = take (list_index l t) l @ t # drop (list_index l t + 1) l"
  unfolding list_index_def by (induction l) auto

lemma list_split_nonempty [simp]: "list_split l t \<noteq> []"
  by (subst list_split.simps) simp

lemma list_split_no_separator: "x \<in> set (list_split l t) \<Longrightarrow> t \<notin> set x"
proof (induction l t rule: list_split.induct)
  case (1 l t)
  show ?case
  proof (cases "t \<in> set l")
    case True
    have "t \<notin> set (take (list_index l t) l)"
      by (auto simp: take_list_index dest: set_takeWhileD)
    with True "1" show ?thesis
      by (auto simp: list_split.simps [of l t])
  next
    case False
    with "1.prems" show ?thesis by (simp add: list_split.simps [of l t])
  qed
qed

lemma list_join_Cons: "xs \<noteq> [] \<Longrightarrow> list_join (x # xs) t = x @ t # list_join xs t"
  by (cases xs) auto

lemma list_join_list_split: "list_join (list_split l t) t = l"
proof (induction l t rule: list_split.induct)
  case (1 l t)
  show ?case
  proof (cases "t \<in> set l")
    case True
    with "1" have "list_join (list_split l t) t = take (list_index l t) l @ t # drop (list_index l t + 1) l"
      by (simp add: list_split.simps [of l t] list_join_Cons)
    with list_index_split [OF True] show ?thesis by simp
  next
    case False
    then show ?thesis by (simp add: list_split.simps [of l t])
  qed
qed

lemma list_index_append: "t \<notin> set x \<Longrightarrow> list_index (x @ t # ys) t = length x"
  unfolding list_index_def by (induction x) auto

lemma list_split_append: "t \<notin> set x \<Longrightarrow> list_split (x @ t # ys) t = x # list_split ys t"
  by (subst list_split.simps) (simp add: list_index_append)

lemma list_split_list_join:
  "xs \<noteq> [] \<Longrightarrow> (\<And>x. x \<in> set xs \<Longrightarrow> t \<notin> set x) \<Longrightarrow> list_split (list_join xs t) t = xs"
proof (induction xs t rule: list_join.induct)
  case (2 x t)
  then show ?case by (simp add: list_split.simps [of x t])
next
  case (3 x y xs t)
  then show ?case by (simp add: list_split_append)
qed simp

lemma length_list_split: "length (list_split l t) = count_list l t + 1"
proof (induction l t rule: list_split.induct)
  case (1 l t)
  show ?case
  proof (cases "t \<in> set l")
    case True
    have "count_list l t = count_list (take (list_index l t) l @ t # drop (list_index l t + 1) l) t"
      using list_index_split [OF True] by simp
    also have "\<dots> = Suc (count_list (drop (list_index l t + 1) l) t)"
      by (auto simp: take_list_index count_list_0_iff dest: set_takeWhileD)
    finally show ?thesis
      using "1" True by (simp add: list_split.simps [of l t])
  next
    case False
    then show ?thesis by (simp add: list_split.simps [of l t] count_list_0_iff)
  qed
qed

section \<open>translate\<close>

text \<open>\<open>b.replace(old, new)\<close>: the occurrences of \<open>old\<close> from left to right, without overlap; an
  empty \<open>old\<close> occurs before every byte and at the end.\<close>

fun replace_occurrences :: "bytes \<Rightarrow> bytes \<Rightarrow> bytes \<Rightarrow> bytes" where
  "replace_occurrences old new [] = []"
| "replace_occurrences old new (c # s) =
     (if old \<noteq> [] \<and> take (length old) (c # s) = old
      then new @ replace_occurrences old new (drop (length old - 1) s)
      else c # replace_occurrences old new s)"

definition bytes_replace :: "bytes \<Rightarrow> bytes \<Rightarrow> bytes \<Rightarrow> bytes" where
  "bytes_replace old new s =
     (if old = [] then concat (map (\<lambda>c. new @ [c]) s) @ new else replace_occurrences old new s)"

text \<open>The dict \<open>tr\<close> is the list of its items in insertion order.\<close>

definition translate :: "bytes \<Rightarrow> (bytes \<times> bytes) list \<Rightarrow> bytes" where
  "translate b tr = foldl (\<lambda>result (old, new). bytes_replace old new result) b tr"

lemma replace_occurrences_byte:
  "replace_occurrences [o1] [n1] s = map (\<lambda>c. if c = o1 then n1 else c) s"
  by (induction s) auto

lemma bytes_replace_byte:
  "bytes_replace [o1] [n1] s = map (\<lambda>c. if c = o1 then n1 else c) s"
  by (simp add: bytes_replace_def replace_occurrences_byte)

lemma translate_Nil [simp]: "translate b [] = b"
  by (simp add: translate_def)

lemma translate_Cons: "translate b ((old, new) # tr) = translate (bytes_replace old new b) tr"
  by (simp add: translate_def)

lemma replace_occurrences_id:
  "(\<And>us vs. s \<noteq> us @ old @ vs) \<Longrightarrow> replace_occurrences old new s = s"
proof (induction old new s rule: replace_occurrences.induct)
  case (2 old new c s)
  have no_prefix: "take (length old) (c # s) \<noteq> old"
    using "2.prems" [of "[]" "drop (length old) (c # s)"]
    by (metis append_Nil append_take_drop_id)
  have "s \<noteq> us @ old @ vs" for us vs
    using "2.prems" [of "c # us" vs] by simp
  with no_prefix "2.IH" show ?case by auto
qed simp

section \<open>Properties\<close>

text \<open>\<open>list_split(l, t)\<close> is the only way to cut \<open>l\<close> at every \<open>t\<close>: its pieces are free of \<open>t\<close>,
  joined with \<open>t\<close> they give \<open>l\<close> back, there is one more of them than \<open>t\<close> occurs in \<open>l\<close>, and every
  non-empty list of pieces with the first two properties is its result.\<close>

theorem list_split_is_the_split:
  "(list_split l t = xs \<longleftrightarrow> xs \<noteq> [] \<and> list_all (\<lambda>x. t \<notin> set x) xs \<and> list_join xs t = l) \<and>
    length (list_split l t) = count_list l t + 1"
  using list_split_list_join [of xs t] list_split_no_separator [of _ l t] list_join_list_split [of l t]
  by (auto simp: list_all_iff length_list_split)

end
