(* ===== verification/HuffmanTable.thy ===== *)
theory HuffmanTable
  imports Util
begin

text \<open>
  \<open>tools/hpack.py\<close>, the Huffman code of RFC 7541, Appendix B: the table \<open>HUFFMAN_CODEWORDS\<close>
  (entry \<open>i\<close> is the code of byte \<open>i\<close>, entry 256 the code of \<open>EOS\<close>) and the tree that
  \<open>_build_huffman_tree\<close> makes of it. The table is evaluated once, by the kernel: the tree is
  built without a failed assertion, following a codeword from the root ends at its symbol, and the
  tree has no missing child, so a walk over any bits meets only nodes and symbols.
\<close>

section \<open>The table\<close>

text \<open>The strings of the source, in two halves: the codes of the bytes below 128, then the
  others and \<open>EOS\<close>.\<close>

definition huffman_strings_low :: "string list" where
  "huffman_strings_low =
    [''1111111111000'',
     ''11111111111111111011000'',
     ''1111111111111111111111100010'',
     ''1111111111111111111111100011'',
     ''1111111111111111111111100100'',
     ''1111111111111111111111100101'',
     ''1111111111111111111111100110'',
     ''1111111111111111111111100111'',
     ''1111111111111111111111101000'',
     ''111111111111111111101010'',
     ''111111111111111111111111111100'',
     ''1111111111111111111111101001'',
     ''1111111111111111111111101010'',
     ''111111111111111111111111111101'',
     ''1111111111111111111111101011'',
     ''1111111111111111111111101100'',
     ''1111111111111111111111101101'',
     ''1111111111111111111111101110'',
     ''1111111111111111111111101111'',
     ''1111111111111111111111110000'',
     ''1111111111111111111111110001'',
     ''1111111111111111111111110010'',
     ''111111111111111111111111111110'',
     ''1111111111111111111111110011'',
     ''1111111111111111111111110100'',
     ''1111111111111111111111110101'',
     ''1111111111111111111111110110'',
     ''1111111111111111111111110111'',
     ''1111111111111111111111111000'',
     ''1111111111111111111111111001'',
     ''1111111111111111111111111010'',
     ''1111111111111111111111111011'',
     ''010100'',
     ''1111111000'',
     ''1111111001'',
     ''111111111010'',
     ''1111111111001'',
     ''010101'',
     ''11111000'',
     ''11111111010'',
     ''1111111010'',
     ''1111111011'',
     ''11111001'',
     ''11111111011'',
     ''11111010'',
     ''010110'',
     ''010111'',
     ''011000'',
     ''00000'',
     ''00001'',
     ''00010'',
     ''011001'',
     ''011010'',
     ''011011'',
     ''011100'',
     ''011101'',
     ''011110'',
     ''011111'',
     ''1011100'',
     ''11111011'',
     ''111111111111100'',
     ''100000'',
     ''111111111011'',
     ''1111111100'',
     ''1111111111010'',
     ''100001'',
     ''1011101'',
     ''1011110'',
     ''1011111'',
     ''1100000'',
     ''1100001'',
     ''1100010'',
     ''1100011'',
     ''1100100'',
     ''1100101'',
     ''1100110'',
     ''1100111'',
     ''1101000'',
     ''1101001'',
     ''1101010'',
     ''1101011'',
     ''1101100'',
     ''1101101'',
     ''1101110'',
     ''1101111'',
     ''1110000'',
     ''1110001'',
     ''1110010'',
     ''11111100'',
     ''1110011'',
     ''11111101'',
     ''1111111111011'',
     ''1111111111111110000'',
     ''1111111111100'',
     ''11111111111100'',
     ''100010'',
     ''111111111111101'',
     ''00011'',
     ''100011'',
     ''00100'',
     ''100100'',
     ''00101'',
     ''100101'',
     ''100110'',
     ''100111'',
     ''00110'',
     ''1110100'',
     ''1110101'',
     ''101000'',
     ''101001'',
     ''101010'',
     ''00111'',
     ''101011'',
     ''1110110'',
     ''101100'',
     ''01000'',
     ''01001'',
     ''101101'',
     ''1110111'',
     ''1111000'',
     ''1111001'',
     ''1111010'',
     ''1111011'',
     ''111111111111110'',
     ''11111111100'',
     ''11111111111101'',
     ''1111111111101'',
     ''1111111111111111111111111100'']"

definition huffman_strings_high :: "string list" where
  "huffman_strings_high =
    [''11111111111111100110'',
     ''1111111111111111010010'',
     ''11111111111111100111'',
     ''11111111111111101000'',
     ''1111111111111111010011'',
     ''1111111111111111010100'',
     ''1111111111111111010101'',
     ''11111111111111111011001'',
     ''1111111111111111010110'',
     ''11111111111111111011010'',
     ''11111111111111111011011'',
     ''11111111111111111011100'',
     ''11111111111111111011101'',
     ''11111111111111111011110'',
     ''111111111111111111101011'',
     ''11111111111111111011111'',
     ''111111111111111111101100'',
     ''111111111111111111101101'',
     ''1111111111111111010111'',
     ''11111111111111111100000'',
     ''111111111111111111101110'',
     ''11111111111111111100001'',
     ''11111111111111111100010'',
     ''11111111111111111100011'',
     ''11111111111111111100100'',
     ''111111111111111011100'',
     ''1111111111111111011000'',
     ''11111111111111111100101'',
     ''1111111111111111011001'',
     ''11111111111111111100110'',
     ''11111111111111111100111'',
     ''111111111111111111101111'',
     ''1111111111111111011010'',
     ''111111111111111011101'',
     ''11111111111111101001'',
     ''1111111111111111011011'',
     ''1111111111111111011100'',
     ''11111111111111111101000'',
     ''11111111111111111101001'',
     ''111111111111111011110'',
     ''11111111111111111101010'',
     ''1111111111111111011101'',
     ''1111111111111111011110'',
     ''111111111111111111110000'',
     ''111111111111111011111'',
     ''1111111111111111011111'',
     ''11111111111111111101011'',
     ''11111111111111111101100'',
     ''111111111111111100000'',
     ''111111111111111100001'',
     ''1111111111111111100000'',
     ''111111111111111100010'',
     ''11111111111111111101101'',
     ''1111111111111111100001'',
     ''11111111111111111101110'',
     ''11111111111111111101111'',
     ''11111111111111101010'',
     ''1111111111111111100010'',
     ''1111111111111111100011'',
     ''1111111111111111100100'',
     ''11111111111111111110000'',
     ''1111111111111111100101'',
     ''1111111111111111100110'',
     ''11111111111111111110001'',
     ''11111111111111111111100000'',
     ''11111111111111111111100001'',
     ''11111111111111101011'',
     ''1111111111111110001'',
     ''1111111111111111100111'',
     ''11111111111111111110010'',
     ''1111111111111111101000'',
     ''1111111111111111111101100'',
     ''11111111111111111111100010'',
     ''11111111111111111111100011'',
     ''11111111111111111111100100'',
     ''111111111111111111111011110'',
     ''111111111111111111111011111'',
     ''11111111111111111111100101'',
     ''111111111111111111110001'',
     ''1111111111111111111101101'',
     ''1111111111111110010'',
     ''111111111111111100011'',
     ''11111111111111111111100110'',
     ''111111111111111111111100000'',
     ''111111111111111111111100001'',
     ''11111111111111111111100111'',
     ''111111111111111111111100010'',
     ''111111111111111111110010'',
     ''111111111111111100100'',
     ''111111111111111100101'',
     ''11111111111111111111101000'',
     ''11111111111111111111101001'',
     ''1111111111111111111111111101'',
     ''111111111111111111111100011'',
     ''111111111111111111111100100'',
     ''111111111111111111111100101'',
     ''11111111111111101100'',
     ''111111111111111111110011'',
     ''11111111111111101101'',
     ''111111111111111100110'',
     ''1111111111111111101001'',
     ''111111111111111100111'',
     ''111111111111111101000'',
     ''11111111111111111110011'',
     ''1111111111111111101010'',
     ''1111111111111111101011'',
     ''1111111111111111111101110'',
     ''1111111111111111111101111'',
     ''111111111111111111110100'',
     ''111111111111111111110101'',
     ''11111111111111111111101010'',
     ''11111111111111111110100'',
     ''11111111111111111111101011'',
     ''111111111111111111111100110'',
     ''11111111111111111111101100'',
     ''11111111111111111111101101'',
     ''111111111111111111111100111'',
     ''111111111111111111111101000'',
     ''111111111111111111111101001'',
     ''111111111111111111111101010'',
     ''111111111111111111111101011'',
     ''1111111111111111111111111110'',
     ''111111111111111111111101100'',
     ''111111111111111111111101101'',
     ''111111111111111111111101110'',
     ''111111111111111111111101111'',
     ''111111111111111111111110000'',
     ''11111111111111111111101110'',
     ''111111111111111111111111111111'']"

text \<open>\<open>tuple(bool(int(c)) for c in s)\<close>.\<close>

definition HUFFMAN_CODEWORDS :: "bool list list" where
  "HUFFMAN_CODEWORDS =
     map (map (\<lambda>c. c \<noteq> CHR ''0'')) (huffman_strings_low @ huffman_strings_high)"

definition EOS :: int where
  "EOS = 256"

section \<open>The tree\<close>

text \<open>\<open>_huffman_tree_t = None | int | list["_huffman_tree_t"]\<close>: nothing yet, a symbol, or the
  list of the two children.\<close>

datatype huffman_tree = HNone | HSym int | HNode huffman_tree huffman_tree

text \<open>\<open>path[bit]\<close> on a list of two.\<close>

fun child :: "bool \<Rightarrow> huffman_tree \<Rightarrow> huffman_tree result" where
  "child b (HNode l r) = Inr (if b then r else l)"
| "child b t = Inl AssertionError"

text \<open>One codeword put in place: descend by all bits but the last, making the missing nodes,
  then store the symbol under the last bit. Each \<open>assert isinstance(path, list)\<close> is a branch.
  An empty codeword has no last bit.\<close>

fun insert_codeword :: "bool list \<Rightarrow> int \<Rightarrow> huffman_tree \<Rightarrow> huffman_tree result" where
  "insert_codeword [] i t = Inl IndexError"
| "insert_codeword [b] i (HNode l r) =
     Inr (if b then HNode l (HSym i) else HNode (HSym i) r)"
| "insert_codeword (b # b' # bs) i (HNode l r) =
     (let c = (if b then r else l); c = (if c = HNone then HNode HNone HNone else c)
      in bindE (insert_codeword (b' # bs) i c)
           (\<lambda>c'. Inr (if b then HNode l c' else HNode c' r)))"
| "insert_codeword (b # bs) i t = Inl AssertionError"

fun insert_codewords :: "bool list list \<Rightarrow> int \<Rightarrow> huffman_tree \<Rightarrow> huffman_tree result" where
  "insert_codewords [] i t = Inr t"
| "insert_codewords (cw # cws) i t =
     bindE (insert_codeword cw i t) (insert_codewords cws (i + 1))"

definition build_huffman_tree :: "huffman_tree result" where
  "build_huffman_tree = insert_codewords HUFFMAN_CODEWORDS 0 (HNode HNone HNone)"

text \<open>The module's \<open>_huffman_tree\<close> after \<open>_build_huffman_tree()\<close>.\<close>

definition huffman_root :: huffman_tree where
  "huffman_root = (case build_huffman_tree of Inl _ \<Rightarrow> HNone | Inr t \<Rightarrow> t)"

section \<open>Walking down the tree\<close>

text \<open>\<open>path = path[bit]\<close> for one bit after the other.\<close>

fun walk :: "bool list \<Rightarrow> huffman_tree \<Rightarrow> huffman_tree result" where
  "walk [] t = Inr t"
| "walk (b # bs) t = bindE (child b t) (walk bs)"

text \<open>No \<open>None\<close> is left in the tree: every list has two children.\<close>

fun complete_tree :: "huffman_tree \<Rightarrow> bool" where
  "complete_tree HNone \<longleftrightarrow> False"
| "complete_tree (HSym i) \<longleftrightarrow> 0 \<le> i \<and> i \<le> EOS"
| "complete_tree (HNode l r) \<longleftrightarrow> complete_tree l \<and> complete_tree r"

fun is_list_node :: "huffman_tree \<Rightarrow> bool" where
  "is_list_node (HNode l r) \<longleftrightarrow> True"
| "is_list_node t \<longleftrightarrow> False"

fun walks_to :: "bool list list \<Rightarrow> int \<Rightarrow> huffman_tree \<Rightarrow> bool" where
  "walks_to [] i t \<longleftrightarrow> True"
| "walks_to (cw # cws) i t \<longleftrightarrow> walk cw t = Inr (HSym i) \<and> walks_to cws (i + 1) t"

definition good_tree :: "bool list list \<Rightarrow> huffman_tree result \<Rightarrow> bool" where
  "good_tree cws m = (case m of
      Inl _ \<Rightarrow> False
    | Inr t \<Rightarrow> is_list_node t \<and> complete_tree t \<and> walks_to cws 0 t)"

lemma walks_to_nth: "walks_to cws i t \<Longrightarrow> k < length cws \<Longrightarrow> walk (cws ! k) t = Inr (HSym (i + int k))"
proof (induction cws i t arbitrary: k rule: walks_to.induct)
  case (2 cw cws i t)
  then show ?case by (cases k) (auto simp: algebra_simps)
qed simp

lemma walk_append: "walk (us @ vs) t = bindE (walk us t) (walk vs)"
  by (induction us t rule: walk.induct) (simp_all add: bindE_assoc cong: bindE_cong)

lemma walk_Sym: "walk bs (HSym i) = Inr t \<longleftrightarrow> bs = [] \<and> t = HSym i"
  by (cases bs) auto

lemma complete_child: "complete_tree t \<Longrightarrow> is_list_node t \<Longrightarrow> \<exists>c. child b t = Inr c \<and> complete_tree c"
  by (cases t) auto

lemma child_Inr: "child b t = Inr c \<longleftrightarrow> (\<exists>l r. t = HNode l r \<and> c = (if b then r else l))"
  by (cases t) auto

text \<open>A symbol of the tree stands at the end of its codeword: inserting a codeword makes one new
  symbol, at that place.\<close>

lemma walk_HNone: "walk p HNone = Inr t \<longleftrightarrow> p = [] \<and> t = HNone"
  by (cases p) auto

lemma walk_empty_node: "walk p (HNode HNone HNone) \<noteq> Inr (HSym s)"
  by (cases p) (auto simp: walk_HNone)

lemma walk_insert_codeword:
  "insert_codeword cw i t = Inr t' \<Longrightarrow> walk p t' = Inr (HSym s) \<Longrightarrow>
     (p = cw \<and> s = i) \<or> walk p t = Inr (HSym s)"
proof (induction cw i t arbitrary: t' p s rule: insert_codeword.induct)
  case (2 b i l r)
  then show ?case
    by (cases p) (auto simp: walk_Sym split: if_splits)
next
  case (3 b b' bs i l r)
  define c where "c = (if b then r else l)"
  define c1 where "c1 = (if c = HNone then HNode HNone HNone else c)"
  have "insert_codeword (b # b' # bs) i (HNode l r) =
      bindE (insert_codeword (b' # bs) i c1) (\<lambda>c'. Inr (if b then HNode l c' else HNode c' r))"
    by (simp only: insert_codeword.simps Let_def c1_def c_def)
  with "3.prems"(1) obtain c' where c': "insert_codeword (b' # bs) i c1 = Inr c'"
    and t': "t' = (if b then HNode l c' else HNode c' r)"
    by (auto simp only: bindE_eq_Inr sum.inject)
  show ?case
  proof (cases p)
    case Nil
    with "3.prems"(2) t' show ?thesis by (auto split: if_splits)
  next
    case (Cons d ds)
    show ?thesis
    proof (cases "d = b")
      case True
      with "3.prems"(2) t' Cons have "walk ds c' = Inr (HSym s)"
        by (auto split: if_splits)
      with "3.IH" c' have "(ds = b' # bs \<and> s = i) \<or> walk ds c1 = Inr (HSym s)"
        unfolding c1_def c_def by blast
      moreover have "walk ds c1 = Inr (HSym s) \<Longrightarrow> walk ds c = Inr (HSym s)"
        using walk_empty_node [of ds s] by (auto simp: c1_def split: if_splits)
      ultimately show ?thesis
        using True Cons by (auto simp: c_def)
    next
      case False
      with "3.prems"(2) t' Cons show ?thesis
        by (auto split: if_splits)
    qed
  qed
qed auto

lemma walk_insert_codewords:
  "insert_codewords cws i t = Inr t' \<Longrightarrow> walk p t' = Inr (HSym s) \<Longrightarrow>
     (\<exists>k < length cws. p = cws ! k \<and> s = i + int k) \<or> walk p t = Inr (HSym s)"
proof (induction cws i t rule: insert_codewords.induct)
  case (2 cw cws i t)
  then obtain t1 where t1: "insert_codeword cw i t = Inr t1"
    and rest: "insert_codewords cws (i + 1) t1 = Inr t'"
    by (auto simp: bindE_eq_Inr)
  from "2.IH" [OF t1 rest "2.prems"(2)] show ?case
  proof
    assume "\<exists>k < length cws. p = cws ! k \<and> s = i + 1 + int k"
    then obtain k where "k < length cws" and "p = cws ! k" and "s = i + 1 + int k" by blast
    then have "Suc k < length (cw # cws) \<and> p = (cw # cws) ! Suc k \<and> s = i + int (Suc k)"
      by simp
    then show ?thesis by blast
  next
    assume "walk p t1 = Inr (HSym s)"
    with walk_insert_codeword [OF t1] have "(p = cw \<and> s = i) \<or> walk p t = Inr (HSym s)"
      by blast
    then show ?thesis by force
  qed
qed auto

section \<open>The table evaluated\<close>

lemma length_HUFFMAN_CODEWORDS [simp]: "length HUFFMAN_CODEWORDS = 257"
  by (simp add: HUFFMAN_CODEWORDS_def huffman_strings_low_def huffman_strings_high_def)

lemma good_huffman_tree: "good_tree HUFFMAN_CODEWORDS build_huffman_tree"
  by code_simp

lemma EOS_codeword: "HUFFMAN_CODEWORDS ! 256 = replicate 30 True"
  by (simp add: HUFFMAN_CODEWORDS_def huffman_strings_low_def huffman_strings_high_def nth_append
      eval_nat_numeral)

section \<open>The contract between the table and the tree\<close>

text \<open>What the decoder and the encoder rely on: following a codeword from the root ends at its
  symbol, and the walk never meets a missing child.\<close>

locale huffman_code =
  fixes code :: "bool list list"
    and root :: huffman_tree
  assumes walk_code: "i < length code \<Longrightarrow> walk (code ! i) root = Inr (HSym (int i))"
    and root_list: "is_list_node root"
    and root_complete: "complete_tree root"
    and walk_symbol: "walk p root = Inr (HSym s) \<Longrightarrow> \<exists>i < length code. p = code ! i \<and> s = int i"
begin

lemma code_nonempty: "i < length code \<Longrightarrow> code ! i \<noteq> []"
  using walk_code [of i] root_list by (cases root) auto

text \<open>No codeword is a prefix of another.\<close>

lemma code_prefix_free:
  assumes "i < length code" and "j < length code" and "code ! i @ us = code ! j @ vs"
  shows "i = j \<and> us = vs"
proof -
  have le: "i = j \<and> us = vs"
    if ij: "i < length code" "j < length code" "code ! i @ us = code ! j @ vs"
      "length (code ! i) \<le> length (code ! j)" for i j us vs
  proof -
    from ij(3,4) obtain ws where j: "code ! j = code ! i @ ws" and us: "us = ws @ vs"
      by (metis append_eq_append_conv_if append_eq_conv_conj append_take_drop_id)
    have "walk (code ! j) root = walk ws (HSym (int i))"
      using walk_code [OF ij(1)] by (simp add: j walk_append)
    with walk_code [OF ij(2)] have "ws = [] \<and> int j = int i"
      by (simp add: walk_Sym)
    with us show ?thesis by simp
  qed
  show ?thesis
  proof (cases "length (code ! i) \<le> length (code ! j)")
    case True
    with assms show ?thesis by (rule le)
  next
    case False
    then have "j = i \<and> vs = us"
      using assms by (intro le) simp_all
    then show ?thesis by simp
  qed
qed

text \<open>A proper prefix of a codeword ends at an inner node.\<close>

lemma walk_proper_prefix:
  assumes "i < length code" and "code ! i = us @ vs" and "vs \<noteq> []"
  shows "\<exists>t. walk us root = Inr t \<and> is_list_node t"
proof -
  from walk_code [OF assms(1)] assms(2)
  obtain t where t: "walk us root = Inr t" and "walk vs t = Inr (HSym (int i))"
    by (auto simp: walk_append bindE_eq_Inr)
  then have "is_list_node t"
    using assms(3) by (cases t; cases vs) auto
  with t show ?thesis by blast
qed

end

interpretation hc: huffman_code HUFFMAN_CODEWORDS huffman_root
proof
  obtain t where t: "build_huffman_tree = Inr t" "is_list_node t" "complete_tree t"
    "walks_to HUFFMAN_CODEWORDS 0 t"
    using good_huffman_tree by (auto simp: good_tree_def split: sum.splits)
  have root: "huffman_root = t"
    unfolding huffman_root_def t(1) by simp
  with t show "is_list_node huffman_root" and "complete_tree huffman_root"
    by simp_all
  show "\<exists>i < length HUFFMAN_CODEWORDS. p = HUFFMAN_CODEWORDS ! i \<and> s = int i"
    if "walk p huffman_root = Inr (HSym s)" for p s
    using walk_insert_codewords [OF t(1) [unfolded build_huffman_tree_def], of p s] that
      walk_empty_node [of p s] root by auto
  show "walk (HUFFMAN_CODEWORDS ! i) huffman_root = Inr (HSym (int i))"
    if "i < length HUFFMAN_CODEWORDS" for i
    using root walks_to_nth [OF t(4) that] by simp
qed

end
