(* ===== verification/HpackString.thy ===== *)
theory HpackString
  imports HpackInt HuffmanTable
begin

text \<open>
  \<open>tools/hpack.py\<close>, the class \<open>HPACKString\<close>: string literals, raw or Huffman coded, with the
  length in front. The decoder is the double loop of \<open>HPACKString.parse\<close> over bytes and their
  bits; the encoder is \<open>HPACKString.to_bytes\<close>. The lemmas show that the decoder undoes the
  encoder and what it does with padding.
\<close>

section \<open>Decoding\<close>

text \<open>The variables of the loop: what is decoded, where the walk stands, and the bits since the
  last symbol.\<close>

record huff_state =
  hs_result :: "int list"
  hs_path :: huffman_tree
  hs_codeword :: "bool list"

definition huff_init :: huff_state where
  "huff_init = \<lparr>hs_result = [], hs_path = huffman_root, hs_codeword = []\<rparr>"

text \<open>The body of \<open>for bit in to_bits(byte)\<close>.\<close>

definition huff_bit :: "huff_state \<Rightarrow> bool \<Rightarrow> huff_state result" where
  "huff_bit st b =
     (let codeword = hs_codeword st @ [b]
      in bindE (child b (hs_path st)) (\<lambda>path.
           case path of
             HSym s \<Rightarrow>
               if s = EOS then Inl HPACKError
               else Inr \<lparr>hs_result = hs_result st @ [s], hs_path = huffman_root, hs_codeword = []\<rparr>
           | _ \<Rightarrow> Inr (st\<lparr>hs_path := path, hs_codeword := codeword\<rparr>)))"

fun huff_bits :: "huff_state \<Rightarrow> bool list \<Rightarrow> huff_state result" where
  "huff_bits st [] = Inr st"
| "huff_bits st (b # bs) = bindE (huff_bit st b) (\<lambda>st. huff_bits st bs)"

fun huff_bytes :: "huff_state \<Rightarrow> bytes \<Rightarrow> huff_state result" where
  "huff_bytes st [] = Inr st"
| "huff_bytes st (byte # raw) =
     bindE (to_bits (uint byte)) (\<lambda>bits. bindE (huff_bits st bits) (\<lambda>st. huff_bytes st raw))"

record hpack_string =
  str_data :: bytes
  compressed :: bool
  str_length :: "hpack_int option"
  padding :: "bool list option"

definition HPACKString :: "bytes \<Rightarrow> hpack_string" where
  "HPACKString d = \<lparr>str_data = d, compressed = False, str_length = None, padding = None\<rparr>"

definition HPACKString_parse :: "hpack_string parser" where
  "HPACKString_parse data =
     (case next_byte data of
        Inl _ \<Rightarrow> Inl HPACKError
      | Inr (prefix_byte, data) \<Rightarrow>
          let data = prefix_byte # data; is_comp = (uint prefix_byte AND 0x80 \<noteq> 0)
          in bindE (HPACKInt7_parse data) (\<lambda>(len, data).
             bindE (islice_bytes (int_val len) data) (\<lambda>(raw_result, data).
               if int (length raw_result) \<noteq> int_val len then Inl HPACKError
               else if \<not> is_comp then Inr (HPACKString raw_result, data)
               else bindE (huff_bytes huff_init raw_result) (\<lambda>st.
                 if \<not> (\<forall>b \<in> set (hs_codeword st). b) \<and> length (hs_codeword st) \<le> 7
                 then Inl HPACKError
                 else bindE (bytes_of_ints (hs_result st)) (\<lambda>result.
                   Inr (\<lparr>str_data = result, compressed = is_comp,
                         str_length = Some (HPACKInt7 (int (length result)) 0),
                         padding = None\<rparr>, data))))))"

section \<open>Encoding\<close>

text \<open>The loop over the code points, with its two range checks.\<close>

fun string_bits :: "bool \<Rightarrow> bytes \<Rightarrow> bool list result" where
  "string_bits is_comp [] = Inr []"
| "string_bits is_comp (b # data) =
     (let code_point = uint b
      in bindE
           (if is_comp
            then if \<not> (0 \<le> code_point \<and> code_point \<le> EOS) then Inl HPACKError
                 else Inr (HUFFMAN_CODEWORDS ! nat code_point)
            else if \<not> (0 \<le> code_point \<and> code_point < EOS) then Inl HPACKError
                 else to_bits code_point)
           (\<lambda>bits. bindE (string_bits is_comp data) (\<lambda>rest. Inr (bits @ rest))))"

text \<open>\<open>while len(bitstring) % 8 > 0: bitstring.append(True)\<close>, and the loop that pops instead.\<close>

function pad_ones :: "bool list \<Rightarrow> bool list" where
  "pad_ones bits = (if length bits mod 8 > 0 then pad_ones (bits @ [True]) else bits)"
  by pat_completeness auto
termination
proof (relation "measure (\<lambda>bits. (8 - length bits mod 8) mod 8)")
  fix bits :: "bool list"
  assume "length bits mod 8 > 0"
  moreover have "length bits mod 8 < 8" by simp
  ultimately show "(bits @ [True], bits) \<in> measure (\<lambda>bits. (8 - length bits mod 8) mod 8)"
    by (simp add: mod_Suc) linarith
qed simp

function pop_bits :: "bool list \<Rightarrow> bool list" where
  "pop_bits bits = (if length bits mod 8 > 0 then pop_bits (butlast bits) else bits)"
  by pat_completeness auto
termination
  by (relation "measure length") (auto intro: Nat.gr0I)

declare pad_ones.simps [simp del] pop_bits.simps [simp del]

definition pad_bits :: "bool list option \<Rightarrow> bool list \<Rightarrow> bool list" where
  "pad_bits pad bits = (case pad of None \<Rightarrow> pad_ones bits | Some p \<Rightarrow> pop_bits (bits @ p))"

text \<open>Eight bits from position \<open>8 * i\<close> on, or-ed together by \<open>functools.reduce\<close>.\<close>

definition pack_byte :: "bool list \<Rightarrow> nat \<Rightarrow> int" where
  "pack_byte bits i =
     (let xs = map (\<lambda>j. push_bit (7 - j) (of_bool (bits ! (i * 8 + j)))) [0..<8]
      in foldl (OR) (hd xs) (tl xs))"

definition pack_bits :: "bool list \<Rightarrow> bytes result" where
  "pack_bits bits = bytes_of_ints (map (pack_byte bits) [0..<length bits div 8])"

definition HPACKString_to_bytes :: "hpack_string \<Rightarrow> bytes result" where
  "HPACKString_to_bytes self =
     bindE (string_bits (compressed self) (str_data self)) (\<lambda>bits.
     bindE (pack_bits (pad_bits (padding self) bits)) (\<lambda>string.
       let len = (case str_length self of
                    None \<Rightarrow> HPACKInt7 (int (length string)) 0 | Some l \<Rightarrow> l)
       in bindE (HPACKInt_to_bytes len (of_bool (compressed self))) (\<lambda>prefix.
            Inr (prefix @ string))))"

section \<open>Bits and bytes\<close>

lemma bytes_of_bits: "concat (map byte_bits bs) ! (i * 8 + j) = byte_bits (bs ! i) ! j"
  if "i < length bs" and "j < 8"
  using that
proof (induction bs arbitrary: i)
  case (Cons b bs)
  then show ?case by (cases i) (simp_all add: nth_append add.assoc)
qed simp

lemma length_concat_byte_bits [simp]: "length (concat (map byte_bits bs)) = 8 * length bs"
  by (induction bs) auto

lemma pack_byte_expand:
  "pack_byte bits i =
     push_bit 7 (of_bool (bits ! (i * 8))) OR push_bit 6 (of_bool (bits ! (i * 8 + 1))) OR
     push_bit 5 (of_bool (bits ! (i * 8 + 2))) OR push_bit 4 (of_bool (bits ! (i * 8 + 3))) OR
     push_bit 3 (of_bool (bits ! (i * 8 + 4))) OR push_bit 2 (of_bool (bits ! (i * 8 + 5))) OR
     push_bit 1 (of_bool (bits ! (i * 8 + 6))) OR of_bool (bits ! (i * 8 + 7))"
  by (simp add: pack_byte_def Let_def upt_rec [of 0 8] upt_rec numeral_eq_Suc or.assoc)

lemma pack_byte_bounds: "0 \<le> pack_byte bits i \<and> pack_byte bits i < 256"
proof -
  have "push_bit k (of_bool b :: int) < 2 ^ 8" if "k \<le> 7" for k b
  proof -
    have "push_bit k (of_bool b :: int) \<le> 2 ^ k"
      by (simp add: push_bit_eq_mult)
    also have "\<dots> < (2::int) ^ 8"
      using that by (intro power_strict_increasing) auto
    finally show ?thesis .
  qed
  then have "pack_byte bits i < 2 ^ 8"
    unfolding pack_byte_expand by (intro OR_upper) (auto simp: le_less)
  moreover have "0 \<le> pack_byte bits i"
    unfolding pack_byte_expand by simp
  ultimately show ?thesis by simp
qed

lemma bit_pack_byte:
  assumes "n < 8"
  shows "bit (pack_byte bits i) n = bits ! (i * 8 + (7 - n))"
proof -
  from assms consider "n = 0" | "n = 1" | "n = 2" | "n = 3" | "n = 4" | "n = 5" | "n = 6" | "n = 7"
    by linarith
  then show ?thesis
    by cases (simp_all add: pack_byte_expand bit_or_iff bit_push_bit_iff bit_of_bool_iff)
qed

lemma byte_bits_pack_byte: "byte_bits (word_of_int (pack_byte bits i)) = map (\<lambda>j. bits ! (i * 8 + j)) [0..<8]"
  by (auto simp: byte_bits_def bit_word_of_int_iff bit_pack_byte)

lemma pack_bits_ok:
  assumes "length bits mod 8 = 0"
  shows "\<exists>bs. pack_bits bits = Inr bs \<and> concat (map byte_bits bs) = bits"
proof -
  let ?n = "length bits div 8"
  let ?bs = "map (\<lambda>i. word_of_int (pack_byte bits i) :: byte) [0..<?n]"
  have len: "length bits = 8 * ?n"
    using assms by auto
  have "concat (map byte_bits ?bs) = bits"
  proof (rule nth_equalityI)
    show "length (concat (map byte_bits ?bs)) = length bits"
      using len by (simp del: map_map)
    fix k
    assume "k < length (concat (map byte_bits ?bs))"
    then have k: "k < 8 * ?n" by (simp del: map_map)
    then have "k div 8 < ?n" and "k mod 8 < 8" and k_eq: "k div 8 * 8 + k mod 8 = k"
      by auto
    then have "concat (map byte_bits ?bs) ! (k div 8 * 8 + k mod 8) = bits ! (k div 8 * 8 + k mod 8)"
      by (subst bytes_of_bits) (simp_all add: byte_bits_pack_byte del: map_map)
    then show "concat (map byte_bits ?bs) ! k = bits ! k"
      by (simp only: k_eq)
  qed
  moreover have "pack_bits bits = Inr ?bs"
    by (auto simp: pack_bits_def bytes_of_ints_Inr pack_byte_bounds)
  ultimately show ?thesis by blast
qed

section \<open>The loops in closed form\<close>

lemma pad_count_step: "0 < n mod 8 \<Longrightarrow> (8 - n mod 8) mod 8 = Suc ((8 - Suc n mod 8) mod (8::nat))"
proof -
  assume "0 < n mod 8"
  moreover have "n mod 8 < 8" by simp
  ultimately consider "n mod 8 = 1" | "n mod 8 = 2" | "n mod 8 = 3" | "n mod 8 = 4"
    | "n mod 8 = 5" | "n mod 8 = 6" | "n mod 8 = 7"
    by linarith
  then show ?thesis
    by cases (simp_all add: mod_Suc)
qed

lemma pad_ones_eq: "pad_ones bits = bits @ replicate ((8 - length bits mod 8) mod 8) True"
proof (induction bits rule: pad_ones.induct)
  case (1 bits)
  show ?case
  proof (cases "length bits mod 8 > 0")
    case True
    from True have "pad_ones bits = pad_ones (bits @ [True])"
      by (simp add: pad_ones.simps [of bits])
    also have "\<dots> = (bits @ [True]) @ replicate ((8 - Suc (length bits) mod 8) mod 8) True"
      using "1" [OF True] by simp
    also have "\<dots> = bits @ replicate (Suc ((8 - Suc (length bits) mod 8) mod 8)) True"
      by simp
    finally show ?thesis
      by (simp only: pad_count_step [OF True])
  next
    case False
    then show ?thesis by (simp add: pad_ones.simps [of bits])
  qed
qed

lemma length_pad_ones [simp]: "length (pad_ones bits) mod 8 = 0"
proof (cases "length bits mod 8 = 0")
  case False
  then have "(length bits + (8 - length bits mod 8)) mod 8 = 0"
    by presburger
  then show ?thesis
    using False by (simp add: pad_ones_eq)
qed (simp add: pad_ones_eq)

lemma length_pop_bits [simp]: "length (pop_bits bits) mod 8 = 0"
proof (induction bits rule: pop_bits.induct)
  case (1 bits)
  then show ?case
    by (cases "length bits mod 8 > 0") (simp_all add: pop_bits.simps [of bits])
qed

lemma length_pad_bits [simp]: "length (pad_bits pad bits) mod 8 = 0"
  by (simp add: pad_bits_def split: option.splits)

definition huffman_encode :: "bytes \<Rightarrow> bool list" where
  "huffman_encode data = concat (map (\<lambda>b. HUFFMAN_CODEWORDS ! unat b) data)"

lemma huffman_encode_Nil [simp]: "huffman_encode [] = []"
  by (simp add: huffman_encode_def)

lemma huffman_encode_Cons [simp]:
  "huffman_encode (b # data) = HUFFMAN_CODEWORDS ! unat b @ huffman_encode data"
  by (simp add: huffman_encode_def)

lemma huffman_encode_append: "huffman_encode (xs @ ys) = huffman_encode xs @ huffman_encode ys"
  by (simp add: huffman_encode_def)

text \<open>The range checks of \<open>to_bytes\<close> never fire on bytes.\<close>

lemma string_bits_eq:
  "string_bits is_comp data =
     Inr (if is_comp then huffman_encode data else concat (map byte_bits data))"
proof (induction data)
  case (Cons b data)
  then show ?case
    using uint_byte_bounds [of b] by (simp add: Let_def EOS_def)
qed simp

lemma huff_bits_append: "huff_bits st (us @ vs) = bindE (huff_bits st us) (\<lambda>st. huff_bits st vs)"
  by (induction us arbitrary: st) (simp_all add: bindE_assoc cong: bindE_cong)

lemma huff_bytes_eq: "huff_bytes st raw = huff_bits st (concat (map byte_bits raw))"
  by (induction raw arbitrary: st) (simp_all add: huff_bits_append cong: bindE_cong)

section \<open>The decoding loop follows the tree\<close>

text \<open>A walk that stays among the inner nodes only moves; one that ends at a symbol emits it.\<close>

lemma huff_bits_walk_node:
  "walk ws (hs_path st) = Inr t \<Longrightarrow> is_list_node t \<Longrightarrow>
     huff_bits st ws = Inr (st\<lparr>hs_path := t, hs_codeword := hs_codeword st @ ws\<rparr>)"
proof (induction ws arbitrary: st)
  case (Cons b ws)
  then obtain c where c: "child b (hs_path st) = Inr c" and w: "walk ws c = Inr t"
    by (auto simp: bindE_eq_Inr)
  have "is_list_node c"
    using w Cons.prems(2) by (cases c) (auto simp: walk_Sym walk_HNone)
  then have "huff_bit st b = Inr (st\<lparr>hs_path := c, hs_codeword := hs_codeword st @ [b]\<rparr>)"
    using c by (cases c) (simp_all add: huff_bit_def Let_def)
  with Cons w show ?case by simp
qed simp

lemma huff_bits_walk_symbol:
  "walk ws (hs_path st) = Inr (HSym s) \<Longrightarrow> ws \<noteq> [] \<Longrightarrow>
     huff_bits st ws =
       (if s = EOS then Inl HPACKError
        else Inr \<lparr>hs_result = hs_result st @ [s], hs_path = huffman_root, hs_codeword = []\<rparr>)"
proof (induction ws arbitrary: st)
  case (Cons b ws)
  then obtain c where c: "child b (hs_path st) = Inr c" and w: "walk ws c = Inr (HSym s)"
    by (auto simp: bindE_eq_Inr)
  show ?case
  proof (cases "ws = []")
    case True
    with c w show ?thesis by (simp add: huff_bit_def Let_def)
  next
    case False
    then have "is_list_node c"
      using w by (cases c) (auto simp: walk_Sym walk_HNone)
    then have "huff_bit st b = Inr (st\<lparr>hs_path := c, hs_codeword := hs_codeword st @ [b]\<rparr>)"
      using c by (cases c) (simp_all add: huff_bit_def Let_def)
    with Cons w False show ?thesis by simp
  qed
qed simp

lemma huff_bits_code:
  "i < 257 \<Longrightarrow> hs_path st = huffman_root \<Longrightarrow>
     huff_bits st (HUFFMAN_CODEWORDS ! i) =
       (if int i = EOS then Inl HPACKError
        else Inr \<lparr>hs_result = hs_result st @ [int i], hs_path = huffman_root, hs_codeword = []\<rparr>)"
  using hc.walk_code [of i] hc.code_nonempty [of i] by (intro huff_bits_walk_symbol) simp_all

lemma huff_bits_encode:
  "huff_bits \<lparr>hs_result = r, hs_path = huffman_root, hs_codeword = []\<rparr> (huffman_encode data) =
     Inr \<lparr>hs_result = r @ map uint data, hs_path = huffman_root, hs_codeword = []\<rparr>"
proof (induction data arbitrary: r)
  case (Cons b data)
  have "int (unat b) \<noteq> EOS" and "unat b < 257"
    using uint_byte_bounds [of b] unat_byte_less [of b]
    by (simp_all add: EOS_def del: unat_byte_less)
  with Cons show ?case
    by (simp add: huff_bits_append huff_bits_code)
qed simp

text \<open>What the loop keeps true: the bits read are the codes of what is decoded, then the bits
  since the last symbol, and the walk stands where those lead.\<close>

definition huff_inv :: "bool list \<Rightarrow> huff_state \<Rightarrow> bool" where
  "huff_inv bits st \<longleftrightarrow>
     is_list_node (hs_path st) \<and> walk (hs_codeword st) huffman_root = Inr (hs_path st) \<and>
     (\<exists>data. hs_result st = map uint data \<and> bits = huffman_encode data @ hs_codeword st)"

lemma huff_inv_init: "huff_inv [] huff_init"
  using hc.root_list by (auto simp: huff_inv_def huff_init_def)

text \<open>A tree without missing children has none below an inner node either.\<close>

lemma complete_walk: "complete_tree t \<Longrightarrow> walk ws t = Inr c \<Longrightarrow> complete_tree c"
proof (induction ws arbitrary: t)
  case (Cons b ws)
  then show ?case by (cases t) (auto split: if_splits)
qed simp

text \<open>A bit that completes a codeword.\<close>

lemma huff_symbol_step:
  assumes inv: "huff_inv bits st" and c: "child b (hs_path st) = Inr (HSym s)"
    and w: "walk (hs_codeword st @ [b]) huffman_root = Inr (HSym s)"
  shows "(\<exists>st'. huff_bit st b = Inr st' \<and> huff_inv (bits @ [b]) st') \<or> huff_bit st b = Inl HPACKError"
proof (cases "s = EOS")
  case True
  then show ?thesis using c by (simp add: huff_bit_def Let_def)
next
  case False
  obtain data where data: "hs_result st = map uint data" "bits = huffman_encode data @ hs_codeword st"
    using inv by (auto simp: huff_inv_def)
  obtain i where i: "i < 257" "hs_codeword st @ [b] = HUFFMAN_CODEWORDS ! i" "s = int i"
    using hc.walk_symbol [of "hs_codeword st @ [b]" s] w by auto
  define d :: byte where "d = word_of_int s"
  have "0 \<le> s" and "s < 256"
    using False i by (auto simp: EOS_def)
  then have d: "uint d = s"
    by (simp add: d_def uint_word_of_int)
  then have "unat d = i"
    using i(3) int_unat_byte [of d] by linarith
  have "huffman_encode (data @ [d]) = bits @ [b]"
    using data i(2) \<open>unat d = i\<close> by (simp add: huffman_encode_append)
  moreover have "map uint (data @ [d]) = hs_result st @ [s]"
    using data d by simp
  ultimately have "huff_inv (bits @ [b]) \<lparr>hs_result = hs_result st @ [s], hs_path = huffman_root, hs_codeword = []\<rparr>"
    unfolding huff_inv_def using hc.root_list by (auto intro!: exI [of _ "data @ [d]"])
  then show ?thesis
    using c False by (auto simp: huff_bit_def Let_def)
qed

lemma huff_bit_step:
  assumes inv: "huff_inv bits st"
  shows "(\<exists>st'. huff_bit st b = Inr st' \<and> huff_inv (bits @ [b]) st') \<or> huff_bit st b = Inl HPACKError"
proof -
  from inv have node: "is_list_node (hs_path st)"
    and w: "walk (hs_codeword st) huffman_root = Inr (hs_path st)"
    by (simp_all add: huff_inv_def)
  obtain data where data: "hs_result st = map uint data" "bits = huffman_encode data @ hs_codeword st"
    using inv by (auto simp: huff_inv_def)
  have "complete_tree (hs_path st)"
    using hc.root_complete w by (rule complete_walk)
  then obtain c where c: "child b (hs_path st) = Inr c" and "complete_tree c"
    using node complete_child by blast
  have w': "walk (hs_codeword st @ [b]) huffman_root = Inr c"
    using w c by (simp add: walk_append)
  show ?thesis
  proof (cases c)
    case HNone
    with \<open>complete_tree c\<close> show ?thesis by simp
  next
    case (HNode l r)
    then have "huff_bit st b = Inr (st\<lparr>hs_path := c, hs_codeword := hs_codeword st @ [b]\<rparr>)"
      using c by (simp add: huff_bit_def Let_def)
    moreover have "huff_inv (bits @ [b]) (st\<lparr>hs_path := c, hs_codeword := hs_codeword st @ [b]\<rparr>)"
      using HNode w' data by (auto simp: huff_inv_def)
    ultimately show ?thesis by blast
  next
    case (HSym s)
    with c w' show ?thesis using huff_symbol_step [OF inv] by blast
  qed
qed

lemma huff_bits_inv:
  "huff_inv bits st \<Longrightarrow>
     (\<exists>st'. huff_bits st bs = Inr st' \<and> huff_inv (bits @ bs) st') \<or> huff_bits st bs = Inl HPACKError"
proof (induction bs arbitrary: bits st)
  case (Cons b bs)
  from huff_bit_step [OF Cons.prems, of b] show ?case
  proof
    assume "\<exists>st'. huff_bit st b = Inr st' \<and> huff_inv (bits @ [b]) st'"
    then obtain st' where "huff_bit st b = Inr st'" and "huff_inv (bits @ [b]) st'" by blast
    with Cons.IH [of "bits @ [b]" st'] show ?thesis by simp
  qed simp
qed simp

section \<open>What the parser does with a printed length and any content\<close>

text \<open>The end of \<open>HPACKString.parse\<close>: the padding check, and the decoded string.\<close>

definition huff_finish :: "huff_state \<Rightarrow> hpack_string result" where
  "huff_finish st =
     (if \<not> (\<forall>b \<in> set (hs_codeword st). b) \<and> length (hs_codeword st) \<le> 7 then Inl HPACKError
      else bindE (bytes_of_ints (hs_result st)) (\<lambda>result.
        Inr \<lparr>str_data = result, compressed = True,
             str_length = Some (HPACKInt7 (int (length result)) 0), padding = None\<rparr>))"

definition decode_raw :: "bool \<Rightarrow> bytes \<Rightarrow> hpack_string result" where
  "decode_raw is_comp raw =
     (if is_comp then bindE (huff_bytes huff_init raw) huff_finish else Inr (HPACKString raw))"

lemma int7_flag:
  assumes "wf_int i" and "prefix_len i = 7" and "HPACKInt_to_bytes i q = Inr bs"
  obtains b bs' where "bs = b # bs'" and "(uint b AND 0x80 \<noteq> 0) = (q = 1)" and "q = 0 \<or> q = 1"
proof -
  from HPACKInt_to_bytes_Inr [OF assms(1,3)] assms(2) have q: "q = 0 \<or> q = 1"
    by auto
  from HPACKInt_to_bytes_Cons [OF assms(1,3)] assms(2)
  obtain b bs' where "bs = b # bs'" and "uint b div 128 = q"
    by auto
  with q that show thesis
    by (auto simp: byte_masks(1) uint_byte_bounds)
qed

lemma HPACKString_parse_printed_length:
  assumes "HPACKInt_to_bytes (HPACKInt7 n p) q = Inr bs" and "0 \<le> n" and "n \<le> sys_maxsize"
  shows "HPACKString_parse (bs @ data) =
    (if int (length data) < n then Inl HPACKError
     else bindE (decode_raw (q = 1) (take (nat n) data)) (\<lambda>s. Inr (s, drop (nat n) data)))"
proof -
  have wf: "wf_int (HPACKInt7 n p)" and pl: "prefix_len (HPACKInt7 n p) = 7"
    using assms(2) by (simp_all add: wf_int_def HPACKInt7_def)
  obtain b bs' where bs: "bs = b # bs'" and flag: "(uint b AND 0x80 \<noteq> 0) = (q = 1)"
    using int7_flag [OF wf pl assms(1)] by blast
  have len: "HPACKInt7_parse (b # bs' @ data) = Inr (HPACKInt7 n 0, data)"
    using HPACKInt_parse_printed(4) [OF wf assms(1) pl, of data] by (simp add: bs HPACKInt7_def)
  have islice: "islice_bytes n data = Inr (take (nat n) data, drop (nat n) data)"
    using assms by (simp add: islice_bytes_def)
  have short: "int (length (take (nat n) data)) \<noteq> n \<longleftrightarrow> int (length data) < n"
    using assms(2) by auto
  show ?thesis
  proof (cases "q = 1")
    case True
    with flag len islice short show ?thesis
      by (simp add: HPACKString_parse_def bs Let_def HPACKInt7_def decode_raw_def huff_finish_def
          bindE_assoc if_distrib [of "\<lambda>m. bindE m _"] cong: bindE_cong if_cong)
  next
    case False
    with flag len islice short show ?thesis
      by (simp add: HPACKString_parse_def bs Let_def HPACKInt7_def decode_raw_def)
  qed
qed

section \<open>The round trip\<close>

definition canon_string :: "hpack_string \<Rightarrow> hpack_string" where
  "canon_string s =
     (if compressed s
      then \<lparr>str_data = str_data s, compressed = True,
            str_length = Some (HPACKInt7 (int (length (str_data s))) 0), padding = None\<rparr>
      else HPACKString (str_data s))"

text \<open>Strings the printer is meant for: the length and the padding are left to it, and the
  result fits \<open>sys.maxsize\<close> (a codeword has at most 30 bits, so four bytes are enough for one
  of the data).\<close>

definition wf_string :: "hpack_string \<Rightarrow> bool" where
  "wf_string s \<longleftrightarrow>
     str_length s = None \<and> padding s = None \<and> 4 * int (length (str_data s)) \<le> sys_maxsize"

text \<open>The padding of the encoder: fewer than eight bits, all set, so a prefix of \<open>EOS\<close>.\<close>

lemma huff_bits_ones:
  assumes "k < 30" and "hs_path st = huffman_root" and "hs_codeword st = []"
  shows "\<exists>t. huff_bits st (replicate k True) =
    Inr (st\<lparr>hs_path := t, hs_codeword := replicate k True\<rparr>)"
proof -
  have "HUFFMAN_CODEWORDS ! 256 = replicate k True @ replicate (30 - k) True"
    using assms(1) by (simp add: EOS_codeword replicate_add [symmetric])
  then obtain t where "walk (replicate k True) huffman_root = Inr t" and "is_list_node t"
    using hc.walk_proper_prefix [of 256 "replicate k True" "replicate (30 - k) True"] assms(1)
    by auto
  then have "huff_bits st (replicate k True) =
      Inr (st\<lparr>hs_path := t, hs_codeword := hs_codeword st @ replicate k True\<rparr>)"
    using assms(2) by (intro huff_bits_walk_node) simp_all
  with assms(3) show ?thesis by auto
qed

lemma decode_encoded_ones:
  assumes "concat (map byte_bits raw) = huffman_encode data @ replicate k True" and "k < 30"
  shows "decode_raw True raw =
    Inr \<lparr>str_data = data, compressed = True,
         str_length = Some (HPACKInt7 (int (length data)) 0), padding = None\<rparr>"
proof -
  obtain t where "huff_bits \<lparr>hs_result = map uint data, hs_path = huffman_root, hs_codeword = []\<rparr>
      (replicate k True) =
      Inr \<lparr>hs_result = map uint data, hs_path = t, hs_codeword = replicate k True\<rparr>"
    using huff_bits_ones [OF assms(2),
        of "\<lparr>hs_result = map uint data, hs_path = huffman_root, hs_codeword = []\<rparr>"] by auto
  then show ?thesis
    using huff_bits_encode [of "[]" data]
    by (simp add: decode_raw_def huff_bytes_eq assms(1) huff_bits_append huff_init_def huff_finish_def)
qed

lemma codeword_length: "i < 257 \<Longrightarrow> length (HUFFMAN_CODEWORDS ! i) \<le> 30"
proof -
  assume "i < 257"
  moreover have "list_all (\<lambda>cw. length cw \<le> 30) HUFFMAN_CODEWORDS"
    by (simp add: HUFFMAN_CODEWORDS_def huffman_strings_low_def huffman_strings_high_def)
  ultimately show ?thesis
    by (simp add: list_all_length)
qed

lemma length_huffman_encode: "length (huffman_encode data) \<le> 30 * length data"
proof (induction data)
  case (Cons b data)
  have "unat b < 257" using unat_byte_less [of b] by linarith
  then have "length (HUFFMAN_CODEWORDS ! unat b) \<le> 30" by (rule codeword_length)
  with Cons show ?case by simp
qed simp

text \<open>A raw string is packed into itself.\<close>

lemma pack_raw_string:
  assumes "pack_bits (concat (map byte_bits s)) = Inr raw" and "concat (map byte_bits raw) = concat (map byte_bits s)"
  shows "raw = s"
proof (rule nth_equalityI)
  show len: "length raw = length s"
    using arg_cong [OF assms(2), of length] by simp
  fix i assume i: "i < length raw"
  have "byte_bits (raw ! i) = byte_bits (s ! i)"
  proof (rule nth_equalityI)
    fix j assume "j < length (byte_bits (raw ! i))"
    then show "byte_bits (raw ! i) ! j = byte_bits (s ! i) ! j"
      using bytes_of_bits [of i raw j] bytes_of_bits [of i s j] assms(2) i len by simp
  qed simp
  then show "raw ! i = s ! i" by (simp add: byte_bits_inj)
qed

text \<open>A Huffman coded string takes at most four bytes for each byte.\<close>

lemma packed_huffman_length:
  assumes "concat (map byte_bits raw) = huffman_encode s @ replicate ((8 - length (huffman_encode s) mod 8) mod 8) True"
  shows "length raw \<le> 4 * length s"
proof -
  let ?k = "(8 - length (huffman_encode s) mod 8) mod 8"
  have "8 * length raw = length (huffman_encode s) + ?k"
    using arg_cong [OF assms, of length] by simp
  moreover have "?k < 8" by simp
  moreover have "length (huffman_encode s) \<le> 30 * length s"
    by (rule length_huffman_encode)
  moreover have "?k = 0" if "s = []"
    using that by simp
  ultimately show ?thesis
    by (cases "s = []") (simp, cases "length s", simp_all)
qed

text \<open>The bytes the encoder packs, for a string that is meant to be printed.\<close>

lemma string_content:
  assumes "wf_string s"
  obtains raw k where
    "pack_bits (pad_bits (padding s) (if compressed s then huffman_encode (str_data s)
       else concat (map byte_bits (str_data s)))) = Inr raw"
    and "decode_raw (compressed s) raw = Inr (canon_string s)"
    and "int (length raw) \<le> sys_maxsize"
proof (cases "compressed s")
  case False
  let ?bits = "concat (map byte_bits (str_data s))"
  have "pad_ones ?bits = ?bits"
    by (simp add: pad_ones_eq)
  then obtain raw where raw: "pack_bits (pad_bits (padding s) ?bits) = Inr raw" "pack_bits ?bits = Inr raw"
    and bits: "concat (map byte_bits raw) = ?bits"
    using pack_bits_ok [of ?bits] assms by (auto simp: wf_string_def pad_bits_def)
  have "raw = str_data s" by (rule pack_raw_string [OF raw(2) bits])
  then show ?thesis
    using False raw assms that [of raw]
    by (simp add: decode_raw_def canon_string_def wf_string_def)
next
  case True
  let ?k = "(8 - length (huffman_encode (str_data s)) mod 8) mod 8"
  let ?bits = "huffman_encode (str_data s) @ replicate ?k True"
  have "length ?bits mod 8 = 0"
    using length_pad_ones [of "huffman_encode (str_data s)"] by (simp add: pad_ones_eq)
  from pack_bits_ok [OF this] obtain raw
    where raw: "pack_bits ?bits = Inr raw" and bits: "concat (map byte_bits raw) = ?bits"
    by auto
  have "?k < 30"
    using mod_less_divisor [of 8 "8 - length (huffman_encode (str_data s)) mod 8"] by linarith
  then have "decode_raw True raw = Inr (canon_string s)"
    using decode_encoded_ones [OF bits] True by (simp add: canon_string_def)
  moreover have "int (length raw) \<le> sys_maxsize"
    using packed_huffman_length [OF bits] assms by (simp add: wf_string_def)
  ultimately show ?thesis
    using True raw assms that [of raw] by (simp add: wf_string_def pad_bits_def pad_ones_eq)
qed

lemma HPACKString_to_bytes_canon:
  assumes "wf_string s"
  obtains bs where "HPACKString_to_bytes s = Inr bs"
    and "\<And>rest. HPACKString_parse (bs @ rest) = Inr (canon_string s, rest)"
proof -
  obtain raw where raw: "pack_bits (pad_bits (padding s) (if compressed s then huffman_encode (str_data s)
       else concat (map byte_bits (str_data s)))) = Inr raw"
    and dec: "decode_raw (compressed s) raw = Inr (canon_string s)"
    and len: "int (length raw) \<le> sys_maxsize"
    using string_content [OF assms] by blast
  let ?i = "HPACKInt7 (int (length raw)) 0"
  have "wf_int ?i" by (simp add: wf_int_def HPACKInt7_def)
  then obtain p where p: "HPACKInt_to_bytes ?i (of_bool (compressed s)) = Inr p"
    using HPACKInt_to_bytes_ok [of ?i "of_bool (compressed s)"]
    by (cases "compressed s") (auto simp: HPACKInt7_def)
  have "HPACKString_to_bytes s = Inr (p @ raw)"
    using raw p assms by (simp add: HPACKString_to_bytes_def string_bits_eq wf_string_def)
  moreover have "HPACKString_parse ((p @ raw) @ rest) = Inr (canon_string s, rest)" for rest
    using HPACKString_parse_printed_length [OF p, of "raw @ rest"] len dec by simp
  ultimately show thesis using that by blast
qed

interpretation hs: codec HPACKString_to_bytes HPACKString_parse canon_string wf_string
proof
  fix x bs rest
  assume "wf_string x" and "HPACKString_to_bytes x = Inr bs"
  then show "HPACKString_parse (bs @ rest) = Inr (canon_string x, rest)"
    by (metis HPACKString_to_bytes_canon sum.inject(2))
qed

lemma HPACKString_parse_Cons:
  "HPACKString_parse (b # data) =
    bindE (HPACKInt7_parse (b # data)) (\<lambda>(len, data).
      bindE (islice_bytes (int_val len) data) (\<lambda>(raw_result, data).
        if int (length raw_result) \<noteq> int_val len then Inl HPACKError
        else bindE (decode_raw (uint b AND 0x80 \<noteq> 0) raw_result) (\<lambda>s. Inr (s, data))))"
proof (cases "uint b AND 0x80 \<noteq> 0")
  case True
  then show ?thesis
    by (simp add: HPACKString_parse_def Let_def decode_raw_def huff_finish_def bindE_assoc
        if_distrib [of "\<lambda>m. bindE m _"] cong: bindE_cong if_cong)
next
  case False
  then show ?thesis
    by (simp add: HPACKString_parse_def Let_def decode_raw_def cong: bindE_cong if_cong)
qed

lemma HPACKString_parse_shorter [shorter_dests]:
  assumes "HPACKString_parse data = Inr (s, rest)"
  shows "length rest < length data"
proof (cases data)
  case Nil
  with assms show ?thesis by (simp add: HPACKString_parse_def)
next
  case (Cons b bs)
  with assms obtain i d where "HPACKInt7_parse data = Inr (i, d)" and "length rest \<le> length d"
    by (auto simp: HPACKString_parse_Cons bindE_eq_Inr islice_bytes_Inr split: if_splits)
  then show ?thesis
    using HPACKInt_parse_shorter(4) by fastforce
qed

lemma decode_raw_outcome:
  "(\<exists>s. decode_raw True raw = Inr s \<and> compressed s \<and>
      (\<exists>pad. concat (map byte_bits raw) = huffman_encode (str_data s) @ pad \<and>
        (length pad \<le> 7 \<longrightarrow> (\<forall>b \<in> set pad. b)))) \<or>
   decode_raw True raw = Inl HPACKError"
proof -
  from huff_bits_inv [OF huff_inv_init, of "concat (map byte_bits raw)"] show ?thesis
  proof
    assume "\<exists>st'. huff_bits huff_init (concat (map byte_bits raw)) = Inr st' \<and>
      huff_inv ([] @ concat (map byte_bits raw)) st'"
    then obtain st data where st: "huff_bits huff_init (concat (map byte_bits raw)) = Inr st"
      and data: "hs_result st = map uint data"
      "concat (map byte_bits raw) = huffman_encode data @ hs_codeword st"
      by (auto simp: huff_inv_def)
    then show ?thesis
      by (auto simp: decode_raw_def huff_bytes_eq huff_finish_def intro: exI [of _ "hs_codeword st"])
  qed (simp add: decode_raw_def huff_bytes_eq)
qed

lemma HPACKString_parse_errors:
  assumes "HPACKString_parse data = Inl e"
  shows "e = HPACKError \<or> e = ValueError"
proof (cases data)
  case Nil
  with assms show ?thesis by (simp add: HPACKString_parse_def)
next
  case (Cons b bs)
  have int7: "e' = HPACKError" if "HPACKInt7_parse d = Inl e'" for d e'
    using that by (auto simp: HPACKInt7_parse_def bindE_eq_Inl dest: parse_hpack_int_errors)
  have dec: "e' = HPACKError" if "decode_raw c raw = Inl e'" for c raw e'
    using that decode_raw_outcome [of raw] by (cases c) (auto simp: decode_raw_def)
  from assms Cons show ?thesis
    by (auto simp: HPACKString_parse_Cons bindE_eq_Inl islice_bytes_def split: if_splits
        dest: int7 dec)
qed

section \<open>Properties\<close>

text \<open>C8: the Huffman table of the module is a prefix code and \<open>_build_huffman_tree\<close> builds its tree:
  no assertion of the construction fails, every codeword leads from the root to its own symbol,
  every symbol stands at the end of its codeword only, and no list of the tree keeps a \<open>None\<close>.\<close>

theorem huffman_tree_is_the_table:
  "\<exists>t. build_huffman_tree = Inr t \<and> complete_tree t \<and>
     (\<forall>p s. walk p t = Inr (HSym s) \<longleftrightarrow> (\<exists>i < 257. s = int i \<and> p = HUFFMAN_CODEWORDS ! i))"
proof -
  obtain t where t: "build_huffman_tree = Inr t"
    using good_huffman_tree by (auto simp: good_tree_def split: sum.splits)
  have root: "huffman_root = t"
    unfolding huffman_root_def t by simp
  have "walk p t = Inr (HSym s) \<longleftrightarrow> (\<exists>i < 257. s = int i \<and> p = HUFFMAN_CODEWORDS ! i)" for p s
    using hc.walk_code hc.walk_symbol [of p s] by (auto simp: root)
  moreover have "complete_tree t"
    using hc.root_complete by (simp add: root)
  ultimately show ?thesis using t by blast
qed

text \<open>A string literal, raw or Huffman coded, that leaves its length and padding to
  \<open>HPACKString.to_bytes\<close> is serialised without an error, and \<open>HPACKString.parse\<close> on those bytes,
  followed by anything, returns its data and consumes exactly those bytes.\<close>

theorem hpack_string_print_parse:
  assumes "wf_string s"
  shows "\<exists>bs. HPACKString_to_bytes s = Inr bs \<and>
    (\<forall>rest. HPACKString_parse (bs @ rest) = Inr (canon_string s, rest))"
  using HPACKString_to_bytes_canon [OF assms] by metis

theorem hpack_string_print_parse_witness:
  "\<exists>bs. HPACKString_to_bytes
      \<lparr>str_data = ascii ''www.example.com'', compressed = True, str_length = None, padding = None\<rparr> = Inr bs \<and>
    (\<forall>rest. HPACKString_parse (bs @ rest) =
       Inr (canon_string
         \<lparr>str_data = ascii ''www.example.com'', compressed = True, str_length = None, padding = None\<rparr>, rest))"
  using hpack_string_print_parse
    [of "\<lparr>str_data = ascii ''www.example.com'', compressed = True, str_length = None, padding = None\<rparr>"]
  by (simp add: wf_string_def sys_maxsize_def)

text \<open>On any bytes, \<open>HPACKString.parse\<close> ends with a string, an \<open>HPACKError\<close>, or the \<open>ValueError\<close> of a
  length above \<open>sys.maxsize\<close>: the assertion inside the decoding loop and the range check of the
  final \<open>bytes(...)\<close> never fail.\<close>

theorem hpack_string_parse_errors:
  "HPACKString_parse data = Inl e \<Longrightarrow> e = HPACKError \<or> e = ValueError"
  by (rule HPACKString_parse_errors)

theorem hpack_string_parse_errors_witness:
  "HPACKString_parse [0x05, 0x61] = Inl HPACKError \<and> (HPACKError = HPACKError \<or> HPACKError = ValueError)"
proof -
  have "HPACKString_parse [0x05, 0x61] = Inl HPACKError"
    by (simp add: HPACKString_parse_def Let_def HPACKInt7_parse_def parse_hpack_int_def HPACKInt7_def
        islice_bytes_def sys_maxsize_def)
  then show ?thesis
    using hpack_string_parse_errors [of "[0x05, 0x61]" HPACKError] by simp
qed

text \<open>What the decoder accepts is the code of what it returns: the bits of the content are the
  codewords of the decoded bytes, one after the other, and then the padding, whose bits are all
  set when there are at most seven of them.\<close>

theorem huffman_decode_sound:
  assumes "HPACKInt_to_bytes (HPACKInt7 (int (length raw)) 0) 1 = Inr bs"
    and "int (length raw) \<le> sys_maxsize"
    and "HPACKString_parse (bs @ raw @ rest) = Inr (s, rest')"
  shows "rest' = rest \<and> (\<exists>pad. concat (map byte_bits raw) = huffman_encode (str_data s) @ pad \<and>
    (length pad \<le> 7 \<longrightarrow> (\<forall>b \<in> set pad. b)))"
  using HPACKString_parse_printed_length [OF assms(1), of "raw @ rest"] assms(2,3)
    decode_raw_outcome [of raw]
  by (auto simp: bindE_eq_Inr)

theorem huffman_decode_sound_witness:
  "\<exists>pad. concat (map byte_bits [0x1f :: byte]) = huffman_encode (ascii ''a'') @ pad \<and>
    (length pad \<le> 7 \<longrightarrow> (\<forall>b \<in> set pad. b))"
proof -
  have a: "HUFFMAN_CODEWORDS ! 97 = [False, False, False, True, True]"
    by (simp add: HUFFMAN_CODEWORDS_def huffman_strings_low_def huffman_strings_high_def nth_append)
  have byte: "byte_bits 0x1f = [False, False, False, True, True, True, True, True]"
    by code_simp
  have "ascii ''a'' = [0x61]"
    by code_simp
  with a have "huffman_encode (ascii ''a'') = [False, False, False, True, True]"
    by (simp add: huffman_encode_def)
  then have "concat (map byte_bits [0x1f :: byte]) = huffman_encode (ascii ''a'') @ replicate 3 True"
    using byte by (simp add: numeral_eq_Suc)
  from decode_encoded_ones [OF this] have "decode_raw True [0x1f] = Inr \<lparr>str_data = ascii ''a'', compressed = True,
         str_length = Some (HPACKInt7 1 0), padding = None\<rparr>"
    by simp
  moreover have len: "HPACKInt_to_bytes (HPACKInt7 (int (length [0x1f :: byte])) 0) 1 = Inr [0x81]"
    by (simp add: HPACKInt_to_bytes_def HPACKInt7_def bytes_of_ints_def)
  ultimately have "HPACKString_parse ([0x81] @ [0x1f] @ []) = Inr (\<lparr>str_data = ascii ''a'', compressed = True,
         str_length = Some (HPACKInt7 1 0), padding = None\<rparr>, [])"
    using HPACKString_parse_printed_length [OF len, of "[0x1f]"] by (simp add: sys_maxsize_def)
  from huffman_decode_sound [OF len _ this] show ?thesis
    by (simp add: sys_maxsize_def)
qed

text \<open>The padding check of \<open>HPACKString.parse\<close> holds only up to seven bits. RFC 7541 (section 5.2,
  quoted in the code) asks for an error when the padding is longer than seven bits or is not a
  prefix of \<open>EOS\<close>; the condition \<open>not all(...) and len(codeword) <= 7\<close> raises only when both
  the bits are wrong and there are at most seven, so any beginning of a codeword of eight bits or
  more, zeros included, is accepted as padding.\<close>

theorem huffman_padding_rule:
  assumes "i < 257" and "HUFFMAN_CODEWORDS ! i = pad @ after" and "after \<noteq> []"
    and "concat (map byte_bits raw) = huffman_encode d @ pad"
    and "HPACKInt_to_bytes (HPACKInt7 (int (length raw)) 0) 1 = Inr bs"
    and "int (length raw) \<le> sys_maxsize"
  shows "HPACKString_parse (bs @ raw @ rest) =
    (if length pad \<le> 7 \<and> False \<in> set pad then Inl HPACKError
     else Inr (\<lparr>str_data = d, compressed = True,
                str_length = Some (HPACKInt7 (int (length d)) 0), padding = None\<rparr>, rest))"
proof -
  let ?st = "\<lparr>hs_result = map uint d, hs_path = huffman_root, hs_codeword = []\<rparr>"
  obtain t where "walk pad huffman_root = Inr t" and "is_list_node t"
    using hc.walk_proper_prefix [of i pad after] assms(1-3) by auto
  then have "huff_bits ?st pad = Inr (?st\<lparr>hs_path := t, hs_codeword := pad\<rparr>)"
    using huff_bits_walk_node [of pad ?st t] by simp
  then have "decode_raw True raw =
    (if length pad \<le> 7 \<and> False \<in> set pad then Inl HPACKError
     else Inr \<lparr>str_data = d, compressed = True,
                str_length = Some (HPACKInt7 (int (length d)) 0), padding = None\<rparr>)"
    using huff_bits_encode [of "[]" d] assms(4)
    by (auto simp: decode_raw_def huff_bytes_eq huff_bits_append huff_init_def huff_finish_def)
  then show ?thesis
    using HPACKString_parse_printed_length [OF assms(5), of "raw @ rest"] assms(6) by simp
qed

theorem huffman_padding_rule_witness:
  "HPACKString_parse [0x82, 0xff, 0xfe, 0x61] =
    Inr (\<lparr>str_data = [], compressed = True, str_length = Some (HPACKInt7 0 0), padding = None\<rparr>, [0x61])"
proof -
  have code: "HUFFMAN_CODEWORDS ! 195 = (replicate 15 True @ [False]) @ [False, False, True]"
    by (simp add: HUFFMAN_CODEWORDS_def huffman_strings_low_def huffman_strings_high_def nth_append
        numeral_eq_Suc)
  have "byte_bits 0xff = replicate 8 True" and "byte_bits 0xfe = replicate 7 True @ [False]"
    by code_simp+
  then have raw: "concat (map byte_bits [0xff, 0xfe]) = huffman_encode [] @ replicate 15 True @ [False]"
    by (simp add: numeral_eq_Suc)
  have len: "HPACKInt_to_bytes (HPACKInt7 (int (length [0xff, 0xfe :: byte])) 0) 1 = Inr [0x82]"
    by (simp add: HPACKInt_to_bytes_def HPACKInt7_def bytes_of_ints_def)
  show ?thesis
    using huffman_padding_rule [OF _ code _ raw len, of "[0x61]"] by (simp add: sys_maxsize_def)
qed

text \<open>A compressed string that was parsed does not print again: \<open>HPACKString.parse\<close> stores the
  length of the decoded data in \<open>length\<close>, and \<open>to_bytes\<close> writes that number in front of the
  shorter encoded bytes. Whenever the encoding is shorter than the data, the printed string is
  refused by the parser.\<close>

theorem reprinted_compressed_string_is_refused:
  assumes "wf_string s" and "compressed s"
    and "(length (huffman_encode (str_data s)) + 7) div 8 < length (str_data s)"
  shows "\<exists>bs s' bs'. HPACKString_to_bytes s = Inr bs \<and> HPACKString_parse bs = Inr (s', []) \<and>
    HPACKString_to_bytes s' = Inr bs' \<and> HPACKString_parse bs' = Inl HPACKError"
proof -
  let ?s' = "canon_string s" and ?n = "int (length (str_data s))"
  obtain bs where bs: "HPACKString_to_bytes s = Inr bs"
    "\<And>rest. HPACKString_parse (bs @ rest) = Inr (?s', rest)"
    using HPACKString_to_bytes_canon [OF assms(1)] by blast
  let ?code = "huffman_encode (str_data s)"
  obtain raw where raw: "pack_bits (pad_ones ?code) = Inr raw"
    and bits: "concat (map byte_bits raw) = pad_ones ?code"
    using pack_bits_ok [OF length_pad_ones] by blast
  have "8 * length raw = length ?code + (8 - length ?code mod 8) mod 8"
    using arg_cong [OF bits, of length] by (simp add: pad_ones_eq)
  moreover have "(8 - length ?code mod 8) mod 8 < 8" by simp
  ultimately have "length raw < length (str_data s)"
    using assms(3) by linarith
  have n: "?n \<le> sys_maxsize" using assms(1) by (simp add: wf_string_def)
  have "wf_int (HPACKInt7 ?n 0)" by (simp add: wf_int_def HPACKInt7_def)
  then obtain p where p: "HPACKInt_to_bytes (HPACKInt7 ?n 0) 1 = Inr p"
    using HPACKInt_to_bytes_ok [of "HPACKInt7 ?n 0" 1] by (auto simp: HPACKInt7_def)
  have "HPACKString_to_bytes ?s' = Inr (p @ raw)"
    using raw p assms(2)
    by (simp add: HPACKString_to_bytes_def canon_string_def string_bits_eq pad_bits_def)
  moreover have "HPACKString_parse (p @ raw) = Inl HPACKError"
    using HPACKString_parse_printed_length [OF p, of raw] n \<open>length raw < length (str_data s)\<close> by simp
  moreover have "HPACKString_parse bs = Inr (?s', [])"
    using bs(2) [of "[]"] by simp
  ultimately show ?thesis using bs(1) by blast
qed

theorem reprinted_compressed_string_is_refused_witness:
  "\<exists>s bs s' bs'. str_data s = ascii ''aaa'' \<and> HPACKString_to_bytes s = Inr bs \<and>
    HPACKString_parse bs = Inr (s', []) \<and>
    HPACKString_to_bytes s' = Inr bs' \<and> HPACKString_parse bs' = Inl HPACKError"
proof -
  let ?s = "\<lparr>str_data = ascii ''aaa'', compressed = True, str_length = None, padding = None\<rparr>"
  have a: "HUFFMAN_CODEWORDS ! 97 = [False, False, False, True, True]"
    by (simp add: HUFFMAN_CODEWORDS_def huffman_strings_low_def huffman_strings_high_def nth_append)
  have "ascii ''aaa'' = [0x61, 0x61, 0x61]"
    by code_simp
  with a have "length (huffman_encode (ascii ''aaa'')) = 15"
    by (simp add: huffman_encode_def)
  then show ?thesis
    using reprinted_compressed_string_is_refused [of ?s]
    by (intro exI [of _ ?s]) (simp add: wf_string_def sys_maxsize_def)
qed

end
