(* ===== verification/HpackField.thy ===== *)
theory HpackField
  imports HpackString
begin

text \<open>
  \<open>tools/hpack.py\<close>, the header fields of a field block: the four classes of \<open>HPACKField\<close>,
  \<open>parse_hpack_field\<close> and \<open>parse_field_block\<close>. A field's first bits say what it is; the lemmas show
  that the parser reads them back for every field and that a block of printed fields parses to
  those fields, whatever their number.
\<close>

section \<open>The fields\<close>

text \<open>\<open>HPACKHeaderFieldProperty\<close> is a subclass of \<open>int\<close> with three named values.\<close>

definition CACHED :: int where
  "CACHED = 0"

definition UNCACHED :: int where
  "UNCACHED = 1"

definition VERBATIM :: int where
  "VERBATIM = 2"

definition HPACKHeaderFieldProperty_repr :: "int \<Rightarrow> string result" where
  "HPACKHeaderFieldProperty_repr p =
     (if p = CACHED then Inr ''HPACKHeaderFieldProperty.CACHED''
      else if p = UNCACHED then Inr ''HPACKHeaderFieldProperty.UNCACHED''
      else if p = VERBATIM then Inr ''HPACKHeaderFieldProperty.VERBATIM''
      else Inl HPACKError)"

datatype hpack_field =
    HPACKIndexedHeaderField hpack_int
  | HPACKPartialIndexedHeaderField hpack_int hpack_string int
  | HPACKLiteralHeaderField hpack_string hpack_string int
  | HPACKDynamicTableSizeUpdateField hpack_int

definition HPACKIndexedHeaderField_from_int :: "int \<Rightarrow> hpack_field" where
  "HPACKIndexedHeaderField_from_int i = HPACKIndexedHeaderField (HPACKInt7 i 0)"

definition HPACKDynamicTableSizeUpdateField_from_int :: "int \<Rightarrow> hpack_field" where
  "HPACKDynamicTableSizeUpdateField_from_int i = HPACKDynamicTableSizeUpdateField (HPACKInt5 i 0)"

text \<open>The constructor with its \<open>__post_init__\<close>: the class of the index must fit the property. A
  property without a \<open>case\<close> is let through.\<close>

definition make_partial :: "hpack_int \<Rightarrow> hpack_string \<Rightarrow> int \<Rightarrow> hpack_field result" where
  "make_partial index val prop =
     (if prop = CACHED then
        (if prefix_len index = 6 then Inr (HPACKPartialIndexedHeaderField index val prop)
         else Inl AssertionError)
      else if prop = UNCACHED \<or> prop = VERBATIM then
        (if prefix_len index = 4 then Inr (HPACKPartialIndexedHeaderField index val prop)
         else Inl AssertionError)
      else Inr (HPACKPartialIndexedHeaderField index val prop))"

fun hpack_field_to_bytes :: "hpack_field \<Rightarrow> bytes result" where
  "hpack_field_to_bytes (HPACKIndexedHeaderField index) = HPACKInt_to_bytes index 1"
| "hpack_field_to_bytes (HPACKPartialIndexedHeaderField index val prop) =
     (if prop = CACHED then
        bindE (HPACKInt_to_bytes index 1) (\<lambda>i. bindE (HPACKString_to_bytes val) (\<lambda>v. Inr (i @ v)))
      else if prop = UNCACHED then
        bindE (HPACKInt_to_bytes index 0) (\<lambda>i. bindE (HPACKString_to_bytes val) (\<lambda>v. Inr (i @ v)))
      else if prop = VERBATIM then
        bindE (HPACKInt_to_bytes index 1) (\<lambda>i. bindE (HPACKString_to_bytes val) (\<lambda>v. Inr (i @ v)))
      else Inl AssertionError)"
| "hpack_field_to_bytes (HPACKLiteralHeaderField key val prop) =
     (if prop = CACHED then
        bindE (HPACKString_to_bytes key) (\<lambda>k. bindE (HPACKString_to_bytes val) (\<lambda>v. Inr ([0x40] @ k @ v)))
      else if prop = UNCACHED then
        bindE (HPACKString_to_bytes key) (\<lambda>k. bindE (HPACKString_to_bytes val) (\<lambda>v. Inr ([0x00] @ k @ v)))
      else if prop = VERBATIM then
        bindE (HPACKString_to_bytes key) (\<lambda>k. bindE (HPACKString_to_bytes val) (\<lambda>v. Inr ([0x10] @ k @ v)))
      else Inl AssertionError)"
| "hpack_field_to_bytes (HPACKDynamicTableSizeUpdateField sz) = HPACKInt_to_bytes sz 1"

section \<open>Parsing\<close>

text \<open>What follows an index of zero or more: a literal, or a reference and a value.\<close>

definition parse_literal :: "int \<Rightarrow> hpack_field parser" where
  "parse_literal prop data =
     bindE (HPACKString_parse data) (\<lambda>(key, data).
     bindE (HPACKString_parse data) (\<lambda>(val, data).
       Inr (HPACKLiteralHeaderField key val prop, data)))"

definition parse_partial :: "hpack_int \<Rightarrow> int \<Rightarrow> hpack_field parser" where
  "parse_partial index prop data =
     bindE (HPACKString_parse data) (\<lambda>(val, data).
     bindE (make_partial index val prop) (\<lambda>f. Inr (f, data)))"

definition parse_hpack_field :: "hpack_field parser" where
  "parse_hpack_field data =
     bindE (next_byte data) (\<lambda>(prefix_byte, data).
       let data = prefix_byte # data; p = uint prefix_byte in
       if p AND 0x80 = 0x80 then
         bindE (HPACKInt7_parse data) (\<lambda>(i, data). Inr (HPACKIndexedHeaderField i, data))
       else if p AND 0xC0 = 0x40 then
         bindE (HPACKInt6_parse data) (\<lambda>(index6, data).
           if int_val index6 = 0 then parse_literal CACHED data
           else parse_partial index6 CACHED data)
       else if p AND 0xF0 = 0x00 then
         bindE (HPACKInt4_parse data) (\<lambda>(index4, data).
           if int_val index4 = 0 then parse_literal UNCACHED data
           else parse_partial index4 UNCACHED data)
       else if p AND 0xF0 = 0x10 then
         bindE (HPACKInt4_parse data) (\<lambda>(index4, data).
           if int_val index4 = 0 then parse_literal VERBATIM data
           else parse_partial index4 VERBATIM data)
       else if p AND 0xE0 = 0x20 then
         bindE (HPACKInt5_parse data) (\<lambda>(i, data). Inr (HPACKDynamicTableSizeUpdateField i, data))
       else Inl AssertionError)"

lemma parse_literal_shorter [shorter_dests]:
  "parse_literal prop data = Inr (f, rest) \<Longrightarrow> length rest < length data"
  by (auto simp: parse_literal_def bindE_eq_Inr dest!: HPACKString_parse_shorter)

lemma parse_partial_shorter [shorter_dests]:
  "parse_partial i prop data = Inr (f, rest) \<Longrightarrow> length rest < length data"
  by (auto simp: parse_partial_def bindE_eq_Inr dest!: HPACKString_parse_shorter)

lemma parse_hpack_field_shorter [shorter_dests]:
  "parse_hpack_field data = Inr (f, rest) \<Longrightarrow> length rest < length data"
  by (auto simp: parse_hpack_field_def bindE_eq_Inr next_byte_Inr Let_def split: if_splits
      dest!: HPACKInt_parse_shorter parse_literal_shorter parse_partial_shorter)

text \<open>The loop of \<open>parse_field_block\<close>.\<close>

function parse_field_block :: "bytes \<Rightarrow> hpack_field list result" where
  "parse_field_block it =
     (case parse_hpack_field it of
        Inl e \<Rightarrow> if e = StopIteration then Inr [] else Inl e
      | Inr (f, it') \<Rightarrow> bindE (parse_field_block it') (\<lambda>fs. Inr (f # fs)))"
  by pat_completeness auto
termination
  by (relation "measure length") (auto dest: parse_hpack_field_shorter)

declare parse_field_block.simps [simp del]

section \<open>Fields the parser can see\<close>

text \<open>What is left of a field on the wire.\<close>

fun canon_field :: "hpack_field \<Rightarrow> hpack_field" where
  "canon_field (HPACKIndexedHeaderField i) = HPACKIndexedHeaderField (i\<lparr>padding_amount := 0\<rparr>)"
| "canon_field (HPACKPartialIndexedHeaderField i v p) =
     HPACKPartialIndexedHeaderField (i\<lparr>padding_amount := 0\<rparr>) (canon_string v) p"
| "canon_field (HPACKLiteralHeaderField k v p) =
     HPACKLiteralHeaderField (canon_string k) (canon_string v) p"
| "canon_field (HPACKDynamicTableSizeUpdateField i) =
     HPACKDynamicTableSizeUpdateField (i\<lparr>padding_amount := 0\<rparr>)"

text \<open>The fields the constructors build and the printer is meant for. A reference has an index
  above zero: index zero is how a literal is told apart on the wire.\<close>

fun wf_field :: "hpack_field \<Rightarrow> bool" where
  "wf_field (HPACKIndexedHeaderField i) \<longleftrightarrow> printable_int i \<and> prefix_len i = 7"
| "wf_field (HPACKPartialIndexedHeaderField i v p) \<longleftrightarrow>
     printable_int i \<and> 0 < int_val i \<and> wf_string v \<and>
     (p = CACHED \<and> prefix_len i = 6 \<or> (p = UNCACHED \<or> p = VERBATIM) \<and> prefix_len i = 4)"
| "wf_field (HPACKLiteralHeaderField k v p) \<longleftrightarrow>
     wf_string k \<and> wf_string v \<and> (p = CACHED \<or> p = UNCACHED \<or> p = VERBATIM)"
| "wf_field (HPACKDynamicTableSizeUpdateField i) \<longleftrightarrow> printable_int i \<and> prefix_len i = 5"

lemmas prop_defs = CACHED_def UNCACHED_def VERBATIM_def

text \<open>The tests on the first byte, as divisions.\<close>

lemma prefix_tests:
  fixes b :: byte
  shows "uint b AND 0x80 = 0x80 \<longleftrightarrow> uint b div 128 = 1"
    and "uint b AND 0xC0 = 0x40 \<longleftrightarrow> uint b div 64 = 1"
    and "uint b AND 0xF0 = 0x00 \<longleftrightarrow> uint b div 16 = 0"
    and "uint b AND 0xF0 = 0x10 \<longleftrightarrow> uint b div 16 = 1"
    and "uint b AND 0xE0 = 0x20 \<longleftrightarrow> uint b div 32 = 1"
  using byte_masks [of "uint b"] uint_byte_bounds [of b] by auto

text \<open>Which parser a first byte chooses.\<close>

lemma parse_hpack_field_Cons:
  "parse_hpack_field (b # data) =
     (if uint b div 128 = 1 then
        bindE (HPACKInt7_parse (b # data)) (\<lambda>(i, data). Inr (HPACKIndexedHeaderField i, data))
      else if uint b div 64 = 1 then
        bindE (HPACKInt6_parse (b # data)) (\<lambda>(i, data).
          if int_val i = 0 then parse_literal CACHED data else parse_partial i CACHED data)
      else if uint b div 16 = 0 then
        bindE (HPACKInt4_parse (b # data)) (\<lambda>(i, data).
          if int_val i = 0 then parse_literal UNCACHED data else parse_partial i UNCACHED data)
      else if uint b div 16 = 1 then
        bindE (HPACKInt4_parse (b # data)) (\<lambda>(i, data).
          if int_val i = 0 then parse_literal VERBATIM data else parse_partial i VERBATIM data)
      else if uint b div 32 = 1 then
        bindE (HPACKInt5_parse (b # data)) (\<lambda>(i, data). Inr (HPACKDynamicTableSizeUpdateField i, data))
      else Inl AssertionError)"
  by (simp only: parse_hpack_field_def next_byte_Cons bindE_Inr prod.case Let_def prefix_tests)

text \<open>The five tests cover every byte, so the last \<open>assert False\<close> is never reached.\<close>

lemma prefix_covers:
  fixes b :: byte
  shows "uint b div 128 = 1 \<or> uint b div 64 = 1 \<or> uint b div 16 = 0 \<or> uint b div 16 = 1 \<or>
    uint b div 32 = 1"
  using uint_byte_bounds [of b] by linarith

lemma print_int_first_byte:
  assumes "wf_int i" and "HPACKInt_to_bytes i q = Inr bs"
  obtains b bs' where "bs = b # bs'" and "uint b div 2 ^ prefix_len i = q" and "uint b < 256"
  using HPACKInt_to_bytes_Cons [OF assms] uint_byte_bounds by metis

lemma printable_wf [simp]: "printable_int i \<Longrightarrow> wf_int i"
  by (simp add: printable_int_def)

lemma print_parse_indexed:
  assumes "wf_int i" and "prefix_len i = 7" and "HPACKInt_to_bytes i 1 = Inr bs"
  shows "parse_hpack_field (bs @ rest) = Inr (canon_field (HPACKIndexedHeaderField i), rest)"
proof -
  obtain b bs' where "bs = b # bs'" "uint b div 2 ^ prefix_len i = 1"
    using print_int_first_byte [OF assms(1,3)] .
  then show ?thesis
    using HPACKInt_parse_printed(4) [OF assms(1,3,2), of rest] assms(2) by (simp add: parse_hpack_field_Cons)
qed

lemma print_parse_size_update:
  assumes "wf_int i" and "prefix_len i = 5" and "HPACKInt_to_bytes i 1 = Inr bs"
  shows "parse_hpack_field (bs @ rest) = Inr (canon_field (HPACKDynamicTableSizeUpdateField i), rest)"
proof -
  obtain b bs' where b: "bs = b # bs'" "uint b div 2 ^ prefix_len i = 1" "uint b < 256"
    using print_int_first_byte [OF assms(1,3)] .
  then have d: "uint b div 32 = 1"
    using assms(2) by simp
  then have "uint b div 128 \<noteq> 1" and "uint b div 64 \<noteq> 1" and "uint b div 16 \<noteq> 0" and "uint b div 16 \<noteq> 1"
    by linarith+
  with b(1) d show ?thesis
    using HPACKInt_parse_printed(2) [OF assms(1,3,2), of rest] by (simp add: parse_hpack_field_Cons)
qed

lemma print_parse_literal:
  assumes "wf_field (HPACKLiteralHeaderField k v p)" and "hpack_field_to_bytes (HPACKLiteralHeaderField k v p) = Inr bs"
  shows "parse_hpack_field (bs @ rest) = Inr (canon_field (HPACKLiteralHeaderField k v p), rest)"
proof -
  from assms(1) have k: "wf_string k" and v: "wf_string v" and p: "p = CACHED \<or> p = UNCACHED \<or> p = VERBATIM"
    by simp_all
  from assms(2) obtain ks vs where ks: "HPACKString_to_bytes k = Inr ks" and vs: "HPACKString_to_bytes v = Inr vs"
    and bs: "bs = (if p = CACHED then 0x40 else if p = UNCACHED then 0x00 else 0x10) # ks @ vs"
    by (auto simp: bindE_eq_Inr split: if_splits)
  have lit: "parse_literal p (ks @ vs @ rest) = Inr (canon_field (HPACKLiteralHeaderField k v p), rest)"
    using hs.print_parse [OF k ks] hs.print_parse [OF v vs] by (simp add: parse_literal_def)
  have zero: "HPACKInt6_parse (0x40 # d) = Inr (HPACKInt6 0 0, d)"
    "HPACKInt4_parse (0x00 # d) = Inr (HPACKInt4 0 0, d)"
    "HPACKInt4_parse (0x10 # d) = Inr (HPACKInt4 0 0, d)" for d
    by (simp_all add: HPACKInt6_parse_def HPACKInt4_parse_def parse_hpack_int_def Let_def push_bit_of_1)
  from p bs lit zero show ?thesis
    by (auto simp: parse_hpack_field_Cons prop_defs HPACKInt6_def HPACKInt4_def)
qed

lemma print_parse_partial:
  assumes "wf_field (HPACKPartialIndexedHeaderField i v p)"
    and "hpack_field_to_bytes (HPACKPartialIndexedHeaderField i v p) = Inr bs"
  shows "parse_hpack_field (bs @ rest) = Inr (canon_field (HPACKPartialIndexedHeaderField i v p), rest)"
proof -
  from assms(1) have i: "wf_int i" "0 < int_val i" and v: "wf_string v"
    and p: "p = CACHED \<and> prefix_len i = 6 \<or> p = UNCACHED \<and> prefix_len i = 4 \<or> p = VERBATIM \<and> prefix_len i = 4"
    by auto
  let ?q = "if p = UNCACHED then 0 else 1"
  from assms(2) obtain iv vs where is_: "HPACKInt_to_bytes i ?q = Inr iv"
    and vs: "HPACKString_to_bytes v = Inr vs" and bs: "bs = iv @ vs"
    by (auto simp: bindE_eq_Inr prop_defs split: if_splits)
  obtain b iv' where b: "iv = b # iv'" "uint b div 2 ^ prefix_len i = ?q" "uint b < 256"
    using print_int_first_byte [OF i(1) is_] .
  have part: "parse_partial (i\<lparr>padding_amount := 0\<rparr>) p (vs @ rest) = Inr (canon_field (HPACKPartialIndexedHeaderField i v p), rest)"
    using hs.print_parse [OF v vs] p by (auto simp: parse_partial_def make_partial_def prop_defs)
  note four_bits = HPACKInt_parse_printed(1) [OF i(1) is_, of "vs @ rest"]
  note six_bits = HPACKInt_parse_printed(3) [OF i(1) is_, of "vs @ rest"]
  from p show ?thesis
  proof (elim disjE conjE)
    assume a: "p = CACHED" "prefix_len i = 6"
    then have "uint b div 64 = 1" and "uint b div 128 \<noteq> 1" using b by (simp_all add: prop_defs)
    with six_bits [OF a(2)] part i(2) b(1) bs a(1) show ?thesis by (simp add: parse_hpack_field_Cons)
  next
    assume a: "p = UNCACHED" "prefix_len i = 4"
    then have "uint b div 16 = 0" and "uint b div 128 \<noteq> 1" and "uint b div 64 \<noteq> 1" using b by (simp_all add: prop_defs)
    with four_bits [OF a(2)] part i(2) b(1) bs a(1) show ?thesis by (simp add: parse_hpack_field_Cons)
  next
    assume a: "p = VERBATIM" "prefix_len i = 4"
    then have "uint b div 16 = 1" and "uint b div 128 \<noteq> 1" and "uint b div 64 \<noteq> 1" using b by (simp_all add: prop_defs)
    with four_bits [OF a(2)] part i(2) b(1) bs a(1) show ?thesis by (simp add: parse_hpack_field_Cons)
  qed
qed

lemma print_parse_field:
  assumes "wf_field f" and "hpack_field_to_bytes f = Inr bs"
  shows "parse_hpack_field (bs @ rest) = Inr (canon_field f, rest)"
proof (cases f)
  case (HPACKIndexedHeaderField i)
  with assms show ?thesis using print_parse_indexed [of i bs rest] by simp
next
  case (HPACKDynamicTableSizeUpdateField i)
  with assms show ?thesis using print_parse_size_update [of i bs rest] by simp
next
  case (HPACKLiteralHeaderField k v p)
  with assms show ?thesis using print_parse_literal by blast
next
  case (HPACKPartialIndexedHeaderField i v p)
  with assms show ?thesis using print_parse_partial by blast
qed

text \<open>A field block is a stream of fields.\<close>

interpretation fields: stream_codec hpack_field_to_bytes parse_hpack_field canon_field wf_field
    parse_field_block
proof
  show "parse_hpack_field (bs @ rest) = Inr (canon_field x, rest)"
    if "wf_field x" and "hpack_field_to_bytes x = Inr bs" for x bs rest
    using that by (rule print_parse_field)
  show "parse_hpack_field [] = Inl StopIteration"
    by (simp add: parse_hpack_field_def)
  show "parse_field_block it = (case parse_hpack_field it of
      Inl e \<Rightarrow> if e = StopIteration then Inr [] else Inl e
    | Inr (x, it') \<Rightarrow> bindE (parse_field_block it') (\<lambda>xs. Inr (x # xs)))" for it
    by (rule parse_field_block.simps)
qed

interpretation field_parser: advancing parse_hpack_field
  by unfold_locales (rule parse_hpack_field_shorter)

lemma printable_prints:
  "printable_int i \<Longrightarrow> 0 \<le> q \<Longrightarrow> q < 2 ^ (8 - prefix_len i) \<Longrightarrow> \<exists>bs. HPACKInt_to_bytes i q = Inr bs"
  unfolding printable_int_def using HPACKInt_to_bytes_ok by blast

lemma wf_string_prints: "wf_string s \<Longrightarrow> \<exists>bs. HPACKString_to_bytes s = Inr bs"
  using HPACKString_to_bytes_canon by metis

lemma wf_field_prints:
  assumes "wf_field f"
  shows "\<exists>bs. hpack_field_to_bytes f = Inr bs"
proof (cases f)
  case (HPACKPartialIndexedHeaderField i v p)
  with assms have i: "printable_int i" and "wf_string v"
    and p: "p = CACHED \<and> prefix_len i = 6 \<or> (p = UNCACHED \<or> p = VERBATIM) \<and> prefix_len i = 4"
    by simp_all
  obtain vs where "HPACKString_to_bytes v = Inr vs"
    using wf_string_prints [OF \<open>wf_string v\<close>] by (elim exE)
  moreover from p have "(1::int) < 2 ^ (8 - prefix_len i)"
    by (elim disjE conjE) simp_all
  then have "\<exists>bs. HPACKInt_to_bytes i 0 = Inr bs" and "\<exists>bs. HPACKInt_to_bytes i 1 = Inr bs"
    using printable_prints [OF i, of 0] printable_prints [OF i, of 1] by simp_all
  then obtain b0 b1 where "HPACKInt_to_bytes i 0 = Inr b0" and "HPACKInt_to_bytes i 1 = Inr b1"
    by (elim exE)
  ultimately show ?thesis
    using HPACKPartialIndexedHeaderField p by (elim disjE conjE) (simp_all add: prop_defs)
next
  case (HPACKLiteralHeaderField k v p)
  with assms have "wf_string k" and "wf_string v"
    and p: "p = CACHED \<or> p = UNCACHED \<or> p = VERBATIM"
    by simp_all
  obtain ks vs where "HPACKString_to_bytes k = Inr ks" and "HPACKString_to_bytes v = Inr vs"
    using wf_string_prints [OF \<open>wf_string k\<close>] wf_string_prints [OF \<open>wf_string v\<close>] by (elim exE)
  then show ?thesis
    using HPACKLiteralHeaderField p by (elim disjE) (simp_all add: prop_defs)
next
  case (HPACKIndexedHeaderField i)
  with assms printable_prints [of i 1] show ?thesis by simp
next
  case (HPACKDynamicTableSizeUpdateField i)
  with assms printable_prints [of i 1] show ?thesis by simp
qed

lemma wf_fields_print: "\<forall>f \<in> set fs. wf_field f \<Longrightarrow> \<exists>bss. mapE hpack_field_to_bytes fs = Inr bss"
proof (induction fs)
  case (Cons f fs)
  then show ?case using wf_field_prints [of f] by auto
qed simp

lemma HPACKInt_parse_errors:
  "HPACKInt4_parse d = Inl e \<Longrightarrow> e = HPACKError"
  "HPACKInt5_parse d = Inl e \<Longrightarrow> e = HPACKError"
  "HPACKInt6_parse d = Inl e \<Longrightarrow> e = HPACKError"
  "HPACKInt7_parse d = Inl e \<Longrightarrow> e = HPACKError"
  by (auto simp: HPACKInt4_parse_def HPACKInt5_parse_def HPACKInt6_parse_def HPACKInt7_parse_def
      bindE_eq_Inl dest: parse_hpack_int_errors)

lemma HPACKInt_parse_prefix:
  "HPACKInt4_parse d = Inr (i, d') \<Longrightarrow> prefix_len i = 4"
  "HPACKInt6_parse d = Inr (i, d') \<Longrightarrow> prefix_len i = 6"
  by (auto simp: HPACKInt4_parse_def HPACKInt6_parse_def HPACKInt4_def HPACKInt6_def bindE_eq_Inr)

lemma parse_literal_errors: "parse_literal p d = Inl e \<Longrightarrow> e = HPACKError \<or> e = ValueError"
  by (auto simp: parse_literal_def bindE_eq_Inl dest: HPACKString_parse_errors)

lemma parse_partial_errors:
  "parse_partial i p d = Inl e \<Longrightarrow>
     p = CACHED \<and> prefix_len i = 6 \<or> (p = UNCACHED \<or> p = VERBATIM) \<and> prefix_len i = 4 \<Longrightarrow>
     e = HPACKError \<or> e = ValueError"
  by (auto simp: parse_partial_def make_partial_def bindE_eq_Inl prop_defs split: if_splits
      dest: HPACKString_parse_errors)

lemma parse_hpack_field_errors:
  "parse_hpack_field data = Inl e \<Longrightarrow>
     e = StopIteration \<and> data = [] \<or> e = HPACKError \<or> e = ValueError"
proof (cases data)
  case Nil
  assume "parse_hpack_field data = Inl e"
  with Nil show ?thesis by (simp add: fields.parse_end)
next
  case (Cons b bs)
  assume "parse_hpack_field data = Inl e"
  with Cons prefix_covers [of b] show ?thesis
    by (auto simp: parse_hpack_field_Cons bindE_eq_Inl split: if_splits
        dest!: HPACKInt_parse_errors parse_literal_errors parse_partial_errors
        dest: HPACKInt_parse_prefix)
qed

section \<open>Properties\<close>

text \<open>A field block round trips. Any list of header fields (indexed, literal, reference with a
  value, table size update; cached or not; raw or Huffman strings) is serialised field by field
  without an error, and \<open>parse_field_block\<close> on the concatenation gives the same fields in the same
  order.\<close>

theorem field_block_print_parse:
  assumes "\<forall>f \<in> set fs. wf_field f"
  shows "\<exists>bss. mapE hpack_field_to_bytes fs = Inr bss \<and>
    parse_field_block (concat bss) = Inr (map canon_field fs)"
  using wf_fields_print [OF assms] fields.parse_all_concat [OF assms] by blast

theorem field_block_print_parse_witness:
  "\<exists>bss. mapE hpack_field_to_bytes
      [HPACKIndexedHeaderField (HPACKInt7 2 0),
       HPACKLiteralHeaderField (HPACKString (ascii ''test'')) (HPACKString (ascii ''x'')) CACHED] = Inr bss \<and>
    parse_field_block (concat bss) =
      Inr [HPACKIndexedHeaderField (HPACKInt7 2 0),
           HPACKLiteralHeaderField (HPACKString (ascii ''test'')) (HPACKString (ascii ''x'')) CACHED]"
  using field_block_print_parse
    [of "[HPACKIndexedHeaderField (HPACKInt7 2 0),
       HPACKLiteralHeaderField (HPACKString (ascii ''test'')) (HPACKString (ascii ''x'')) CACHED]"]
  by (simp add: printable_int_def wf_int_def HPACKInt7_def wf_string_def HPACKString_def sys_maxsize_def
      canon_string_def)

text \<open>\<open>parse_field_block\<close> ends on every input: with fields, or with \<open>HPACKError\<close>, or with the
  \<open>ValueError\<close> of an absurd length. Neither the \<open>assert False\<close> of \<open>parse_hpack_field\<close> nor the class check
  of a reference fails, and \<open>StopIteration\<close>, which ends the loop, comes only from the end of the
  input, so no bytes are dropped silently.\<close>

theorem field_block_errors:
  "(parse_field_block data = Inl e \<longrightarrow> e = HPACKError \<or> e = ValueError) \<and>
   (parse_hpack_field data = Inl StopIteration \<longleftrightarrow> data = [])"
proof
  show "parse_hpack_field data = Inl StopIteration \<longleftrightarrow> data = []"
    using parse_hpack_field_errors [of data StopIteration] fields.parse_end by auto
  show "parse_field_block data = Inl e \<longrightarrow> e = HPACKError \<or> e = ValueError"
  proof (induction data rule: parse_field_block.induct)
    case (1 it)
    show ?case
    proof (cases "parse_hpack_field it")
      case (Inl e')
      then show ?thesis
        using parse_hpack_field_errors [of it e'] by (auto simp: parse_field_block.simps [of it])
    next
      case (Inr r)
      with "1" show ?thesis
        by (cases r) (auto simp: parse_field_block.simps [of it] bindE_eq_Inl)
    qed
  qed
qed

theorem field_block_errors_witness:
  "parse_field_block [0x7f] = Inl HPACKError \<and> (HPACKError = HPACKError \<or> HPACKError = ValueError)"
proof -
  have "parse_field_block [0x7f] = Inl HPACKError"
    by (simp add: parse_field_block.simps [of "[0x7f]"] parse_hpack_field_def Let_def
        HPACKInt6_parse_def parse_hpack_int_def)
  then show ?thesis
    using field_block_errors [of "[0x7f]" HPACKError] by simp
qed

end
