(* ===== verification/PyState.thy ===== *)
theory PyState
  imports Prelude
begin

text \<open>
  Methods that change an object. Such a method takes the object and gives back its result, a value
  or an exception, with the object as the method left it. An exception does not undo what was done
  before it: the state is in the pair on both branches.
\<close>

type_synonym ('s, 'a) action = "'s \<Rightarrow> 'a result \<times> 's"

definition returnS :: "'a \<Rightarrow> ('s, 'a) action" where
  "returnS x s = (Inr x, s)"

definition raiseS :: "exn \<Rightarrow> ('s, 'a) action" where
  "raiseS e s = (Inl e, s)"

definition bindS :: "('s, 'a) action \<Rightarrow> ('a \<Rightarrow> ('s, 'b) action) \<Rightarrow> ('s, 'b) action" where
  "bindS m f s = (case m s of (Inl e, t) \<Rightarrow> (Inl e, t) | (Inr x, t) \<Rightarrow> f x t)"

text \<open>A method that only reads the object.\<close>

definition readS :: "('s \<Rightarrow> 'a result) \<Rightarrow> ('s, 'a) action" where
  "readS f s = (f s, s)"

definition modifyS :: "('s \<Rightarrow> 's) \<Rightarrow> ('s, unit) action" where
  "modifyS f s = (Inr (), f s)"

lemma bindS_cong [fundef_cong]:
  "m s = m' s' \<Longrightarrow> (\<And>x t. m' s' = (Inr x, t) \<Longrightarrow> f x t = g x t) \<Longrightarrow> bindS m f s = bindS m' g s'"
  by (auto simp: bindS_def split: sum.splits prod.splits)

named_theorems method_simps

lemma bindS_Inr [method_simps]:
  "bindS m f s = (Inr y, u) \<longleftrightarrow> (\<exists>x t. m s = (Inr x, t) \<and> f x t = (Inr y, u))"
  by (auto simp: bindS_def split: sum.splits prod.splits)

lemma bindS_Inl [method_simps]:
  "bindS m f s = (Inl e, u) \<longleftrightarrow>
     m s = (Inl e, u) \<or> (\<exists>x t. m s = (Inr x, t) \<and> f x t = (Inl e, u))"
  by (auto simp: bindS_def split: sum.splits prod.splits)

lemma returnS_eq [simp, method_simps]: "returnS x s = (Inr x, s)"
  by (simp add: returnS_def)

lemma raiseS_eq [simp, method_simps]: "raiseS e s = (Inl e, s)"
  by (simp add: raiseS_def)

lemma readS_eq [simp, method_simps]: "readS f s = (f s, s)"
  by (simp add: readS_def)

lemma modifyS_eq [simp, method_simps]: "modifyS f s = (Inr (), f s)"
  by (simp add: modifyS_def)

lemma bindS_ok: "m s = (Inr x, t) \<Longrightarrow> bindS m f s = f x t"
  by (simp add: bindS_def)

lemma bindS_fails: "m s = (Inl e, t) \<Longrightarrow> bindS m f s = (Inl e, t)"
  by (simp add: bindS_def)

section \<open>What a method keeps\<close>

text \<open>An invariant a method keeps whenever it returns, and one it keeps in any case.\<close>

definition keeps :: "('s \<Rightarrow> bool) \<Rightarrow> ('s, 'a) action \<Rightarrow> bool" where
  "keeps I m \<longleftrightarrow> (\<forall>s. I s \<longrightarrow> (\<forall>x t. m s = (Inr x, t) \<longrightarrow> I t))"

definition always_keeps :: "('s \<Rightarrow> bool) \<Rightarrow> ('s, 'a) action \<Rightarrow> bool" where
  "always_keeps I m \<longleftrightarrow> (\<forall>s. I s \<longrightarrow> I (snd (m s)))"

lemma keepsI: "(\<And>s x t. I s \<Longrightarrow> m s = (Inr x, t) \<Longrightarrow> I t) \<Longrightarrow> keeps I m"
  by (auto simp: keeps_def)

lemma keepsD: "keeps I m \<Longrightarrow> I s \<Longrightarrow> m s = (Inr x, t) \<Longrightarrow> I t"
  by (auto simp: keeps_def)

lemma always_keeps_keeps: "always_keeps I m \<Longrightarrow> keeps I m"
  by (fastforce simp: keeps_def always_keeps_def)

lemma keeps_bindS: "keeps I m \<Longrightarrow> (\<And>x. keeps I (f x)) \<Longrightarrow> keeps I (bindS m f)"
  by (rule keepsI) (auto simp: bindS_Inr dest: keepsD)

lemma keeps_simps [simp]: "keeps I (returnS x)" "keeps I (raiseS e)" "keeps I (readS f)"
  by (simp_all add: keeps_def)

lemma always_keeps_bindS:
  "always_keeps I m \<Longrightarrow> (\<And>x. always_keeps I (f x)) \<Longrightarrow> always_keeps I (bindS m f)"
  by (fastforce simp: always_keeps_def bindS_def split: sum.splits prod.splits)

lemma always_keeps_simps [simp]:
  "always_keeps I (returnS x)" "always_keeps I (raiseS e)" "always_keeps I (readS f)"
  by (simp_all add: always_keeps_def)

end
