(* ===== verification/HpackState.thy ===== *)
theory HpackState
  imports HpackField PyState
begin

text \<open>
  \<open>tools/hpack.py\<close>, \<open>STATIC_TABLE\<close> and the class \<open>HPACKState\<close>: the dynamic table with its
  eviction, and \<open>process_field_block\<close>, which turns the fields of a block into headers while it
  updates the table. The lemmas show that eviction keeps the longest run of newest entries that
  fits, which size invariants survive which errors, and that headers printed as a block come out of
  the decoder unchanged.
\<close>

section \<open>The tables\<close>

type_synonym header = "bytes \<times> bytes"

definition STATIC_TABLE :: "header list" where
  "STATIC_TABLE =
    [
     (ascii '':authority'', ascii ''''),
     (ascii '':method'', ascii ''GET''),
     (ascii '':method'', ascii ''POST''),
     (ascii '':path'', ascii ''/''),
     (ascii '':path'', ascii ''/index.html''),
     (ascii '':scheme'', ascii ''http''),
     (ascii '':scheme'', ascii ''https''),
     (ascii '':status'', ascii ''200''),
     (ascii '':status'', ascii ''204''),
     (ascii '':status'', ascii ''206''),
     (ascii '':status'', ascii ''304''),
     (ascii '':status'', ascii ''400''),
     (ascii '':status'', ascii ''404''),
     (ascii '':status'', ascii ''500''),
     (ascii ''accept-charset'', ascii ''''),
     (ascii ''accept-encoding'', ascii ''gzip, deflate''),
     (ascii ''accept-language'', ascii ''''),
     (ascii ''accept-ranges'', ascii ''''),
     (ascii ''accept'', ascii ''''),
     (ascii ''access-control-allow-origin'', ascii ''''),
     (ascii ''age'', ascii ''''),
     (ascii ''allow'', ascii ''''),
     (ascii ''authorization'', ascii ''''),
     (ascii ''cache-control'', ascii ''''),
     (ascii ''content-disposition'', ascii ''''),
     (ascii ''content-encoding'', ascii ''''),
     (ascii ''content-language'', ascii ''''),
     (ascii ''content-length'', ascii ''''),
     (ascii ''content-location'', ascii ''''),
     (ascii ''content-range'', ascii ''''),
     (ascii ''content-type'', ascii ''''),
     (ascii ''cookie'', ascii ''''),
     (ascii ''date'', ascii ''''),
     (ascii ''etag'', ascii ''''),
     (ascii ''expect'', ascii ''''),
     (ascii ''expires'', ascii ''''),
     (ascii ''from'', ascii ''''),
     (ascii ''host'', ascii ''''),
     (ascii ''if-match'', ascii ''''),
     (ascii ''if-modified-since'', ascii ''''),
     (ascii ''if-none-match'', ascii ''''),
     (ascii ''if-range'', ascii ''''),
     (ascii ''if-unmodified-since'', ascii ''''),
     (ascii ''last-modified'', ascii ''''),
     (ascii ''link'', ascii ''''),
     (ascii ''location'', ascii ''''),
     (ascii ''max-forwards'', ascii ''''),
     (ascii ''proxy-authenticate'', ascii ''''),
     (ascii ''proxy-authorization'', ascii ''''),
     (ascii ''range'', ascii ''''),
     (ascii ''referer'', ascii ''''),
     (ascii ''refresh'', ascii ''''),
     (ascii ''retry-after'', ascii ''''),
     (ascii ''server'', ascii ''''),
     (ascii ''set-cookie'', ascii ''''),
     (ascii ''strict-transport-security'', ascii ''''),
     (ascii ''transfer-encoding'', ascii ''''),
     (ascii ''user-agent'', ascii ''''),
     (ascii ''vary'', ascii ''''),
     (ascii ''via'', ascii ''''),
     (ascii ''www-authenticate'', ascii '''')]"

text \<open>The dynamic table is a \<open>deque\<close> with the newest entry on the left.\<close>

record hpack_state =
  table_capacity :: int
  max_table_capacity :: int
  dynamic_table :: "header list"

definition entry_size :: "header \<Rightarrow> int" where
  "entry_size h = int (length (fst h)) + int (length (snd h)) + 32"

definition table_size :: "hpack_state \<Rightarrow> int" where
  "table_size s = sum_list (map entry_size (dynamic_table s))"

text \<open>The checks of \<open>__post_init__\<close>, and the constructor's default.\<close>

definition post_init :: "(hpack_state, unit) action" where
  "post_init = readS (\<lambda>s.
     raise_if (\<not> (0 \<le> table_size s \<and> table_size s \<le> table_capacity s \<and>
                  table_capacity s \<le> max_table_capacity s)) AssertionError)"

definition HPACKState :: hpack_state where
  "HPACKState = \<lparr>table_capacity = 4096, max_table_capacity = 4096, dynamic_table = []\<rparr>"

text \<open>\<open>deque.pop\<close> takes the oldest entry, and raises on an empty table.\<close>

function maybe_evict_from_table :: "(hpack_state, unit) action" where
  "maybe_evict_from_table s =
     (if table_size s > table_capacity s then
        (if dynamic_table s = [] then (Inl IndexError, s)
         else maybe_evict_from_table (s\<lparr>dynamic_table := butlast (dynamic_table s)\<rparr>))
      else (Inr (), s))"
  by pat_completeness auto
termination
  by (relation "measure (\<lambda>s. length (dynamic_table s))") auto

declare maybe_evict_from_table.simps [simp del]

definition add_header_to_dynamic_table :: "header \<Rightarrow> (hpack_state, unit) action" where
  "add_header_to_dynamic_table header =
     bindS (modifyS (\<lambda>s. s\<lparr>dynamic_table := header # dynamic_table s\<rparr>)) (\<lambda>_. maybe_evict_from_table)"

definition get_header :: "int \<Rightarrow> hpack_state \<Rightarrow> header result" where
  "get_header index s =
     (if \<not> index > 0 then Inl AssertionError else
      let index = index - 1 in
      if index < int (length STATIC_TABLE) then Inr (STATIC_TABLE ! nat index) else
      let index = index - int (length STATIC_TABLE) in
      if \<not> index < int (length (dynamic_table s)) then Inl AssertionError
      else Inr (dynamic_table s ! nat index))"

definition get_header_name :: "int \<Rightarrow> hpack_state \<Rightarrow> bytes result" where
  "get_header_name index s = bindE (get_header index s) (\<lambda>h. Inr (fst h))"

definition update_table_capacity :: "int \<Rightarrow> (hpack_state, unit) action" where
  "update_table_capacity val =
     bindS (modifyS (\<lambda>s. s\<lparr>table_capacity := val\<rparr>)) (\<lambda>_.
     bindS maybe_evict_from_table (\<lambda>_. post_init))"

text \<open>One turn of the loop of \<open>process_field_block\<close>, with the headers it appends.\<close>

fun process_field :: "hpack_field \<Rightarrow> (hpack_state, header list) action" where
  "process_field (HPACKIndexedHeaderField index) =
     bindS (readS (get_header (int_val index))) (\<lambda>h. returnS [h])"
| "process_field (HPACKLiteralHeaderField key val prop) =
     (let h = (str_data key, str_data val) in
      if prop = CACHED then bindS (add_header_to_dynamic_table h) (\<lambda>_. returnS [h])
      else returnS [h])"
| "process_field (HPACKPartialIndexedHeaderField index val prop) =
     bindS (readS (get_header_name (int_val index))) (\<lambda>name.
       let h = (name, str_data val) in
       if prop = CACHED then
         bindS (readS (get_header_name (int_val index))) (\<lambda>name.
         bindS (add_header_to_dynamic_table (name, str_data val)) (\<lambda>_. returnS [h]))
       else returnS [h])"
| "process_field (HPACKDynamicTableSizeUpdateField sz) =
     bindS (update_table_capacity (int_val sz)) (\<lambda>_. returnS [])"

fun process_field_block :: "hpack_field list \<Rightarrow> (hpack_state, header list) action" where
  "process_field_block [] = returnS []"
| "process_field_block (field # field_block) =
     bindS (process_field field) (\<lambda>hs.
     bindS (process_field_block field_block) (\<lambda>rest. returnS (hs @ rest)))"

section \<open>Eviction\<close>

text \<open>The specification: walk from the newest entry and keep what still fits.\<close>

fun fitting :: "int \<Rightarrow> header list \<Rightarrow> header list" where
  "fitting cap [] = []"
| "fitting cap (h # hs) = (if entry_size h \<le> cap then h # fitting (cap - entry_size h) hs else [])"

abbreviation total_size :: "header list \<Rightarrow> int" where
  "total_size hs \<equiv> sum_list (map entry_size hs)"

lemma entry_size_pos [simp]: "0 < entry_size h" "0 \<le> entry_size h"
  by (simp_all add: entry_size_def)

lemma total_size_nonneg [simp]: "0 \<le> total_size hs"
  by (induction hs) (auto simp: add_nonneg_nonneg)

lemma total_size_fitting: "0 \<le> cap \<Longrightarrow> total_size (fitting cap hs) \<le> cap"
proof (induction hs arbitrary: cap)
  case (Cons h hs)
  have "total_size (fitting (cap - entry_size h) hs) \<le> cap - entry_size h" if "entry_size h \<le> cap"
    using that by (intro Cons.IH) simp
  with Cons.prems show ?case by (simp add: le_diff_eq add.commute)
qed simp

lemma fitting_all: "total_size hs \<le> cap \<Longrightarrow> fitting cap hs = hs"
proof (induction hs arbitrary: cap)
  case (Cons h hs)
  moreover from Cons.prems have "entry_size h \<le> cap"
    using total_size_nonneg [of hs] by (simp del: total_size_nonneg)
  ultimately show ?case by simp
qed simp

lemma fitting_Nil_small: "cap < 0 \<Longrightarrow> fitting cap hs = []"
  by (cases hs) (auto simp: not_le intro: less_le_trans)

lemma fitting_snoc_too_big:
  assumes "cap < total_size (hs @ [h])"
  shows "fitting cap (hs @ [h]) = fitting cap hs"
  using assms by (induction hs arbitrary: cap) auto

lemma fitting_fitting: "fitting cap (hs @ fitting cap' ks) = fitting cap (hs @ ks)"
  if "cap \<le> total_size hs + cap'"
  using that
proof (induction hs arbitrary: cap)
  case Nil
  then show ?case
  proof (induction ks arbitrary: cap cap')
    case (Cons k ks)
    then show ?case by simp
  qed simp
next
  case (Cons h hs)
  then show ?case by simp
qed

lemma fitting_longest:
  assumes "0 \<le> cap"
  shows "\<exists>rest. hs = fitting cap hs @ rest \<and> (rest \<noteq> [] \<longrightarrow> cap < total_size (fitting cap hs @ [hd rest]))"
  using assms
proof (induction hs arbitrary: cap)
  case (Cons h hs)
  show ?case
  proof (cases "entry_size h \<le> cap")
    case True
    with Cons.IH [of "cap - entry_size h"] obtain rest
      where "hs = fitting (cap - entry_size h) hs @ rest"
        and "rest \<noteq> [] \<longrightarrow> cap - entry_size h < total_size (fitting (cap - entry_size h) hs @ [hd rest])"
      by auto
    with True show ?thesis
      by (intro exI [of _ rest]) auto
  qed auto
qed simp

lemma evict_eq_fitting:
  assumes "0 \<le> table_capacity s"
  shows "maybe_evict_from_table s =
    (Inr (), s\<lparr>dynamic_table := fitting (table_capacity s) (dynamic_table s)\<rparr>)"
  using assms
proof (induction s rule: maybe_evict_from_table.induct)
  case (1 s)
  show ?case
  proof (cases "table_size s > table_capacity s")
    case False
    then show ?thesis
      by (simp add: maybe_evict_from_table.simps [of s] table_size_def fitting_all)
  next
    case True
    then have "dynamic_table s \<noteq> []"
      using 1(2) by (auto simp: table_size_def)
    then obtain hs h where s: "dynamic_table s = hs @ [h]"
      by (metis append_butlast_last_id)
    with True 1(2) 1(1) [OF True] show ?thesis
      by (simp add: maybe_evict_from_table.simps [of s] fitting_snoc_too_big table_size_def)
  qed
qed

text \<open>With a negative capacity the loop empties the table and then pops once more.\<close>

lemma evict_negative:
  "table_capacity s < 0 \<Longrightarrow> maybe_evict_from_table s = (Inl IndexError, s\<lparr>dynamic_table := []\<rparr>)"
proof (induction s rule: maybe_evict_from_table.induct)
  case (1 s)
  have "table_size s > table_capacity s"
    using 1(2) total_size_nonneg [of "dynamic_table s"] unfolding table_size_def by linarith
  with 1 show ?case
    by (auto simp: maybe_evict_from_table.simps [of s])
qed

section \<open>Invariants\<close>

definition table_fits :: "hpack_state \<Rightarrow> bool" where
  "table_fits s \<longleftrightarrow> table_size s \<le> table_capacity s"

definition hpack_ok :: "hpack_state \<Rightarrow> bool" where
  "hpack_ok s \<longleftrightarrow> table_fits s \<and> table_capacity s \<le> max_table_capacity s"

lemma table_size_nonneg [simp]: "0 \<le> table_size s"
  by (simp add: table_size_def)

lemma table_fits_capacity: "table_fits s \<Longrightarrow> 0 \<le> table_capacity s"
  using table_size_nonneg [of s] unfolding table_fits_def by linarith

lemma add_header_eq:
  assumes "0 \<le> table_capacity s"
  shows "add_header_to_dynamic_table h s =
    (Inr (), s\<lparr>dynamic_table := fitting (table_capacity s) (h # dynamic_table s)\<rparr>)"
  using assms evict_eq_fitting [of "s\<lparr>dynamic_table := h # dynamic_table s\<rparr>"]
  by (simp add: add_header_to_dynamic_table_def bindS_def)

lemma update_table_capacity_eq:
  assumes "0 \<le> val"
  shows "update_table_capacity val s =
    (raise_if (max_table_capacity s < val) AssertionError,
     s\<lparr>table_capacity := val, dynamic_table := fitting val (dynamic_table s)\<rparr>)"
  using assms evict_eq_fitting [of "s\<lparr>table_capacity := val\<rparr>"] total_size_fitting [OF assms, of "dynamic_table s"]
  by (simp add: update_table_capacity_def bindS_def post_init_def table_size_def not_le)

lemma add_header_keeps:
  assumes "table_fits s"
  shows "table_fits (s\<lparr>dynamic_table := fitting (table_capacity s) (h # dynamic_table s)\<rparr>)"
  using total_size_fitting [OF table_fits_capacity, of s "h # dynamic_table s"] assms
  by (simp add: table_fits_def table_size_def del: fitting.simps)

fun size_ok :: "hpack_field \<Rightarrow> bool" where
  "size_ok (HPACKDynamicTableSizeUpdateField i) \<longleftrightarrow> 0 \<le> int_val i"
| "size_ok _ \<longleftrightarrow> True"

lemma get_header_errors: "get_header i s = Inl e \<Longrightarrow> e = AssertionError"
  by (auto simp: get_header_def Let_def split: if_splits)

text \<open>One field: the errors it can end with, and the size the table keeps in any case.\<close>

lemma process_field_outcome:
  assumes "process_field f s = (r, t)" and "size_ok f" and fits: "table_fits s"
  shows "table_fits t" and "max_table_capacity t = max_table_capacity s"
    and "case r of Inl e \<Rightarrow> e = AssertionError | Inr _ \<Rightarrow> hpack_ok s \<longrightarrow> hpack_ok t"
proof -
  note cap = table_fits_capacity [OF fits]
  have "table_fits t \<and> max_table_capacity t = max_table_capacity s \<and>
    (case r of Inl e \<Rightarrow> e = AssertionError | Inr _ \<Rightarrow> hpack_ok s \<longrightarrow> hpack_ok t)"
  proof (cases f)
    case (HPACKIndexedHeaderField i)
    with assms(1) fits show ?thesis
      by (cases "get_header (int_val i) s") (auto simp: bindS_def dest: get_header_errors)
  next
    case (HPACKLiteralHeaderField k v p)
    with assms(1) fits add_header_keeps [of s "(str_data k, str_data v)"] cap show ?thesis
      by (cases "p = CACHED") (auto simp: bindS_def Let_def add_header_eq hpack_ok_def simp del: fitting.simps)
  next
    case (HPACKPartialIndexedHeaderField i v p)
    show ?thesis
    proof (cases "get_header (int_val i) s")
      case (Inl e)
      with assms(1) fits HPACKPartialIndexedHeaderField show ?thesis
        by (auto simp: bindS_def get_header_name_def dest: get_header_errors)
    next
      case (Inr h)
      with assms(1) fits HPACKPartialIndexedHeaderField add_header_keeps [of s "(fst h, str_data v)"] cap
      show ?thesis
        by (cases "p = CACHED") (auto simp: bindS_def Let_def get_header_name_def add_header_eq hpack_ok_def simp del: fitting.simps)
    qed
  next
    case (HPACKDynamicTableSizeUpdateField i)
    with assms(2) have "0 \<le> int_val i" by simp
    with assms(1) fits HPACKDynamicTableSizeUpdateField total_size_fitting [OF this, of "dynamic_table s"]
    show ?thesis
      by (cases "max_table_capacity s < int_val i")
        (auto simp: bindS_def update_table_capacity_eq table_fits_def table_size_def hpack_ok_def)
  qed
  then show "table_fits t" and "max_table_capacity t = max_table_capacity s"
    and "case r of Inl e \<Rightarrow> e = AssertionError | Inr _ \<Rightarrow> hpack_ok s \<longrightarrow> hpack_ok t"
    by blast+
qed

lemma process_field_block_outcome:
  assumes "process_field_block fs s = (r, t)" and "\<forall>f \<in> set fs. size_ok f" and "table_fits s"
  shows "table_fits t \<and> max_table_capacity t = max_table_capacity s \<and>
    (case r of Inl e \<Rightarrow> e = AssertionError | Inr _ \<Rightarrow> hpack_ok s \<longrightarrow> hpack_ok t)"
  using assms
proof (induction fs arbitrary: s r t)
  case (Cons f fs)
  obtain r1 s1 where 1: "process_field f s = (r1, s1)" by fastforce
  note o1 = process_field_outcome [OF 1]
  from Cons.prems have sz: "size_ok f" by simp
  show ?case
  proof (cases r1)
    case (Inl e)
    with 1 Cons.prems have "r = Inl e" and "t = s1" by (auto simp: bindS_def)
    with o1 [OF sz Cons.prems(3)] Inl show ?thesis by auto
  next
    case (Inr hs)
    obtain r2 s2 where 2: "process_field_block fs s1 = (r2, s2)" by fastforce
    have "table_fits s2 \<and> max_table_capacity s2 = max_table_capacity s1 \<and>
      (case r2 of Inl e \<Rightarrow> e = AssertionError | Inr _ \<Rightarrow> hpack_ok s1 \<longrightarrow> hpack_ok s2)"
      using Cons.IH [OF 2] Cons.prems(2) o1(1) [OF sz Cons.prems(3)] by simp
    with o1 [OF sz Cons.prems(3)] 1 2 Inr Cons.prems(1) show ?thesis
      by (cases r2) (auto simp: bindS_def)
  qed
qed simp

lemma parsed_size_ok: "wf_field f \<Longrightarrow> size_ok f"
  by (cases f) (auto simp: printable_int_def wf_int_def)

text \<open>What the wire forgets of a field, the decoder does not look at.\<close>

lemma canon_string_data [simp]: "str_data (canon_string s) = str_data s"
  by (simp add: canon_string_def HPACKString_def)

lemma process_canon_field: "process_field (canon_field f) = process_field f"
  by (cases f) (simp_all add: Let_def cong: if_cong)

lemma process_canon_fields: "process_field_block (map canon_field fs) = process_field_block fs"
  by (induction fs) (simp_all add: process_canon_field)

text \<open>Literal fields: the headers come out as they are, and the cached ones enter the table.\<close>

type_synonym literal = "hpack_string \<times> hpack_string \<times> int"

definition literal_field :: "literal \<Rightarrow> hpack_field" where
  "literal_field l = (case l of (k, v, p) \<Rightarrow> HPACKLiteralHeaderField k v p)"

definition literal_header :: "literal \<Rightarrow> header" where
  "literal_header l = (case l of (k, v, p) \<Rightarrow> (str_data k, str_data v))"

definition is_cached :: "literal \<Rightarrow> bool" where
  "is_cached l \<longleftrightarrow> snd (snd l) = CACHED"

lemma process_literals:
  assumes "0 \<le> table_capacity s" and "table_fits s"
  shows "process_field_block (map literal_field ls) s =
    (Inr (map literal_header ls),
     s\<lparr>dynamic_table := fitting (table_capacity s)
         (rev (map literal_header (filter is_cached ls)) @ dynamic_table s)\<rparr>)"
  using assms
proof (induction ls arbitrary: s)
  case Nil
  then show ?case by (simp add: table_fits_def table_size_def fitting_all)
next
  case (Cons l ls)
  obtain k v p where "l = (k, v, p)" by (cases l)
  let ?h = "(str_data k, str_data v)"
  have l: "literal_field l = HPACKLiteralHeaderField k v p" "literal_header l = ?h"
    "is_cached l \<longleftrightarrow> p = CACHED"
    by (simp_all add: \<open>l = _\<close> literal_field_def literal_header_def is_cached_def)
  show ?case
  proof (cases "p = CACHED")
    case False
    with Cons l show ?thesis
      by (simp add: bindS_def Let_def)
  next
    case True
    let ?s = "s\<lparr>dynamic_table := fitting (table_capacity s) (?h # dynamic_table s)\<rparr>"
    let ?new = "rev (map literal_header (filter is_cached ls))"
    have add: "add_header_to_dynamic_table ?h s = (Inr (), ?s)"
      using Cons.prems by (simp add: add_header_eq)
    have fits: "table_fits ?s"
      using Cons.prems total_size_fitting [of "table_capacity s" "?h # dynamic_table s"]
      by (simp add: table_fits_def table_size_def)
    have "fitting (table_capacity s) (?new @ fitting (table_capacity s) (?h # dynamic_table s))
      = fitting (table_capacity s) (?new @ ?h # dynamic_table s)"
      by (rule fitting_fitting) simp
    with Cons.IH [of ?s] Cons.prems(1) fits add True l show ?thesis
      by (simp add: bindS_def Let_def del: fitting.simps)
  qed
qed

lemma literal_headers_processed:
  assumes "\<forall>(k, v, p) \<in> set ls. wf_string k \<and> wf_string v \<and> (p = CACHED \<or> p = UNCACHED \<or> p = VERBATIM)"
    and "table_size s \<le> table_capacity s"
  shows "\<exists>bss fs. mapE (\<lambda>(k, v, p). hpack_field_to_bytes (HPACKLiteralHeaderField k v p)) ls = Inr bss \<and>
    parse_field_block (concat bss) = Inr fs \<and>
    process_field_block fs s = (Inr (map (\<lambda>(k, v, p). (str_data k, str_data v)) ls),
      s\<lparr>dynamic_table := fitting (table_capacity s)
        (rev (map (\<lambda>(k, v, p). (str_data k, str_data v)) (filter (\<lambda>(k, v, p). p = CACHED) ls))
         @ dynamic_table s)\<rparr>)"
proof -
  have wf: "\<forall>f \<in> set (map literal_field ls). wf_field f"
    using assms(1) by (auto simp: literal_field_def)
  then obtain bss where bss: "mapE hpack_field_to_bytes (map literal_field ls) = Inr bss"
    using wf_fields_print by blast
  have "parse_field_block (concat bss) = Inr (map canon_field (map literal_field ls))"
    using fields.parse_all_concat [OF wf bss] .
  moreover have "mapE (\<lambda>(k, v, p). hpack_field_to_bytes (HPACKLiteralHeaderField k v p)) ls = Inr bss"
    using bss by (simp only: mapE_map literal_field_def case_prod_unfold)
  moreover have "literal_header = (\<lambda>(k, v, p). (str_data k, str_data v))"
    and "is_cached = (\<lambda>(k, v, p). p = CACHED)"
    by (auto simp: literal_header_def is_cached_def fun_eq_iff)
  ultimately show ?thesis
    using process_literals [of s ls] assms(2) table_fits_capacity [of s]
    by (metis process_canon_fields table_fits_def)
qed

section \<open>Properties\<close>

text \<open>C5: adding a header keeps exactly the longest run of newest entries that fits. Whatever was in
  the table, \<open>add_header_to_dynamic_table\<close> returns, the new table is a prefix of the new header and
  the old table, its size is within the capacity, and with one entry more it would not be. An entry
  that does not fit alone leaves the table empty, as RFC 7541 section 4.4 asks.\<close>

theorem eviction_keeps_the_newest:
  assumes "0 \<le> table_capacity s"
  shows "\<exists>kept dropped. h # dynamic_table s = kept @ dropped \<and>
    add_header_to_dynamic_table h s = (Inr (), s\<lparr>dynamic_table := kept\<rparr>) \<and>
    sum_list (map entry_size kept) \<le> table_capacity s \<and>
    (dropped = [] \<or> table_capacity s < sum_list (map entry_size (kept @ [hd dropped])))"
  using fitting_longest [OF assms, of "h # dynamic_table s"] add_header_eq [OF assms, of h]
    total_size_fitting [OF assms, of "h # dynamic_table s"] by metis

theorem eviction_keeps_the_newest_witness:
  "\<exists>kept dropped. (ascii ''a'', ascii ''b'') # [(ascii ''c'', ascii ''d'')] = kept @ dropped \<and>
    add_header_to_dynamic_table (ascii ''a'', ascii ''b'')
      \<lparr>table_capacity = 40, max_table_capacity = 4096, dynamic_table = [(ascii ''c'', ascii ''d'')]\<rparr> =
      (Inr (), \<lparr>table_capacity = 40, max_table_capacity = 4096, dynamic_table = kept\<rparr>) \<and>
    sum_list (map entry_size kept) \<le> 40 \<and>
    (dropped = [] \<or> 40 < sum_list (map entry_size (kept @ [hd dropped])))"
  using eviction_keeps_the_newest
    [of "\<lparr>table_capacity = 40, max_table_capacity = 4096, dynamic_table = [(ascii ''c'', ascii ''d'')]\<rparr>"
        "(ascii ''a'', ascii ''b'')"] by simp



text \<open>A size update above the maximum is reported too late. \<open>update_table_capacity\<close> stores the
  value and evicts before it checks, so the \<open>AssertionError\<close> leaves a state that \<open>__post_init__\<close>
  rejects and with the capacity the peer asked for.\<close>

theorem refused_size_update_sticks:
  assumes "0 \<le> val" and "max_table_capacity s < val"
  shows "\<exists>t. update_table_capacity val s = (Inl AssertionError, t) \<and> table_capacity t = val \<and>
    post_init t = (Inl AssertionError, t)"
  using assms by (simp add: update_table_capacity_eq raise_if_def post_init_def)

theorem refused_size_update_sticks_witness:
  "\<exists>t. update_table_capacity 5000 HPACKState = (Inl AssertionError, t) \<and> table_capacity t = 5000 \<and>
    post_init t = (Inl AssertionError, t)"
  using refused_size_update_sticks [of 5000 HPACKState] by (simp add: HPACKState_def)

text \<open>C1: the wire is transparent. For every list of well-formed fields, printing each, parsing the
  concatenation with \<open>parse_field_block\<close> and running \<open>process_field_block\<close> on the result gives the
  same headers or error, and the same table, as running it on the fields themselves: compression,
  padding and integer encodings make no difference to what is decoded.\<close>

theorem decoding_what_was_encoded:
  assumes "\<forall>f \<in> set fs. wf_field f"
  shows "\<exists>bss fs'. mapE hpack_field_to_bytes fs = Inr bss \<and> parse_field_block (concat bss) = Inr fs' \<and>
    process_field_block fs' s = process_field_block fs s"
proof -
  obtain bss where "mapE hpack_field_to_bytes fs = Inr bss"
    using wf_fields_print [OF assms] by (elim exE)
  moreover from fields.parse_all_concat [OF assms this]
  have "parse_field_block (concat bss) = Inr (map canon_field fs)" .
  ultimately show ?thesis
    by (intro exI [of _ bss] exI [of _ "map canon_field fs"]) (simp add: process_canon_fields)
qed

theorem decoding_what_was_encoded_witness:
  "\<exists>bss fs'. mapE hpack_field_to_bytes [HPACKIndexedHeaderField (HPACKInt7 2 0)] = Inr bss \<and>
    parse_field_block (concat bss) = Inr fs' \<and>
    process_field_block fs' HPACKState =
      process_field_block [HPACKIndexedHeaderField (HPACKInt7 2 0)] HPACKState"
  using decoding_what_was_encoded [of "[HPACKIndexedHeaderField (HPACKInt7 2 0)]" HPACKState]
  by (simp add: printable_int_def wf_int_def HPACKInt7_def sys_maxsize_def del: process_field_block.simps)

text \<open>C2: headers written as literals survive. Any list of names and values, each string raw or
  Huffman coded and each field cached, uncached or verbatim, is printed, parsed and processed to
  exactly those names and values in order. The cached ones, newest first, are in front of the
  dynamic table, cut to the capacity; the others leave no trace in it.\<close>

theorem literal_headers_survive:
  assumes "\<forall>(k, v, p) \<in> set ls. wf_string k \<and> wf_string v \<and> (p = CACHED \<or> p = UNCACHED \<or> p = VERBATIM)"
    and "table_size s \<le> table_capacity s"
  shows "\<exists>bss fs. mapE (\<lambda>(k, v, p). hpack_field_to_bytes (HPACKLiteralHeaderField k v p)) ls = Inr bss \<and>
    parse_field_block (concat bss) = Inr fs \<and>
    process_field_block fs s = (Inr (map (\<lambda>(k, v, p). (str_data k, str_data v)) ls),
      s\<lparr>dynamic_table := fitting (table_capacity s)
        (rev (map (\<lambda>(k, v, p). (str_data k, str_data v)) (filter (\<lambda>(k, v, p). p = CACHED) ls))
         @ dynamic_table s)\<rparr>)"
  using assms by (rule literal_headers_processed)

theorem literal_headers_survive_witness:
  "\<exists>bss fs. mapE (\<lambda>(k, v, p). hpack_field_to_bytes (HPACKLiteralHeaderField k v p))
      [(HPACKString (ascii ''n''), HPACKString (ascii ''v''), CACHED)] = Inr bss \<and>
    parse_field_block (concat bss) = Inr fs \<and>
    process_field_block fs HPACKState = (Inr [(ascii ''n'', ascii ''v'')],
      HPACKState\<lparr>dynamic_table := [(ascii ''n'', ascii ''v'')]\<rparr>)"
  using literal_headers_survive
    [of "[(HPACKString (ascii ''n''), HPACKString (ascii ''v''), CACHED)]" HPACKState]
  by (simp add: HPACKState_def table_size_def wf_string_def HPACKString_def sys_maxsize_def
      entry_size_def ascii_def)

end
