(* ===== verification/Http2Base.thy ===== *)
theory Http2Base
  imports PyBytes
begin

text \<open>
  \<open>tools/http2.py\<close>, what the frame classes share: the named integers \<open>H2ErrorCode\<close>,
  \<open>H2Setting\<close> and \<open>H2FrameType\<close> with their printed form, \<open>H2Flags\<close>, the reader \<open>bslice\<close> and
  the checks that the constructors call. The lemmas show that flags and bytes are in bijection and
  that a printed name determines its integer.
\<close>

section \<open>Reading a number of bytes\<close>

definition bslice :: "int \<Rightarrow> bytes parser" where
  "bslice len it =
     (if \<not> 0 \<le> len then Inl AssertionError else
      bindE (islice_bytes len it) (\<lambda>(result, it).
        if int (length result) \<noteq> len then Inl H2Error else Inr (result, it)))"

lemma bslice_append [printed_simps]:
  "int (length bs) \<le> sys_maxsize \<Longrightarrow> int (length bs) = n \<Longrightarrow> bslice n (bs @ rest) = Inr (bs, rest)"
  by (auto simp: bslice_def islice_bytes_append)

lemma bslice_Inr: "bslice n it = Inr (bs, rest) \<longleftrightarrow>
    0 \<le> n \<and> n \<le> sys_maxsize \<and> int (length bs) = n \<and> it = bs @ rest"
proof
  assume "bslice n it = Inr (bs, rest)"
  then show "0 \<le> n \<and> n \<le> sys_maxsize \<and> int (length bs) = n \<and> it = bs @ rest"
    by (auto simp: bslice_def bindE_eq_Inr islice_bytes_Inr split: if_splits)
next
  assume "0 \<le> n \<and> n \<le> sys_maxsize \<and> int (length bs) = n \<and> it = bs @ rest"
  then show "bslice n it = Inr (bs, rest)"
    by (simp add: bslice_append)
qed

lemma bslice_Inl: "n \<le> sys_maxsize \<Longrightarrow> bslice n it = Inl e \<longleftrightarrow>
    (if n < 0 then e = AssertionError else int (length it) < n \<and> e = H2Error)"
  by (auto simp: bslice_def bindE_eq_Inl islice_bytes_def min_def)

section \<open>Named integers\<close>

text \<open>\<open>hex(i)\<close>.\<close>

definition hex_digit :: "int \<Rightarrow> char" where
  "hex_digit d = ''0123456789abcdef'' ! nat d"

fun hex_digits :: "nat \<Rightarrow> string" where
  "hex_digits n = (if n < 16 then [hex_digit (int n)]
                   else hex_digits (n div 16) @ [hex_digit (int (n mod 16))])"

declare hex_digits.simps [simp del]

definition hex :: "int \<Rightarrow> string" where
  "hex i = (if i < 0 then ''-0x'' @ hex_digits (nat (- i)) else ''0x'' @ hex_digits (nat i))"

text \<open>The three classes are subclasses of \<open>int\<close> with class variables for the named values, and a
  \<open>__repr__\<close> that matches the value against them.\<close>

definition H2ErrorCode_names :: "(int \<times> string) list" where
  "H2ErrorCode_names =
     [(0x0, ''NO_ERROR''), (0x1, ''PROTOCOL_ERROR''), (0x2, ''INTERNAL_ERROR''),
      (0x3, ''FLOW_CONTROL_ERROR''), (0x4, ''SETTINGS_TIMEOUT''), (0x5, ''STREAM_CLOSED''),
      (0x6, ''FRAME_SIZE_ERROR''), (0x7, ''REFUSED_STREAM''), (0x8, ''CANCEL''),
      (0x9, ''COMPRESSION_ERROR''), (0xA, ''CONNECT_ERROR''), (0xB, ''ENHANCE_YOUR_CALM''),
      (0xC, ''INADEQUATE_SECURITY''), (0xD, ''HTTP_1_1_REQUIRED'')]"

definition H2Setting_names :: "(int \<times> string) list" where
  "H2Setting_names =
     [(1, ''HEADER_TABLE_SIZE''), (2, ''ENABLE_PUSH''), (3, ''MAX_CONCURRENT_STREAMS''),
      (4, ''INITIAL_WINDOW_SIZE''), (5, ''MAX_FRAME_SIZE''), (6, ''MAX_HEADER_LIST_SIZE'')]"

definition H2FrameType_names :: "(int \<times> string) list" where
  "H2FrameType_names =
     [(0, ''DATA''), (1, ''HEADERS''), (2, ''PRIORITY''), (3, ''RST_STREAM''), (4, ''SETTINGS''),
      (5, ''PUSH_PROMISE''), (6, ''PING''), (7, ''GOAWAY''), (8, ''WINDOW_UPDATE''),
      (9, ''CONTINUATION'')]"

definition named_int_repr :: "string \<Rightarrow> (int \<times> string) list \<Rightarrow> int \<Rightarrow> string" where
  "named_int_repr cls names i =
     (case map_of names i of Some n \<Rightarrow> cls @ ''.'' @ n | None \<Rightarrow> cls @ ''('' @ hex i @ '')'')"

definition H2ErrorCode_repr :: "int \<Rightarrow> string" where
  "H2ErrorCode_repr = named_int_repr ''H2ErrorCode'' H2ErrorCode_names"

definition H2Setting_repr :: "int \<Rightarrow> string" where
  "H2Setting_repr = named_int_repr ''H2Setting'' H2Setting_names"

definition H2FrameType_repr :: "int \<Rightarrow> string" where
  "H2FrameType_repr = named_int_repr ''H2FrameType'' H2FrameType_names"

section \<open>Flags\<close>

record h2_flags =
  unused7 :: bool
  unused6 :: bool
  priority :: bool
  unused4 :: bool
  padded :: bool
  end_headers :: bool
  unused1 :: bool
  end_stream_or_ack :: bool

text \<open>\<open>H2Flags()\<close>: every flag is off by default.\<close>

definition H2Flags :: h2_flags where
  "H2Flags = \<lparr>unused7 = False, unused6 = False, priority = False, unused4 = False, padded = False,
     end_headers = False, unused1 = False, end_stream_or_ack = False\<rparr>"

text \<open>\<open>H2Flags.parse\<close> takes a byte string or an integer.\<close>

definition H2Flags_parse_int :: "int \<Rightarrow> h2_flags result" where
  "H2Flags_parse_int data =
     (if \<not> (0 \<le> data \<and> data < 2 ^ 8) then Inl H2Error else
      let flag = \<lambda>i. (drop_bit i data) AND 1 \<noteq> 0 in
      Inr \<lparr>unused7 = flag 7, unused6 = flag 6, priority = flag 5, unused4 = flag 4, padded = flag 3,
        end_headers = flag 2, unused1 = flag 1, end_stream_or_ack = flag 0\<rparr>)"

definition H2Flags_parse_bytes :: "bytes \<Rightarrow> h2_flags result" where
  "H2Flags_parse_bytes data =
     (if length data \<noteq> 1 then Inl H2Error else H2Flags_parse_int (uint (data ! 0)))"

definition flag_list :: "h2_flags \<Rightarrow> bool list" where
  "flag_list f = [unused7 f, unused6 f, priority f, unused4 f, padded f, end_headers f, unused1 f,
     end_stream_or_ack f]"

definition H2Flags_to_bytes :: "h2_flags \<Rightarrow> bytes result" where
  "H2Flags_to_bytes f =
     bytes_of_ints [sum_list (map2 (\<lambda>i b. push_bit (7 - i) (of_bool b)) [0..<8] (flag_list f))]"

definition H2Flags_bool :: "h2_flags \<Rightarrow> bool" where
  "H2Flags_bool f \<longleftrightarrow> unused7 f \<or> unused6 f \<or> priority f \<or> unused4 f \<or> padded f \<or> end_headers f \<or>
     unused1 f \<or> end_stream_or_ack f"

definition flag_names :: "string list" where
  "flag_names = [''unused7'', ''unused6'', ''priority'', ''unused4'', ''padded'', ''end_headers'',
     ''unused1'', ''end_stream_or_ack'']"

text \<open>\<open>', '.join(xs)\<close>, and the \<open>__repr__\<close> of the flags that are on.\<close>

fun comma_join :: "string list \<Rightarrow> string" where
  "comma_join [] = []"
| "comma_join [x] = x"
| "comma_join (x # y # xs) = x @ '', '' @ comma_join (y # xs)"

definition H2Flags_repr :: "h2_flags \<Rightarrow> string" where
  "H2Flags_repr f = ''H2Flags('' @
     comma_join (map (\<lambda>(k, v). k @ ''=True'') (filter snd (zip flag_names (flag_list f)))) @ '')''"

section \<open>Checks\<close>

definition check_stream_id :: "int \<Rightarrow> bool \<Rightarrow> bool \<Rightarrow> unit result" where
  "check_stream_id sid can_be_zero must_be_zero =
     raise_if ((\<not> can_be_zero \<and> sid = 0) \<or> (must_be_zero \<and> sid \<noteq> 0) \<or>
       \<not> (0 \<le> sid \<and> sid < push_bit 31 1)) H2Error"

definition check_frame_type :: "int \<Rightarrow> int \<Rightarrow> unit result" where
  "check_frame_type frame_type expected = raise_if (frame_type \<noteq> expected) H2Error"

definition check_error_code :: "int \<Rightarrow> unit result" where
  "check_error_code code = raise_if (\<not> (0 \<le> code \<and> code < push_bit 32 1)) H2Error"

definition check_pad_length :: "int option \<Rightarrow> unit result" where
  "check_pad_length pad_length =
     (case pad_length of None \<Rightarrow> Inr ()
      | Some n \<Rightarrow> raise_if (\<not> (0 \<le> n \<and> n < 0x100)) H2Error)"

definition check_padding :: "bytes \<Rightarrow> int \<Rightarrow> unit result" where
  "check_padding pad pad_length =
     bindE (check_pad_length (Some pad_length)) (\<lambda>_.
       raise_if (int (length pad) \<noteq> pad_length) H2Error)"

text \<open>Python chains the comparison: \<open>a != b != c\<close> is \<open>a != b and b != c\<close>.\<close>

definition check_priority :: "bool option \<Rightarrow> int option \<Rightarrow> int option \<Rightarrow> unit result" where
  "check_priority exclusive stream_dependency weight =
     bindE (raise_if ((exclusive = None) \<noteq> (weight = None) \<and>
                      (weight = None) \<noteq> (stream_dependency = None)) H2Error) (\<lambda>_.
     bindE (case weight of None \<Rightarrow> Inr ()
            | Some w \<Rightarrow> raise_if (\<not> (0 \<le> w \<and> w < 0x100)) H2Error) (\<lambda>_.
     case stream_dependency of None \<Rightarrow> Inr ()
     | Some d \<Rightarrow> check_stream_id d True False))"

lemmas check_defs = check_stream_id_def check_frame_type_def check_error_code_def
  check_pad_length_def check_padding_def check_priority_def

lemma check_stream_id_ok [simp]:
  "check_stream_id i z m = Inr u \<longleftrightarrow> (z \<or> i \<noteq> 0) \<and> (m \<longrightarrow> i = 0) \<and> 0 \<le> i \<and> i < 2 ^ 31"
  by (auto simp: check_stream_id_def push_bit_of_1)

lemma check_frame_type_ok [simp]: "check_frame_type t e = Inr u \<longleftrightarrow> t = e"
  by (simp add: check_frame_type_def)

lemma check_error_code_ok [simp]: "check_error_code c = Inr u \<longleftrightarrow> 0 \<le> c \<and> c < 2 ^ 32"
  by (auto simp: check_error_code_def push_bit_of_1)

lemma check_pad_length_ok [simp]:
  "check_pad_length p = Inr u \<longleftrightarrow> (case p of None \<Rightarrow> True | Some n \<Rightarrow> 0 \<le> n \<and> n < 256)"
  by (auto simp: check_pad_length_def split: option.splits)

lemma check_padding_ok [simp]:
  "check_padding pad n = Inr u \<longleftrightarrow> 0 \<le> n \<and> n < 256 \<and> int (length pad) = n"
  by (auto simp: check_padding_def bindE_eq_Inr)

lemma check_errors [result_simps]:
  "check_stream_id i z m = Inl e \<Longrightarrow> e = H2Error"
  "check_frame_type t x = Inl e \<Longrightarrow> e = H2Error"
  "check_error_code c = Inl e \<Longrightarrow> e = H2Error"
  "check_pad_length p = Inl e \<Longrightarrow> e = H2Error"
  "check_padding pad n = Inl e \<Longrightarrow> e = H2Error"
  "check_priority ex d w = Inl e \<Longrightarrow> e = H2Error"
  by (auto simp: check_defs bindE_eq_Inl split: option.splits)

section \<open>A flag above 31 bits\<close>

text \<open>\<open>(b << 31) | v\<close>, and \<open>raw >> 31\<close> and \<open>raw & ~(1 << 31)\<close> which take it apart.\<close>

definition join31 :: "bool \<Rightarrow> int \<Rightarrow> int" where
  "join31 b v = push_bit 31 (of_bool b) OR v"

definition low31 :: "int \<Rightarrow> int" where
  "low31 raw = raw AND NOT (push_bit 31 1)"

definition high_bit31 :: "int \<Rightarrow> bool" where
  "high_bit31 raw \<longleftrightarrow> drop_bit 31 raw \<noteq> 0"

lemma join31_eq: "0 \<le> v \<Longrightarrow> v < 2 ^ 31 \<Longrightarrow> join31 b v = of_bool b * 2 ^ 31 + v"
  unfolding join31_def by (rule or_high_bit)

lemma low31_eq: "0 \<le> v \<Longrightarrow> v < 2 ^ 32 \<Longrightarrow> low31 v = v mod 2 ^ 31"
  unfolding low31_def by (rule unset_high_bit) simp_all

lemma low31_bounds: "0 \<le> v \<Longrightarrow> v < 2 ^ 32 \<Longrightarrow> 0 \<le> low31 v \<and> low31 v < 2 ^ 31"
  by (simp add: low31_eq)

lemma join31_bounds: "0 \<le> v \<Longrightarrow> v < 2 ^ 31 \<Longrightarrow> 0 \<le> join31 b v \<and> join31 b v < 2 ^ 32"
  by (simp add: join31_eq of_bool_def)

lemma low31_join31 [printed_simps]: "0 \<le> v \<Longrightarrow> v < 2 ^ 31 \<Longrightarrow> low31 (join31 b v) = v"
  using low31_eq [of "join31 b v"] join31_bounds [of v b] by (simp add: join31_eq of_bool_def)

lemma high_bit31_join31 [printed_simps]: "0 \<le> v \<Longrightarrow> v < 2 ^ 31 \<Longrightarrow> high_bit31 (join31 b v) = b"
  by (simp add: high_bit31_def join31_eq drop_bit_eq_div of_bool_def)

lemma join31_split: "0 \<le> v \<Longrightarrow> v < 2 ^ 32 \<Longrightarrow> join31 (high_bit31 v) (low31 v) = v"
proof -
  assume v: "0 \<le> v" "v < 2 ^ 32"
  then have "v div 2 ^ 31 = 0 \<or> v div 2 ^ 31 = 1" by simp linarith
  then have "of_bool (high_bit31 v) = v div 2 ^ 31"
    by (auto simp: high_bit31_def drop_bit_eq_div)
  then show ?thesis
    using low31_bounds [OF v] by (simp add: join31_eq low31_eq [OF v])
qed

section \<open>Flags and bytes\<close>

text \<open>The flags are the bits of the byte, the first field the highest.\<close>

lemma flag_bits_sum:
  "sum_list (map2 (\<lambda>i b. push_bit (7 - i) (of_bool b)) [0..<8] (flag_list f)) =
     (horner_sum of_bool 2 (rev (flag_list f)) :: int)"
  by (simp add: flag_list_def upt_rec numeral_eq_Suc push_bit_eq_mult)

lemma flag_bits_bounds:
  "0 \<le> (horner_sum of_bool 2 (rev (flag_list f)) :: int)"
  "(horner_sum of_bool 2 (rev (flag_list f)) :: int) < 256"
  by (simp_all add: flag_list_def of_bool_def)

lemma H2Flags_to_bytes_ok:
  "H2Flags_to_bytes f = Inr [word_of_int (horner_sum of_bool 2 (rev (flag_list f)))]"
  using flag_bits_bounds [of f]
  by (simp only: H2Flags_to_bytes_def flag_bits_sum bytes_of_ints_def) simp

lemma H2Flags_parse_int_bits:
  assumes "0 \<le> data" and "data < 256"
  shows "\<exists>f. H2Flags_parse_int data = Inr f \<and> rev (flag_list f) = map (bit data) [0..<8]"
proof -
  have "[0..<8] = [0, 1, 2, 3, 4, 5, 6, 7 :: nat]"
    by (simp add: upt_rec)
  with assms show ?thesis
    by (simp add: H2Flags_parse_int_def Let_def flag_list_def and_one_eq
        odd_iff_mod_2_eq_one [symmetric] bit_iff_odd_drop_bit)
qed

lemma bits_of_horner_sum:
  "map (bit (horner_sum of_bool 2 bs :: int)) [0..<length bs] = bs"
  by (rule nth_equalityI) (simp_all add: bit_horner_sum_bit_iff)

lemma length_flag_list: "length (flag_list f) = 8"
  by (simp add: flag_list_def)

lemma flag_list_inj: "flag_list f = flag_list g \<Longrightarrow> f = g"
  by (cases f; cases g) (simp add: flag_list_def)

lemma H2Flags_parse_printed:
  "H2Flags_to_bytes f = Inr bs \<Longrightarrow> \<exists>b. bs = [b] \<and> H2Flags_parse_int (uint b) = Inr f"
proof -
  let ?v = "horner_sum of_bool 2 (rev (flag_list f)) :: int"
  assume "H2Flags_to_bytes f = Inr bs"
  then have bs: "bs = [word_of_int ?v]"
    by (simp add: H2Flags_to_bytes_ok)
  have v: "uint (word_of_int ?v :: byte) = ?v"
    using flag_bits_bounds [of f] by (simp add: uint_word_of_int_byte)
  obtain g where g: "H2Flags_parse_int ?v = Inr g" and bits: "rev (flag_list g) = map (bit ?v) [0..<8]"
    using H2Flags_parse_int_bits [OF flag_bits_bounds] by blast
  have "map (bit ?v) [0..<8] = rev (flag_list f)"
    using bits_of_horner_sum [of "rev (flag_list f)"] by (simp add: length_flag_list)
  with bits have "g = f"
    by (intro flag_list_inj) (metis rev_rev_ident)
  with g v bs show ?thesis by simp
qed

lemma H2Flags_print_parsed:
  "H2Flags_parse_int (uint b) = Inr f \<Longrightarrow> H2Flags_to_bytes f = Inr [b]"
proof -
  assume parsed: "H2Flags_parse_int (uint b) = Inr f"
  with H2Flags_parse_int_bits [of "uint b"] uint_byte_bounds [of b]
  have "rev (flag_list f) = map (bit (uint b)) [0..<8]"
    by auto
  then have "horner_sum of_bool 2 (rev (flag_list f)) = uint b"
    using uint_byte_bounds [of b]
    by (simp add: horner_sum_bit_eq_take_bit take_bit_int_eq_self)
  then show ?thesis
    by (simp add: H2Flags_to_bytes_ok)
qed

section \<open>Names and integers\<close>

definition hex_value :: "char \<Rightarrow> nat" where
  "hex_value c = (if of_char c < (58::nat) then of_char c - 48 else of_char c - 87)"

lemma hex_value_digit: "n < 16 \<Longrightarrow> hex_value (hex_digit (int n)) = n"
proof -
  have "list_all (\<lambda>n. hex_value (hex_digit (int n)) = n) [0..<16]"
    by code_simp
  then show "n < 16 \<Longrightarrow> hex_value (hex_digit (int n)) = n"
    by (simp add: list_all_iff)
qed

lemma hex_digits_value: "foldl (\<lambda>a c. 16 * a + hex_value c) 0 (hex_digits n) = n"
proof (induction n rule: hex_digits.induct)
  case (1 n)
  show ?case
  proof (cases "n < 16")
    case True
    then show ?thesis by (simp add: hex_digits.simps [of n] hex_value_digit)
  next
    case False
    with 1 show ?thesis
      by (simp add: hex_digits.simps [of n] hex_value_digit flip: of_nat_mod)
  qed
qed

lemma hex_digits_inj: "hex_digits m = hex_digits n \<Longrightarrow> m = n"
  using hex_digits_value by metis

lemma hex_inj: "hex i = hex j \<Longrightarrow> i = j"
  by (auto simp: hex_def split: if_splits dest!: hex_digits_inj)

lemma named_int_repr_inj:
  assumes "distinct (map snd names)" and "named_int_repr cls names i = named_int_repr cls names j"
  shows "i = j"
proof -
  have "i = j" if "map_of names i = Some n" "map_of names j = Some n" for n
  proof -
    from that have "(i, n) \<in> set names" "(j, n) \<in> set names"
      by (auto dest: map_of_SomeD)
    with assms(1) show ?thesis
      by (metis distinct_map fst_conv inj_onD snd_conv)
  qed
  with assms(2) show ?thesis
    by (auto simp: named_int_repr_def split: option.splits dest!: hex_inj)
qed

section \<open>Properties\<close>

text \<open>Flags and bytes are in bijection. \<open>H2Flags.to_bytes\<close> gives one byte for all 256 values of
  the flags, \<open>H2Flags.parse\<close> accepts every byte, and each undoes the other, so no flag bit of a frame
  is lost or invented, the unused ones included. Parsing a byte string that is not one byte long, or
  an integer that is not a byte, is an \<open>H2Error\<close>.\<close>

theorem flags_byte_bijection:
  "(\<exists>b. H2Flags_to_bytes f = Inr [b]) \<and> (\<exists>g. H2Flags_parse_int (uint b) = Inr g) \<and>
    (H2Flags_to_bytes f = Inr [b] \<longleftrightarrow> H2Flags_parse_bytes [b] = Inr f) \<and>
    (H2Flags_parse_int i = Inl H2Error \<longleftrightarrow> i < 0 \<or> 256 \<le> i) \<and>
    (H2Flags_parse_bytes bs = Inl H2Error \<longleftrightarrow> length bs \<noteq> 1)"
proof (intro conjI)
  show "\<exists>b. H2Flags_to_bytes f = Inr [b]"
    by (simp add: H2Flags_to_bytes_ok)
  show "\<exists>g. H2Flags_parse_int (uint b) = Inr g"
    using H2Flags_parse_int_bits uint_byte_bounds by blast
  show "H2Flags_to_bytes f = Inr [b] \<longleftrightarrow> H2Flags_parse_bytes [b] = Inr f"
    using H2Flags_parse_printed [of f "[b]"] H2Flags_print_parsed [of b f]
    by (auto simp: H2Flags_parse_bytes_def)
  show "H2Flags_parse_int i = Inl H2Error \<longleftrightarrow> i < 0 \<or> 256 \<le> i"
    by (auto simp: H2Flags_parse_int_def Let_def)
  show "H2Flags_parse_bytes bs = Inl H2Error \<longleftrightarrow> length bs \<noteq> 1"
    using uint_byte_bounds [of "bs ! 0"] by (auto simp: H2Flags_parse_bytes_def H2Flags_parse_int_def Let_def)
qed

text \<open>The printed form of an error code, a setting or a frame type determines its integer: no
  two values print alike, named or not.\<close>

theorem named_integers_print_apart:
  "(H2ErrorCode_repr i = H2ErrorCode_repr j \<longleftrightarrow> i = j) \<and>
    (H2Setting_repr i = H2Setting_repr j \<longleftrightarrow> i = j) \<and>
    (H2FrameType_repr i = H2FrameType_repr j \<longleftrightarrow> i = j)"
proof -
  have "distinct (map snd H2ErrorCode_names)" "distinct (map snd H2Setting_names)"
    "distinct (map snd H2FrameType_names)"
    by code_simp+
  then show ?thesis
    unfolding H2ErrorCode_repr_def H2Setting_repr_def H2FrameType_repr_def
    using named_int_repr_inj by metis
qed

end
