(* ===== verification/Http2Frames.thy ===== *)
theory Http2Frames
  imports Http2Base Codec
begin

text \<open>
  \<open>tools/http2.py\<close>, the class \<open>H2GenericFrame\<close>: any frame at all, as the header fields of RFC
  9113 section 4.1 and a payload that is not looked into. The frames and the byte strings that parse
  are in bijection, for one frame and for a stream of them.
\<close>

section \<open>Frames\<close>

record h2_generic_frame =
  ftyp :: int
  flags :: h2_flags
  reserved :: bool
  stream_id :: int
  payload :: bytes

text \<open>The constructor with the checks of \<open>__post_init__\<close>.\<close>

definition H2GenericFrame :: "int \<Rightarrow> h2_flags \<Rightarrow> bool \<Rightarrow> int \<Rightarrow> bytes \<Rightarrow> h2_generic_frame result" where
  "H2GenericFrame ty fl res sid pl =
     bindE (check_stream_id sid True False) (\<lambda>_.
     if int (length pl) \<ge> push_bit 24 1 then Inl H2Error
     else Inr \<lparr>ftyp = ty, flags = fl, reserved = res, stream_id = sid, payload = pl\<rparr>)"

text \<open>An exhausted iterator is a \<open>StopIteration\<close> before the first byte, an \<open>H2Error\<close> after it.\<close>

definition next_or_H2Error :: "byte parser" where
  "next_or_H2Error it =
     (case next_byte it of Inl e \<Rightarrow> if e = StopIteration then Inl H2Error else Inl e | Inr r \<Rightarrow> Inr r)"

definition H2GenericFrame_parse :: "h2_generic_frame parser" where
  "H2GenericFrame_parse inp =
     bindE (next_byte inp) (\<lambda>(first_byte, inp).
     let inp = first_byte # inp in
     bindE (bslice 3 inp) (\<lambda>(raw_length, inp).
     let len = int_from_bytes raw_length in
     bindE (next_or_H2Error inp) (\<lambda>(ty, inp).
     bindE (next_or_H2Error inp) (\<lambda>(raw_flags, inp).
     bindE (H2Flags_parse_int (uint raw_flags)) (\<lambda>fl.
     bindE (bslice 4 inp) (\<lambda>(raw, inp).
     let raw_stream_id = int_from_bytes raw in
     let res = high_bit31 raw_stream_id in
     bindE (bslice len inp) (\<lambda>(pl, inp).
     bindE (H2GenericFrame (uint ty) fl res (low31 raw_stream_id) pl) (\<lambda>f. Inr (f, inp)))))))))"

definition H2GenericFrame_to_bytes :: "h2_generic_frame \<Rightarrow> bytes result" where
  "H2GenericFrame_to_bytes f =
     bindE (int_to_bytes 3 (int (length (payload f)))) (\<lambda>len.
     bindE (int_to_bytes 1 (ftyp f)) (\<lambda>ty.
     bindE (H2Flags_to_bytes (flags f)) (\<lambda>fl.
     bindE (int_to_bytes 4 (join31 (reserved f) (stream_id f))) (\<lambda>sid.
       Inr (len @ ty @ fl @ sid @ payload f)))))"

text \<open>The setters change a deep copy.\<close>

definition set_reserved :: "h2_generic_frame \<Rightarrow> bool \<Rightarrow> h2_generic_frame" where
  "set_reserved f val = f\<lparr>reserved := val\<rparr>"

definition set_padded :: "h2_generic_frame \<Rightarrow> bool \<Rightarrow> h2_generic_frame" where
  "set_padded f val = f\<lparr>flags := (flags f)\<lparr>padded := val\<rparr>\<rparr>"

definition set_priority :: "h2_generic_frame \<Rightarrow> bool \<Rightarrow> h2_generic_frame" where
  "set_priority f val = f\<lparr>flags := (flags f)\<lparr>priority := val\<rparr>\<rparr>"

definition set_payload :: "h2_generic_frame \<Rightarrow> bytes \<Rightarrow> h2_generic_frame" where
  "set_payload f val = f\<lparr>payload := val\<rparr>"

section \<open>Printing and parsing a frame\<close>

text \<open>The frames that can be on the wire: what the constructor accepts, with a type that is a byte.\<close>

definition wire_frame :: "h2_generic_frame \<Rightarrow> bool" where
  "wire_frame f \<longleftrightarrow> 0 \<le> ftyp f \<and> ftyp f < 256 \<and> 0 \<le> stream_id f \<and> stream_id f < 2 ^ 31 \<and>
     int (length (payload f)) < 2 ^ 24"

lemma H2GenericFrame_Inr: "H2GenericFrame ty fl res sid pl = Inr f \<longleftrightarrow>
    0 \<le> sid \<and> sid < 2 ^ 31 \<and> int (length pl) < 2 ^ 24 \<and>
    f = \<lparr>ftyp = ty, flags = fl, reserved = res, stream_id = sid, payload = pl\<rparr>"
  by (auto simp: H2GenericFrame_def bindE_eq_Inr push_bit_of_1 split: if_splits)

lemma H2GenericFrame_again:
  "0 \<le> stream_id f \<Longrightarrow> stream_id f < 2 ^ 31 \<Longrightarrow> int (length (payload f)) < 2 ^ 24 \<Longrightarrow>
     H2GenericFrame (ftyp f) (flags f) (reserved f) (stream_id f) (payload f) = Inr f"
  by (subst H2GenericFrame_Inr) simp

lemma H2GenericFrame_Inl: "H2GenericFrame ty fl res sid pl = Inl e \<Longrightarrow> e = H2Error"
  by (auto simp: H2GenericFrame_def bindE_eq_Inl check_errors split: if_splits)

lemma next_or_H2Error_Cons [simp]: "next_or_H2Error (b # it) = Inr (b, it)"
  by (simp add: next_or_H2Error_def)

lemma next_or_H2Error_Inr: "next_or_H2Error it = Inr (b, it') \<longleftrightarrow> it = b # it'"
  by (auto simp: next_or_H2Error_def next_byte_def split: list.splits if_splits)

lemma next_or_H2Error_Inl: "next_or_H2Error it = Inl e \<longleftrightarrow> it = [] \<and> e = H2Error"
  by (auto simp: next_or_H2Error_def next_byte_def split: list.splits if_splits)

lemma byte_of_int_to_bytes: "int_to_bytes 1 v = Inr bs \<Longrightarrow> \<exists>b. bs = [b] \<and> uint b = v"
  by (auto simp: int_to_bytes_Inr numeral_eq_Suc uint_word_of_int_byte)

lemma int_to_bytes_byte: "int_to_bytes 1 (uint (b :: byte)) = Inr [b]"
  using int_to_bytes_int_from_bytes [of "[b]" 1] by (simp add: int_from_bytes_def)

lemmas int_to_bytes_byte_Suc = int_to_bytes_byte [unfolded One_nat_def]

lemma wire_frame_prints: "wire_frame f \<longleftrightarrow> (\<exists>bs. H2GenericFrame_to_bytes f = Inr bs)"
  if "0 \<le> stream_id f" and "stream_id f < 2 ^ 31"
proof -
  have "\<exists>fl. H2Flags_to_bytes (flags f) = Inr fl" and "0 \<le> join31 (reserved f) (stream_id f)"
    and "join31 (reserved f) (stream_id f) < 2 ^ 32"
    using H2Flags_to_bytes_ok join31_bounds [OF that] by blast+
  with that show ?thesis
    by (auto simp: H2GenericFrame_to_bytes_def bindE_eq_Inr int_to_bytes_Inr wire_frame_def)
qed

lemma frame_print_parse:
  assumes "wire_frame f" and "H2GenericFrame_to_bytes f = Inr bs"
  shows "H2GenericFrame_parse (bs @ rest) = Inr (f, rest)"
proof -
  let ?raw = "join31 (reserved f) (stream_id f)"
  have w: "0 \<le> stream_id f" "stream_id f < 2 ^ 31" "int (length (payload f)) < 2 ^ 24"
    using assms(1) by (simp_all add: wire_frame_def)
  from assms(2) obtain len ty fl sid where p: "int_to_bytes 3 (int (length (payload f))) = Inr len"
    "int_to_bytes 1 (ftyp f) = Inr ty" "H2Flags_to_bytes (flags f) = Inr fl" "int_to_bytes 4 ?raw = Inr sid"
    and bs: "bs = len @ ty @ fl @ sid @ payload f"
    by (auto simp: H2GenericFrame_to_bytes_def bindE_eq_Inr)
  obtain t where t: "ty = [t]" "uint t = ftyp f"
    using byte_of_int_to_bytes [OF p(2)] by blast
  obtain b where b: "fl = [b]" "H2Flags_parse_int (uint b) = Inr (flags f)"
    using H2Flags_parse_printed [OF p(3)] by blast
  obtain l0 l1 l2 where len: "len = [l0, l1, l2]"
    using int_to_bytes_length [OF p(1)] by (auto simp: numeral_eq_Suc length_Suc_conv)
  have max: "int (length (payload f)) \<le> sys_maxsize"
    using w(3) by (simp add: sys_maxsize_def)
  have "bslice 3 (len @ r) = Inr (len, r)" and "bslice 4 (sid @ r) = Inr (sid, r)"
    and "bslice (int (length (payload f))) (payload f @ r) = Inr (payload f, r)" for r
    using int_to_bytes_length [OF p(1)] int_to_bytes_length [OF p(4)] max
    by (simp_all add: bslice_append sys_maxsize_def)
  then show ?thesis
    using w t b len int_to_bytes_roundtrip [OF p(1)] int_to_bytes_roundtrip [OF p(4)]
    by (simp add: bs H2GenericFrame_parse_def Let_def low31_join31 high_bit31_join31 H2GenericFrame_again)
qed

lemma frame_parse_print:
  assumes "H2GenericFrame_parse it = Inr (f, rest)"
  shows "wire_frame f \<and> (\<exists>bs. H2GenericFrame_to_bytes f = Inr bs \<and> it = bs @ rest \<and> bs \<noteq> [])"
proof -
  from assms obtain len t b fl sid pl where
    it: "it = len @ t # b # sid @ pl @ rest" and len: "length len = 3" "int (length pl) = int_from_bytes len"
    and fl: "H2Flags_parse_int (uint b) = Inr fl" and sid: "length sid = 4"
    and f: "H2GenericFrame (uint t) fl (high_bit31 (int_from_bytes sid)) (low31 (int_from_bytes sid)) pl = Inr f"
    by (auto simp: H2GenericFrame_parse_def bindE_eq_Inr next_byte_Inr next_or_H2Error_Inr bslice_Inr Let_def)
  have raw: "0 \<le> int_from_bytes sid" "int_from_bytes sid < 2 ^ 32"
    using int_from_bytes_less [of sid] sid by simp_all
  have "int_to_bytes 3 (int (length pl)) = Inr len" "int_to_bytes 4 (int_from_bytes sid) = Inr sid"
    using len sid by (simp_all add: int_to_bytes_int_from_bytes)
  then show ?thesis
    using f fl it uint_byte_bounds [of t]
    by (auto simp: H2GenericFrame_Inr H2GenericFrame_to_bytes_def wire_frame_def int_to_bytes_byte_Suc
        H2Flags_print_parsed join31_split [OF raw])
qed

lemma frame_parse_errors:
  "H2GenericFrame_parse it = Inl e \<Longrightarrow> it = [] \<and> e = StopIteration \<or> it \<noteq> [] \<and> e = H2Error"
proof (cases it)
  case (Cons b bs)
  assume "H2GenericFrame_parse it = Inl e"
  moreover have "bslice (int_from_bytes l) r = Inl e \<Longrightarrow> length l = 3 \<Longrightarrow> e = H2Error" for l r e
    using int_from_bytes_bounds [of l] by (simp add: bslice_Inl sys_maxsize_def leD split: if_splits)
  moreover have "H2Flags_parse_int (uint b) \<noteq> Inl e" for b :: byte
    using uint_byte_bounds [of b] by (simp add: H2Flags_parse_int_def Let_def)
  ultimately show ?thesis
    using Cons by (auto simp: H2GenericFrame_parse_def bindE_eq_Inl Let_def next_or_H2Error_Inl bslice_Inr
        bslice_Inl [where n = 3] bslice_Inl [where n = 4] sys_maxsize_def dest: H2GenericFrame_Inl)
qed (simp add: H2GenericFrame_parse_def)

section \<open>A stream of frames\<close>

lemma H2GenericFrame_parse_shorter [shorter_dests]:
  "H2GenericFrame_parse it = Inr (f, rest) \<Longrightarrow> length rest < length it"
  using frame_parse_print by fastforce

function parse_generic_frames :: "bytes \<Rightarrow> h2_generic_frame list result" where
  "parse_generic_frames it =
     (case H2GenericFrame_parse it of
        Inl e \<Rightarrow> if e = StopIteration then Inr [] else Inl e
      | Inr (f, it') \<Rightarrow> bindE (parse_generic_frames it') (\<lambda>fs. Inr (f # fs)))"
  by pat_completeness auto
termination
  by (relation "measure length") (auto dest: H2GenericFrame_parse_shorter)

declare parse_generic_frames.simps [simp del]

interpretation h2_stream: exact_stream H2GenericFrame_to_bytes H2GenericFrame_parse "\<lambda>f. f" wire_frame
    parse_generic_frames
proof
  show "H2GenericFrame_parse (bs @ rest) = Inr (x, rest)"
    if "wire_frame x" and "H2GenericFrame_to_bytes x = Inr bs" for x bs rest
    using that by (rule frame_print_parse)
  show "H2GenericFrame_parse [] = Inl StopIteration"
    by (simp add: H2GenericFrame_parse_def)
  show "parse_generic_frames it = (case H2GenericFrame_parse it of
      Inl e \<Rightarrow> if e = StopIteration then Inr [] else Inl e
    | Inr (x, it') \<Rightarrow> bindE (parse_generic_frames it') (\<lambda>xs. Inr (x # xs)))" for it
    by (rule parse_generic_frames.simps)
  show "\<exists>bs. H2GenericFrame_to_bytes x = Inr bs \<and> it = bs @ rest"
    if "H2GenericFrame_parse it = Inr (x, rest)" for it x rest
    using frame_parse_print [OF that] by blast
  show "length it' < length it" if "H2GenericFrame_parse it = Inr (x, it')" for it x it'
    using that by (rule H2GenericFrame_parse_shorter)
  show "it = []" if "H2GenericFrame_parse it = Inl StopIteration" for it
    using frame_parse_errors [OF that] by simp
qed

lemma parsed_frames_wire: "parse_generic_frames it = Inr fs \<Longrightarrow> f \<in> set fs \<Longrightarrow> wire_frame f"
proof (induction it arbitrary: fs rule: parse_generic_frames.induct)
  case (1 it)
  show ?case
  proof (cases "H2GenericFrame_parse it")
    case (Inl e)
    with 1(2,3) show ?thesis by (simp add: parse_generic_frames.simps [of it] split: if_splits)
  next
    case (Inr r)
    obtain g rest where r: "r = (g, rest)" by (cases r)
    with 1(2) Inr obtain gs where "parse_generic_frames rest = Inr gs" and "fs = g # gs"
      by (auto simp: parse_generic_frames.simps [of it] bindE_eq_Inr)
    with 1 Inr r frame_parse_print [of it g rest] show ?thesis by auto
  qed
qed

section \<open>Properties\<close>

text \<open>Every frame the constructor accepts, with a type that is a byte, prints as its payload and a
  9 byte header, whatever its flags, reserved bit and payload, and parses back as itself with
  nothing of the following input consumed.\<close>

theorem generic_frame_print_parse:
  assumes "H2GenericFrame ty fl res sid pl = Inr f" and "0 \<le> ty" and "ty < 256"
  shows "\<exists>bs. H2GenericFrame_to_bytes f = Inr bs \<and> length bs = 9 + length pl \<and>
    H2GenericFrame_parse (bs @ rest) = Inr (f, rest)"
proof -
  from assms have w: "wire_frame f" and pl: "payload f = pl"
    by (auto simp: H2GenericFrame_Inr wire_frame_def)
  then obtain bs where bs: "H2GenericFrame_to_bytes f = Inr bs"
    using wire_frame_prints [of f] by (auto simp: wire_frame_def)
  then have "length bs = 9 + length pl"
    by (auto simp: H2GenericFrame_to_bytes_def bindE_eq_Inr pl H2Flags_to_bytes_ok dest!: int_to_bytes_length)
  with bs frame_print_parse [OF w bs] show ?thesis by blast
qed

theorem generic_frame_print_parse_witness:
  "\<exists>bs. H2GenericFrame_to_bytes \<lparr>ftyp = 200, flags = H2Flags\<lparr>unused7 := True\<rparr>, reserved = True,
      stream_id = 7, payload = [1, 2, 3]\<rparr> = Inr bs \<and> length bs = 12 \<and>
    H2GenericFrame_parse (bs @ [9]) = Inr (\<lparr>ftyp = 200, flags = H2Flags\<lparr>unused7 := True\<rparr>,
      reserved = True, stream_id = 7, payload = [1, 2, 3]\<rparr>, [9])"
  using generic_frame_print_parse
    [of 200 "H2Flags\<lparr>unused7 := True\<rparr>" True 7 "[1, 2, 3]" "\<lparr>ftyp = 200,
      flags = H2Flags\<lparr>unused7 := True\<rparr>, reserved = True, stream_id = 7, payload = [1, 2, 3]\<rparr>" "[9]"]
  by (simp add: H2GenericFrame_Inr)

text \<open>C4: the streams \<open>parse_generic_frames\<close> accepts are the concatenations of printed frames, and
  nothing else: it returns the frames \<open>fs\<close> exactly on the input that printing \<open>fs\<close> produces. No
  byte of the input is dropped, and no two inputs give the same frames.\<close>

theorem frame_stream_exact:
  "parse_generic_frames it = Inr fs \<longleftrightarrow>
     list_all wire_frame fs \<and> (\<exists>bss. mapE H2GenericFrame_to_bytes fs = Inr bss \<and> it = concat bss)"
proof
  assume parsed: "parse_generic_frames it = Inr fs"
  have "list_all wire_frame fs"
    using parsed_frames_wire [OF parsed] by (simp add: list_all_iff)
  with h2_stream.parse_all_exact [OF parsed]
  show "list_all wire_frame fs \<and> (\<exists>bss. mapE H2GenericFrame_to_bytes fs = Inr bss \<and> it = concat bss)"
    by blast
next
  assume "list_all wire_frame fs \<and> (\<exists>bss. mapE H2GenericFrame_to_bytes fs = Inr bss \<and> it = concat bss)"
  then show "parse_generic_frames it = Inr fs"
    using h2_stream.parse_all_concat [of fs] by (auto simp: list_all_iff)
qed

text \<open>A stream that ends inside a frame is an \<open>H2Error\<close>, wherever it is cut, and there is no other
  error: the \<open>StopIteration\<close> that ends the loop comes from a frame boundary only.\<close>

theorem truncated_stream_is_an_error:
  assumes "wire_frame f" and "H2GenericFrame_to_bytes f = Inr bs" and "0 < n" and "n < length bs"
    and "parse_generic_frames pre = Inr fs"
  shows "parse_generic_frames (pre @ take n bs) = Inl H2Error"
proof -
  have "H2GenericFrame_parse (take n bs) = Inl H2Error"
  proof (cases "H2GenericFrame_parse (take n bs)")
    case (Inl e)
    moreover have "take n bs \<noteq> []" using assms(3,4) by auto
    ultimately show ?thesis using frame_parse_errors [OF Inl] by simp
  next
    case (Inr r)
    obtain g rest where r: "r = (g, rest)" by (cases r)
    then obtain cs where g: "wire_frame g" "H2GenericFrame_to_bytes g = Inr cs" "take n bs = cs @ rest"
      using Inr frame_parse_print [of "take n bs" g rest] by auto
    then have "bs @ [] = cs @ (rest @ drop n bs)"
      by (metis append.assoc append.right_neutral append_take_drop_id)
    then have "rest @ drop n bs = []"
      using h2_stream.print_prefix_free [OF assms(1) g(1) assms(2) g(2)] by blast
    with assms(4) show ?thesis by simp
  qed
  then have cut: "parse_generic_frames (take n bs) = Inl H2Error"
    by (simp add: parse_generic_frames.simps [of "take n bs"])
  from assms(5) have "\<forall>x \<in> set fs. wire_frame x"
    and "\<exists>bss. mapE H2GenericFrame_to_bytes fs = Inr bss \<and> pre = concat bss"
    by (simp_all add: parsed_frames_wire h2_stream.parse_all_exact)
  then show ?thesis
    using h2_stream.parse_all_prints [of fs _ "take n bs"] cut by auto
qed

theorem truncated_stream_is_an_error_witness:
  "\<exists>bs. H2GenericFrame_to_bytes \<lparr>ftyp = 6, flags = H2Flags, reserved = False, stream_id = 0,
      payload = [1, 2]\<rparr> = Inr bs \<and> parse_generic_frames (take 10 bs) = Inl H2Error"
proof -
  let ?f = "\<lparr>ftyp = 6, flags = H2Flags, reserved = False, stream_id = 0, payload = [1, 2]\<rparr>"
  have w: "wire_frame ?f" by (simp add: wire_frame_def)
  then obtain bs where bs: "H2GenericFrame_to_bytes ?f = Inr bs"
    using wire_frame_prints [of ?f] by auto
  then have "length bs = 11"
    by (auto simp: H2GenericFrame_to_bytes_def bindE_eq_Inr H2Flags_to_bytes_ok dest!: int_to_bytes_length)
  with truncated_stream_is_an_error [OF w bs, of 10 "[]" "[]"] bs show ?thesis
    by (simp add: h2_stream.parse_all_Nil)
qed

end
