(* ===== verification/Http2Typed.thy ===== *)
theory Http2Typed
  imports Http2Frames
begin

text \<open>
  \<open>tools/http2.py\<close>, the ten typed frame classes of RFC 9113 section 6, each with the checks of its
  constructor, \<open>from_h2frame\<close> and \<open>to_generic\<close>, and \<open>specialize\<close> and \<open>parse_frames\<close>, which read
  typed frames from generic ones. The lemmas show that what a class prints it reads back, that the
  frames read are in a normal form, and which frames make \<open>specialize\<close> raise.
\<close>

section \<open>The classes\<close>

text \<open>One constructor per class, with the attributes in the order the class declares them.\<close>

datatype h2_frame =
    Generic h2_generic_frame
  | DataFrame bool int bytes "int option"
  | HeadersFrame bool bool int "bool option" "int option" "int option" bytes "int option"
  | PriorityFrame int bool int int
  | RstStreamFrame int int
  | SettingsFrame bool "(int \<times> int) list"
  | PushPromiseFrame bool int int bytes "int option"
  | PingFrame bool bytes
  | GoAwayFrame int int bytes
  | WindowUpdateFrame int int
  | ContinuationFrame bool int bytes

subsection \<open>DATA\<close>

definition H2DataFrame :: "bool \<Rightarrow> int \<Rightarrow> bytes \<Rightarrow> int option \<Rightarrow> h2_frame result" where
  "H2DataFrame end_stream sid data pad_length =
     bindE (check_pad_length pad_length) (\<lambda>_.
     bindE (check_stream_id sid False False) (\<lambda>_.
       Inr (DataFrame end_stream sid data pad_length)))"

text \<open>The padding after the data of DATA, HEADERS and PUSH_PROMISE, when the frame has one.\<close>

definition read_padding :: "int option \<Rightarrow> bytes \<Rightarrow> bytes result" where
  "read_padding pad_length inp =
     (case pad_length of None \<Rightarrow> Inr inp
      | Some n \<Rightarrow> bindE (bslice n inp) (\<lambda>(pad, inp). bindE (check_padding pad n) (\<lambda>_. Inr inp)))"

definition H2DataFrame_from_h2frame :: "h2_generic_frame \<Rightarrow> h2_frame result" where
  "H2DataFrame_from_h2frame frame =
     bindE (check_frame_type (ftyp frame) 0) (\<lambda>_.
     let len = int (length (payload frame)) in
     bindE (raise_if (padded (flags frame) \<and> length (payload frame) = 0) H2Error) (\<lambda>_.
     bindE (if padded (flags frame)
            then bindE (next_byte (payload frame)) (\<lambda>(n, inp). Inr (Some (uint n), inp))
            else Inr (None, payload frame)) (\<lambda>(pad_length, inp).
     bindE (bslice (len - (case pad_length of Some n \<Rightarrow> n + 1 | None \<Rightarrow> 0)) inp) (\<lambda>(data, inp).
     bindE (read_padding pad_length inp) (\<lambda>inp.
     bindE (raise_if (length inp \<noteq> 0) H2Error) (\<lambda>_.
       H2DataFrame (end_stream_or_ack (flags frame)) (stream_id frame) data pad_length))))))"

text \<open>\<open>b"".join((pad_length.to_bytes(1), payload, bytes(pad_length)))\<close>.\<close>

definition add_padding :: "int option \<Rightarrow> bytes \<Rightarrow> bytes result" where
  "add_padding pad_length pl =
     (case pad_length of None \<Rightarrow> Inr pl
      | Some n \<Rightarrow> bindE (int_to_bytes 1 n) (\<lambda>p. Inr (p @ pl @ replicate (nat n) 0)))"

definition H2DataFrame_to_generic :: "bool \<Rightarrow> int \<Rightarrow> bytes \<Rightarrow> int option \<Rightarrow> h2_generic_frame result" where
  "H2DataFrame_to_generic end_stream sid data pad_length =
     bindE (add_padding pad_length data) (\<lambda>pl.
       H2GenericFrame 0 (H2Flags\<lparr>end_stream_or_ack := end_stream, padded := pad_length \<noteq> None\<rparr>)
         False sid pl)"

subsection \<open>HEADERS\<close>

definition H2HeadersFrame ::
  "bool \<Rightarrow> bool \<Rightarrow> int \<Rightarrow> bool option \<Rightarrow> int option \<Rightarrow> int option \<Rightarrow> bytes \<Rightarrow> int option \<Rightarrow> h2_frame result" where
  "H2HeadersFrame eh es sid exclusive stream_dependency weight fragment pad_length =
     bindE (check_stream_id sid False False) (\<lambda>_.
     bindE (check_priority exclusive stream_dependency weight) (\<lambda>_.
     bindE (check_pad_length pad_length) (\<lambda>_.
       Inr (HeadersFrame eh es sid exclusive stream_dependency weight fragment pad_length))))"

text \<open>The property \<open>priority\<close> of the class.\<close>

definition headers_priority :: "bool option \<Rightarrow> int option \<Rightarrow> int option \<Rightarrow> bool" where
  "headers_priority exclusive stream_dependency weight \<longleftrightarrow>
     exclusive \<noteq> None \<and> stream_dependency \<noteq> None \<and> weight \<noteq> None"

text \<open>The padding length in front, for a prefix of the payload that must fit.\<close>

definition read_pad_length :: "bool \<Rightarrow> int \<Rightarrow> bytes \<Rightarrow> (int option \<times> bytes) result" where
  "read_pad_length is_padded prefix_len pl =
     (if is_padded then
        bindE (raise_if (prefix_len > int (length pl)) H2Error) (\<lambda>_.
        bindE (next_byte pl) (\<lambda>(n, inp). Inr (Some (uint n), inp)))
      else Inr (None, pl))"

text \<open>The priority fields, when the flag is set.\<close>

definition read_priority ::
  "bool \<Rightarrow> int \<Rightarrow> int \<Rightarrow> bytes \<Rightarrow> (int option \<times> bool option \<times> int option \<times> bytes) result" where
  "read_priority is_priority prefix_len len inp =
     (if is_priority then
        bindE (raise_if (prefix_len > len) H2Error) (\<lambda>_.
        bindE (bslice 4 inp) (\<lambda>(raw, inp).
        let raw_stream_dependency = int_from_bytes raw in
        bindE (next_byte inp) (\<lambda>(weight, inp).
          Inr (Some (low31 raw_stream_dependency), Some (high_bit31 raw_stream_dependency),
               Some (uint weight), inp))))
      else Inr (None, None, None, inp))"

definition H2HeadersFrame_from_h2frame :: "h2_generic_frame \<Rightarrow> h2_frame result" where
  "H2HeadersFrame_from_h2frame frame =
     bindE (check_frame_type (ftyp frame) 1) (\<lambda>_.
     let len = int (length (payload frame));
         payload_prefix_len = (if padded (flags frame) then 1 else 0) in
     bindE (read_pad_length (padded (flags frame)) payload_prefix_len (payload frame)) (\<lambda>(pad_length, inp).
     let payload_prefix_len = payload_prefix_len + (if priority (flags frame) then 5 else 0) in
     bindE (read_priority (priority (flags frame)) payload_prefix_len len inp)
       (\<lambda>(stream_dependency, exclusive, weight, inp).
     let fbf_len = len - payload_prefix_len - (case pad_length of Some n \<Rightarrow> n | None \<Rightarrow> 0) in
     bindE (bslice fbf_len inp) (\<lambda>(fragment, inp).
     bindE (read_padding pad_length inp) (\<lambda>inp.
     bindE (raise_if (length inp > 0) H2Error) (\<lambda>_.
       H2HeadersFrame (end_headers (flags frame)) (end_stream_or_ack (flags frame)) (stream_id frame)
         exclusive stream_dependency weight fragment pad_length))))))"

definition H2HeadersFrame_to_generic ::
  "bool \<Rightarrow> bool \<Rightarrow> int \<Rightarrow> bool option \<Rightarrow> int option \<Rightarrow> int option \<Rightarrow> bytes \<Rightarrow> int option \<Rightarrow>
     h2_generic_frame result" where
  "H2HeadersFrame_to_generic eh es sid exclusive stream_dependency weight fragment pad_length =
     bindE (case (exclusive, stream_dependency, weight) of
              (Some x, Some d, Some w) \<Rightarrow>
                bindE (int_to_bytes 4 (join31 x d)) (\<lambda>raw.
                bindE (int_to_bytes 1 w) (\<lambda>wb. Inr (raw @ wb @ fragment)))
            | _ \<Rightarrow> Inr fragment) (\<lambda>pl.
     bindE (add_padding pad_length pl) (\<lambda>pl.
       H2GenericFrame 1
         (H2Flags\<lparr>priority := headers_priority exclusive stream_dependency weight,
            padded := pad_length \<noteq> None, end_stream_or_ack := es, end_headers := eh\<rparr>)
         False sid pl))"

subsection \<open>PRIORITY and RST_STREAM\<close>

definition H2PriorityFrame :: "int \<Rightarrow> bool \<Rightarrow> int \<Rightarrow> int \<Rightarrow> h2_frame result" where
  "H2PriorityFrame sid exclusive stream_dependency weight =
     bindE (check_stream_id sid False False) (\<lambda>_.
     bindE (check_priority (Some exclusive) (Some stream_dependency) (Some weight)) (\<lambda>_.
       Inr (PriorityFrame sid exclusive stream_dependency weight)))"

definition H2PriorityFrame_from_h2frame :: "h2_generic_frame \<Rightarrow> h2_frame result" where
  "H2PriorityFrame_from_h2frame frame =
     bindE (check_frame_type (ftyp frame) 2) (\<lambda>_.
     bindE (raise_if (length (payload frame) \<noteq> 5) H2Error) (\<lambda>_.
       H2PriorityFrame (stream_id frame) (drop_bit 7 (uint (payload frame ! 0)) \<noteq> 0)
         (low31 (int_from_bytes (take 4 (payload frame)))) (uint (payload frame ! 4))))"

definition H2PriorityFrame_to_generic :: "int \<Rightarrow> bool \<Rightarrow> int \<Rightarrow> int \<Rightarrow> h2_generic_frame result" where
  "H2PriorityFrame_to_generic sid exclusive stream_dependency weight =
     bindE (int_to_bytes 4 (join31 exclusive stream_dependency)) (\<lambda>raw.
     bindE (bytes_of_ints [weight]) (\<lambda>w. H2GenericFrame 2 H2Flags False sid (raw @ w)))"

definition H2RstStreamFrame :: "int \<Rightarrow> int \<Rightarrow> h2_frame result" where
  "H2RstStreamFrame sid err =
     bindE (check_stream_id sid False False) (\<lambda>_.
     bindE (check_error_code err) (\<lambda>_. Inr (RstStreamFrame sid err)))"

definition H2RstStreamFrame_from_h2frame :: "h2_generic_frame \<Rightarrow> h2_frame result" where
  "H2RstStreamFrame_from_h2frame frame =
     bindE (check_frame_type (ftyp frame) 3) (\<lambda>_.
     bindE (raise_if (length (payload frame) \<noteq> 4) H2Error) (\<lambda>_.
       H2RstStreamFrame (stream_id frame) (int_from_bytes (payload frame))))"

definition H2RstStreamFrame_to_generic :: "int \<Rightarrow> int \<Rightarrow> h2_generic_frame result" where
  "H2RstStreamFrame_to_generic sid err =
     bindE (int_to_bytes 4 err) (\<lambda>e. H2GenericFrame 3 H2Flags False sid e)"

subsection \<open>SETTINGS\<close>

definition H2SettingsFrame :: "bool \<Rightarrow> (int \<times> int) list \<Rightarrow> h2_frame result" where
  "H2SettingsFrame ack settings =
     bindE (raise_if (ack \<and> length settings > 0) H2Error) (\<lambda>_. Inr (SettingsFrame ack settings))"

text \<open>\<open>payload[i:j]\<close>.\<close>

definition slice :: "nat \<Rightarrow> nat \<Rightarrow> bytes \<Rightarrow> bytes" where
  "slice i j bs = take (j - i) (drop i bs)"

definition setting_at :: "bytes \<Rightarrow> nat \<Rightarrow> int \<times> int" where
  "setting_at pl i = (int_from_bytes (slice i (i + 2) pl), int_from_bytes (slice (i + 2) (i + 6) pl))"

definition H2SettingsFrame_from_h2frame :: "h2_generic_frame \<Rightarrow> h2_frame result" where
  "H2SettingsFrame_from_h2frame frame =
     bindE (check_frame_type (ftyp frame) 4) (\<lambda>_.
     bindE (check_stream_id (stream_id frame) True True) (\<lambda>_.
     bindE (raise_if (length (payload frame) mod 6 \<noteq> 0) H2Error) (\<lambda>_.
       H2SettingsFrame (end_stream_or_ack (flags frame))
         (map (setting_at (payload frame)) (map (\<lambda>k. 6 * k) [0..<length (payload frame) div 6])))))"

definition setting_to_bytes :: "int \<times> int \<Rightarrow> bytes result" where
  "setting_to_bytes s =
     bindE (int_to_bytes 2 (fst s)) (\<lambda>k. bindE (int_to_bytes 4 (snd s)) (\<lambda>v. Inr (k @ v)))"

definition H2SettingsFrame_to_generic :: "bool \<Rightarrow> (int \<times> int) list \<Rightarrow> h2_generic_frame result" where
  "H2SettingsFrame_to_generic ack settings =
     bindE (mapE setting_to_bytes settings) (\<lambda>bss.
       H2GenericFrame 4 (H2Flags\<lparr>end_stream_or_ack := ack\<rparr>) False 0 (concat bss))"

subsection \<open>PUSH_PROMISE\<close>

definition H2PushPromiseFrame :: "bool \<Rightarrow> int \<Rightarrow> int \<Rightarrow> bytes \<Rightarrow> int option \<Rightarrow> h2_frame result" where
  "H2PushPromiseFrame eh sid promised_stream_id fragment pad_length =
     bindE (check_pad_length pad_length) (\<lambda>_.
     bindE (check_stream_id sid False False) (\<lambda>_.
     bindE (check_stream_id promised_stream_id False False) (\<lambda>_.
       Inr (PushPromiseFrame eh sid promised_stream_id fragment pad_length))))"

definition H2PushPromiseFrame_from_h2frame :: "h2_generic_frame \<Rightarrow> h2_frame result" where
  "H2PushPromiseFrame_from_h2frame frame =
     bindE (check_frame_type (ftyp frame) 5) (\<lambda>_.
     let len = int (length (payload frame));
         payload_prefix_len = (if padded (flags frame) then 5 else 4) in
     bindE (read_pad_length (padded (flags frame)) payload_prefix_len (payload frame)) (\<lambda>(pad_length, inp).
     bindE (bslice 4 inp) (\<lambda>(raw_promised_stream_id, inp).
     let promised_stream_id = low31 (int_from_bytes raw_promised_stream_id);
         fbf_len = len - payload_prefix_len - (case pad_length of Some n \<Rightarrow> n | None \<Rightarrow> 0) in
     bindE (bslice fbf_len inp) (\<lambda>(fragment, inp).
     bindE (read_padding pad_length inp) (\<lambda>inp.
     bindE (raise_if (length inp > 0) H2Error) (\<lambda>_.
       H2PushPromiseFrame (end_headers (flags frame)) (stream_id frame) promised_stream_id fragment
         pad_length))))))"

definition H2PushPromiseFrame_to_generic ::
  "bool \<Rightarrow> int \<Rightarrow> int \<Rightarrow> bytes \<Rightarrow> int option \<Rightarrow> h2_generic_frame result" where
  "H2PushPromiseFrame_to_generic eh sid promised_stream_id fragment pad_length =
     bindE (int_to_bytes 4 promised_stream_id) (\<lambda>p.
     bindE (add_padding pad_length (p @ fragment)) (\<lambda>pl.
       H2GenericFrame 5 (H2Flags\<lparr>end_headers := eh, padded := pad_length \<noteq> None\<rparr>) False sid pl))"

subsection \<open>PING and GOAWAY\<close>

definition H2PingFrame :: "bool \<Rightarrow> bytes \<Rightarrow> h2_frame result" where
  "H2PingFrame ack opaque_data =
     bindE (raise_if (length opaque_data \<noteq> 8) H2Error) (\<lambda>_. Inr (PingFrame ack opaque_data))"

definition H2PingFrame_from_h2frame :: "h2_generic_frame \<Rightarrow> h2_frame result" where
  "H2PingFrame_from_h2frame frame =
     bindE (check_frame_type (ftyp frame) 6) (\<lambda>_.
     bindE (check_stream_id (stream_id frame) True True) (\<lambda>_.
       H2PingFrame (end_stream_or_ack (flags frame)) (payload frame)))"

definition H2PingFrame_to_generic :: "bool \<Rightarrow> bytes \<Rightarrow> h2_generic_frame result" where
  "H2PingFrame_to_generic ack opaque_data =
     H2GenericFrame 6 (H2Flags\<lparr>end_stream_or_ack := ack\<rparr>) False 0 opaque_data"

definition H2GoAwayFrame :: "int \<Rightarrow> int \<Rightarrow> bytes \<Rightarrow> h2_frame result" where
  "H2GoAwayFrame last_stream_id err additional_debug_data =
     bindE (check_stream_id last_stream_id True False) (\<lambda>_.
     bindE (check_error_code err) (\<lambda>_. Inr (GoAwayFrame last_stream_id err additional_debug_data)))"

definition H2GoAwayFrame_from_h2frame :: "h2_generic_frame \<Rightarrow> h2_frame result" where
  "H2GoAwayFrame_from_h2frame frame =
     bindE (check_frame_type (ftyp frame) 7) (\<lambda>_.
     bindE (check_stream_id (stream_id frame) True True) (\<lambda>_.
     bindE (raise_if (length (payload frame) < 8) H2Error) (\<lambda>_.
       H2GoAwayFrame (low31 (int_from_bytes (take 4 (payload frame))))
         (int_from_bytes (slice 4 8 (payload frame))) (drop 8 (payload frame)))))"

definition H2GoAwayFrame_to_generic :: "int \<Rightarrow> int \<Rightarrow> bytes \<Rightarrow> h2_generic_frame result" where
  "H2GoAwayFrame_to_generic last_stream_id err additional_debug_data =
     bindE (int_to_bytes 4 last_stream_id) (\<lambda>l.
     bindE (int_to_bytes 4 err) (\<lambda>e.
       H2GenericFrame 7 H2Flags False 0 (l @ e @ additional_debug_data)))"

subsection \<open>WINDOW_UPDATE and CONTINUATION\<close>

definition H2WindowUpdateFrame :: "int \<Rightarrow> int \<Rightarrow> h2_frame result" where
  "H2WindowUpdateFrame sid window_size_increment =
     bindE (check_stream_id sid True False) (\<lambda>_.
     bindE (raise_if (\<not> (0 < window_size_increment \<and> window_size_increment < push_bit 31 1)) H2Error) (\<lambda>_.
       Inr (WindowUpdateFrame sid window_size_increment)))"

definition H2WindowUpdateFrame_from_h2frame :: "h2_generic_frame \<Rightarrow> h2_frame result" where
  "H2WindowUpdateFrame_from_h2frame frame =
     bindE (check_frame_type (ftyp frame) 8) (\<lambda>_.
     bindE (raise_if (length (payload frame) \<noteq> 4) H2Error) (\<lambda>_.
       H2WindowUpdateFrame (stream_id frame) (low31 (int_from_bytes (payload frame)))))"

definition H2WindowUpdateFrame_to_generic :: "int \<Rightarrow> int \<Rightarrow> h2_generic_frame result" where
  "H2WindowUpdateFrame_to_generic sid window_size_increment =
     bindE (int_to_bytes 4 window_size_increment) (\<lambda>w. H2GenericFrame 8 H2Flags False sid w)"

definition H2ContinuationFrame :: "bool \<Rightarrow> int \<Rightarrow> bytes \<Rightarrow> h2_frame result" where
  "H2ContinuationFrame eh sid fragment =
     bindE (check_stream_id sid False False) (\<lambda>_. Inr (ContinuationFrame eh sid fragment))"

definition H2ContinuationFrame_from_h2frame :: "h2_generic_frame \<Rightarrow> h2_frame result" where
  "H2ContinuationFrame_from_h2frame frame =
     bindE (check_frame_type (ftyp frame) 9) (\<lambda>_.
       H2ContinuationFrame (end_headers (flags frame)) (stream_id frame) (payload frame))"

definition H2ContinuationFrame_to_generic :: "bool \<Rightarrow> int \<Rightarrow> bytes \<Rightarrow> h2_generic_frame result" where
  "H2ContinuationFrame_to_generic eh sid fragment =
     H2GenericFrame 9 (H2Flags\<lparr>end_headers := eh\<rparr>) False sid fragment"

section \<open>All classes together\<close>

text \<open>The method \<open>to_generic\<close>, by class, and \<open>to_bytes\<close>, which is the same in all of them.\<close>

fun to_generic :: "h2_frame \<Rightarrow> h2_generic_frame result" where
  "to_generic (Generic f) = Inr f"
| "to_generic (DataFrame es sid data pad) = H2DataFrame_to_generic es sid data pad"
| "to_generic (HeadersFrame eh es sid x d w fragment pad) =
     H2HeadersFrame_to_generic eh es sid x d w fragment pad"
| "to_generic (PriorityFrame sid x d w) = H2PriorityFrame_to_generic sid x d w"
| "to_generic (RstStreamFrame sid err) = H2RstStreamFrame_to_generic sid err"
| "to_generic (SettingsFrame ack settings) = H2SettingsFrame_to_generic ack settings"
| "to_generic (PushPromiseFrame eh sid p fragment pad) = H2PushPromiseFrame_to_generic eh sid p fragment pad"
| "to_generic (PingFrame ack opaque) = H2PingFrame_to_generic ack opaque"
| "to_generic (GoAwayFrame sid err debug) = H2GoAwayFrame_to_generic sid err debug"
| "to_generic (WindowUpdateFrame sid inc) = H2WindowUpdateFrame_to_generic sid inc"
| "to_generic (ContinuationFrame eh sid fragment) = H2ContinuationFrame_to_generic eh sid fragment"

definition h2_to_bytes :: "h2_frame \<Rightarrow> bytes result" where
  "h2_to_bytes f = bindE (to_generic f) H2GenericFrame_to_bytes"

text \<open>\<open>specialize\<close> catches \<open>H2Error\<close>, and only that.\<close>

definition from_h2frame :: "int \<Rightarrow> (h2_generic_frame \<Rightarrow> h2_frame result) option" where
  "from_h2frame ty =
     (if ty = 0 then Some H2DataFrame_from_h2frame
      else if ty = 1 then Some H2HeadersFrame_from_h2frame
      else if ty = 2 then Some H2PriorityFrame_from_h2frame
      else if ty = 3 then Some H2RstStreamFrame_from_h2frame
      else if ty = 4 then Some H2SettingsFrame_from_h2frame
      else if ty = 5 then Some H2PushPromiseFrame_from_h2frame
      else if ty = 6 then Some H2PingFrame_from_h2frame
      else if ty = 7 then Some H2GoAwayFrame_from_h2frame
      else if ty = 8 then Some H2WindowUpdateFrame_from_h2frame
      else if ty = 9 then Some H2ContinuationFrame_from_h2frame
      else None)"

definition specialize :: "h2_generic_frame \<Rightarrow> h2_frame result" where
  "specialize f =
     (case from_h2frame (ftyp f) of None \<Rightarrow> Inr (Generic f)
      | Some fn \<Rightarrow> (case fn f of Inr g \<Rightarrow> Inr g
                   | Inl e \<Rightarrow> if e = H2Error then Inr (Generic f) else Inl e))"

definition parse_frames :: "bytes \<Rightarrow> h2_frame list result" where
  "parse_frames data = bindE (parse_generic_frames data) (mapE specialize)"

section \<open>What is printed is read back\<close>

text \<open>The frames whose constructor accepts them. A HEADERS frame must also have all of its priority
  fields or none, which \<open>check_priority\<close> means to check and does not.\<close>

fun frame_ok :: "h2_frame \<Rightarrow> bool" where
  "frame_ok (Generic f) \<longleftrightarrow> False"
| "frame_ok (DataFrame es sid data pad) \<longleftrightarrow> is_ok (H2DataFrame es sid data pad)"
| "frame_ok (HeadersFrame eh es sid x d w fragment pad) \<longleftrightarrow>
     is_ok (H2HeadersFrame eh es sid x d w fragment pad) \<and> (x = None \<longleftrightarrow> w = None) \<and> (d = None \<longleftrightarrow> w = None)"
| "frame_ok (PriorityFrame sid x d w) \<longleftrightarrow> is_ok (H2PriorityFrame sid x d w)"
| "frame_ok (RstStreamFrame sid err) \<longleftrightarrow> is_ok (H2RstStreamFrame sid err)"
| "frame_ok (SettingsFrame ack settings) \<longleftrightarrow> is_ok (H2SettingsFrame ack settings)"
| "frame_ok (PushPromiseFrame eh sid p fragment pad) \<longleftrightarrow> is_ok (H2PushPromiseFrame eh sid p fragment pad)"
| "frame_ok (PingFrame ack opaque) \<longleftrightarrow> is_ok (H2PingFrame ack opaque)"
| "frame_ok (GoAwayFrame sid err debug) \<longleftrightarrow> is_ok (H2GoAwayFrame sid err debug)"
| "frame_ok (WindowUpdateFrame sid inc) \<longleftrightarrow> is_ok (H2WindowUpdateFrame sid inc)"
| "frame_ok (ContinuationFrame eh sid fragment) \<longleftrightarrow> is_ok (H2ContinuationFrame eh sid fragment)"

lemma check_priority_ok [simp]: "check_priority x d w = Inr u \<longleftrightarrow>
    \<not> ((x = None) \<noteq> (w = None) \<and> (w = None) \<noteq> (d = None)) \<and>
    (case w of None \<Rightarrow> True | Some w \<Rightarrow> 0 \<le> w \<and> w < 256) \<and>
    (case d of None \<Rightarrow> True | Some d \<Rightarrow> 0 \<le> d \<and> d < 2 ^ 31)"
  by (auto simp: check_priority_def bindE_eq_Inr split: option.splits)

lemmas frame_constructors =
  H2DataFrame_def H2HeadersFrame_def H2PriorityFrame_def H2RstStreamFrame_def H2SettingsFrame_def
  H2PushPromiseFrame_def H2PingFrame_def H2GoAwayFrame_def H2WindowUpdateFrame_def
  H2ContinuationFrame_def

lemma add_padding_cases:
  assumes "add_padding pad pl = Inr p"
  obtains "pad = None" and "p = pl"
  | b where "pad = Some (uint b)" and "p = b # pl @ replicate (unat b) 0"
proof (cases pad)
  case None
  with assms that show ?thesis by (simp add: add_padding_def)
next
  case (Some n)
  with assms obtain q where q: "int_to_bytes 1 n = Inr q" and p: "p = q @ pl @ replicate (nat n) 0"
    by (auto simp: add_padding_def bindE_eq_Inr)
  from byte_of_int_to_bytes [OF q] obtain b where "q = [b]" and "uint b = n"
    by blast
  with p Some that(2) [of b] show ?thesis by auto
qed

lemma read_padding_added [printed_simps]:
  "read_padding None inp = Inr inp"
  "read_padding (Some (uint (b::byte))) (replicate (unat b) 0 @ rest) = Inr rest"
  "read_padding (Some (uint (b::byte))) (replicate (unat b) 0) = Inr []"
proof -
  have "uint b \<le> sys_maxsize"
    using uint_byte_bounds [of b] by (simp add: sys_maxsize_def)
  then have "bslice (uint b) (replicate (unat b) 0 @ rest) = Inr (replicate (unat b) 0, rest)" for rest
    by (intro bslice_append) simp_all
  then have "read_padding (Some (uint b)) (replicate (unat b) 0 @ rest) = Inr rest" for rest
    using uint_byte_bounds [of b]
    by (simp add: read_padding_def check_padding_def check_pad_length_def)
  from this this [of "[]"] show "read_padding (Some (uint b)) (replicate (unat b) 0 @ rest) = Inr rest"
    "read_padding (Some (uint b)) (replicate (unat b) 0) = Inr []"
    by simp_all
qed (simp add: read_padding_def)

lemma bslice_front:
  "n = int (length xs) \<Longrightarrow> length xs < 2 ^ 24 \<Longrightarrow> bslice n (xs @ ys) = Inr (xs, ys)"
  "n = int (length xs) \<Longrightarrow> length xs < 2 ^ 24 \<Longrightarrow> bslice n xs = Inr (xs, [])"
proof -
  have "int (length xs) \<le> sys_maxsize" if "length xs < 2 ^ 24"
    using that by (simp add: sys_maxsize_def)
  then show "n = int (length xs) \<Longrightarrow> length xs < 2 ^ 24 \<Longrightarrow> bslice n (xs @ ys) = Inr (xs, ys)" for ys
    by (simp add: bslice_append)
  from this [of "[]"] show "n = int (length xs) \<Longrightarrow> length xs < 2 ^ 24 \<Longrightarrow> bslice n xs = Inr (xs, [])"
    by simp
qed

lemma bslice_before_padding [printed_simps]:
  assumes "n = int (length xs)" and "int (length xs) + uint (b::byte) < 2 ^ 24"
  shows "bslice n (xs @ replicate (unat b) 0) = Inr (xs, replicate (unat b) 0)"
proof -
  have "int (length xs) < 2 ^ 24"
    using assms(2) uint_byte_bounds [of b] by linarith
  then show ?thesis
    using assms(1) by (intro bslice_front) simp_all
qed

lemma length_plus_byte_nonneg [printed_simps]: "\<not> int n + uint (b::byte) < 0"
  using uint_byte_bounds [of b] by linarith

lemma check_stream_id_0 [printed_simps]: "check_stream_id 0 True m = Inr ()"
  by (simp add: check_stream_id_def)

text \<open>Reading what follows an optional padding length, when the padding was added by the printer.\<close>

lemma read_pad_length_added:
  "read_pad_length False k pl = Inr (None, pl)"
  "k \<le> 1 + int (length pl) \<Longrightarrow> read_pad_length True k (b # pl) = Inr (Some (uint b), pl)"
  by (simp_all add: read_pad_length_def)

lemma data_roundtrip:
  assumes "H2DataFrame es sid data pad = Inr f" and "H2DataFrame_to_generic es sid data pad = Inr g"
  shows "H2DataFrame_from_h2frame g = Inr f"
proof -
  from assms(2) obtain p where p: "add_padding pad data = Inr p"
    and g: "H2GenericFrame 0 (H2Flags\<lparr>end_stream_or_ack := es, padded := pad \<noteq> None\<rparr>) False sid p = Inr g"
    by (auto simp: H2DataFrame_to_generic_def bindE_eq_Inr)
  from p show ?thesis
  proof (cases rule: add_padding_cases)
    case 1
    with g assms(1) show ?thesis
      by (auto simp: H2GenericFrame_Inr H2DataFrame_from_h2frame_def H2Flags_def bslice_front printed_simps
          check_frame_type_def)
  next
    case (2 b)
    with g assms(1) uint_byte_bounds [of b] show ?thesis
      by (auto simp: H2GenericFrame_Inr H2DataFrame_from_h2frame_def H2Flags_def bslice_front printed_simps
          check_frame_type_def)
  qed
qed

lemma headers_roundtrip:
  assumes "H2HeadersFrame eh es sid x d w fragment pad = Inr f" and "(x = None \<longleftrightarrow> w = None) \<and> (d = None \<longleftrightarrow> w = None)"
    and "H2HeadersFrame_to_generic eh es sid x d w fragment pad = Inr g"
  shows "H2HeadersFrame_from_h2frame g = Inr f"
proof (cases w)
  case None
  with assms(2) have none: "x = None" "d = None" "w = None" by simp_all
  with assms(3) obtain p where p: "add_padding pad fragment = Inr p"
    and g: "H2GenericFrame 1 (H2Flags\<lparr>padded := pad \<noteq> None, end_stream_or_ack := es, end_headers := eh\<rparr>)
      False sid p = Inr g"
    by (auto simp: H2HeadersFrame_to_generic_def bindE_eq_Inr headers_priority_def H2Flags_def)
  from p show ?thesis
  proof (cases rule: add_padding_cases)
    case 1
    with g assms(1) none show ?thesis
      by (auto simp: H2GenericFrame_Inr H2HeadersFrame_from_h2frame_def H2Flags_def bslice_front printed_simps
          check_frame_type_def read_pad_length_added read_priority_def)
  next
    case (2 b)
    with g assms(1) none uint_byte_bounds [of b] show ?thesis
      by (auto simp: H2GenericFrame_Inr H2HeadersFrame_from_h2frame_def H2Flags_def bslice_front printed_simps
          check_frame_type_def read_pad_length_added read_priority_def Let_def)
  qed
next
  case (Some w')
  with assms(2) obtain x' d' where some: "x = Some x'" "d = Some d'" "w = Some w'" by auto
  with assms(1) have d: "0 \<le> d'" "d' < 2 ^ 31" and w: "0 \<le> w'" "w' < 256"
    by (auto simp: H2HeadersFrame_def bindE_eq_Inr)
  from some assms(3) obtain raw wb p where raw: "int_to_bytes 4 (join31 x' d') = Inr raw"
    and wb: "int_to_bytes 1 w' = Inr wb" and p: "add_padding pad (raw @ wb @ fragment) = Inr p"
    and g: "H2GenericFrame 1 (H2Flags\<lparr>priority := True, padded := pad \<noteq> None, end_stream_or_ack := es,
      end_headers := eh\<rparr>) False sid p = Inr g"
    by (auto simp: H2HeadersFrame_to_generic_def bindE_eq_Inr headers_priority_def H2Flags_def)
  obtain c where c: "wb = [c]" "uint c = w'"
    using byte_of_int_to_bytes [OF wb] by blast
  have raw4: "length raw = 4" and raw_int: "low31 (int_from_bytes raw) = d'" "high_bit31 (int_from_bytes raw) = x'"
    using int_to_bytes_length [OF raw] int_to_bytes_roundtrip [OF raw] d
    by (simp_all add: low31_join31 high_bit31_join31)
  from p show ?thesis
  proof (cases rule: add_padding_cases)
    case 1
    with g assms(1) some raw4 raw_int c show ?thesis
      by (auto simp: H2GenericFrame_Inr H2HeadersFrame_from_h2frame_def H2Flags_def bslice_front printed_simps
          check_frame_type_def read_pad_length_added read_priority_def Let_def)
  next
    case (2 b)
    with g assms(1) some raw4 raw_int c uint_byte_bounds [of b] show ?thesis
      by (auto simp: H2GenericFrame_Inr H2HeadersFrame_from_h2frame_def H2Flags_def bslice_front printed_simps
          check_frame_type_def read_pad_length_added read_priority_def Let_def)
  qed
qed

lemma push_promise_roundtrip:
  assumes "H2PushPromiseFrame eh sid q fragment pad = Inr f"
    and "H2PushPromiseFrame_to_generic eh sid q fragment pad = Inr g"
  shows "H2PushPromiseFrame_from_h2frame g = Inr f"
proof -
  from assms(2) obtain raw p where raw: "int_to_bytes 4 q = Inr raw"
    and p: "add_padding pad (raw @ fragment) = Inr p"
    and g: "H2GenericFrame 5 (H2Flags\<lparr>end_headers := eh, padded := pad \<noteq> None\<rparr>) False sid p = Inr g"
    by (auto simp: H2PushPromiseFrame_to_generic_def bindE_eq_Inr)
  from assms(1) have "0 \<le> q" "q < 2 ^ 31"
    by (auto simp: H2PushPromiseFrame_def bindE_eq_Inr)
  then have raw4: "length raw = 4" and raw_int: "low31 (int_from_bytes raw) = q"
    using int_to_bytes_length [OF raw] int_to_bytes_roundtrip [OF raw] by (simp_all add: low31_eq)
  from p show ?thesis
  proof (cases rule: add_padding_cases)
    case 1
    with g assms(1) raw4 raw_int show ?thesis
      by (auto simp: H2GenericFrame_Inr H2PushPromiseFrame_from_h2frame_def H2Flags_def bslice_front
          printed_simps check_frame_type_def read_pad_length_added Let_def)
  next
    case (2 b)
    with g assms(1) raw4 raw_int uint_byte_bounds [of b] show ?thesis
      by (auto simp: H2GenericFrame_Inr H2PushPromiseFrame_from_h2frame_def H2Flags_def bslice_front
          printed_simps check_frame_type_def read_pad_length_added Let_def)
  qed
qed

lemma setting_at_0:
  assumes "setting_to_bytes s = Inr bs"
  shows "length bs = 6" and "setting_at (bs @ pl) 0 = s" and "setting_at (bs @ pl) (i + 6) = setting_at pl i"
proof -
  from assms obtain k v where k: "int_to_bytes 2 (fst s) = Inr k" and v: "int_to_bytes 4 (snd s) = Inr v"
    and bs: "bs = k @ v"
    by (auto simp: bindE_eq_Inr setting_to_bytes_def)
  note len = int_to_bytes_length [OF k] int_to_bytes_length [OF v]
  show six: "length bs = 6"
    using len bs by simp
  show "setting_at (bs @ pl) 0 = s"
    using len bs int_to_bytes_roundtrip [OF k] int_to_bytes_roundtrip [OF v]
    by (simp add: setting_at_def slice_def)
  show "setting_at (bs @ pl) (i + 6) = setting_at pl i"
    using six by (simp add: setting_at_def slice_def)
qed

lemma settings_read_back:
  "mapE setting_to_bytes settings = Inr bss \<Longrightarrow>
     length (concat bss) = 6 * length settings \<and>
     map (setting_at (concat bss)) (map (\<lambda>k. 6 * k) [0..<length settings]) = settings"
proof (induction settings arbitrary: bss)
  case (Cons s settings)
  then obtain bs css where s: "setting_to_bytes s = Inr bs"
    and css: "mapE setting_to_bytes settings = Inr css" "bss = bs # css"
    by (auto simp: bindE_eq_Inr)
  have "[0..<Suc (length settings)] = 0 # map Suc [0..<length settings]"
    by (simp add: upt_conv_Cons map_Suc_upt del: upt_Suc)
  moreover have "setting_at (concat bss) (6 * Suc k) = setting_at (concat css) (6 * k)" for k
    using setting_at_0(3) [OF s, of "concat css" "6 * k"] css(2) by (simp add: add.commute)
  ultimately show ?case
    using Cons.IH [OF css(1)] css(2) setting_at_0(1,2) [OF s]
    by (simp add: comp_def mult_Suc_right [of 6 "length settings"] del: upt_Suc length_concat mult_Suc_right)
qed simp

lemma settings_roundtrip:
  assumes "H2SettingsFrame ack settings = Inr f" and "H2SettingsFrame_to_generic ack settings = Inr g"
  shows "H2SettingsFrame_from_h2frame g = Inr f"
proof -
  from assms(2) obtain bss where bss: "mapE setting_to_bytes settings = Inr bss"
    and g: "H2GenericFrame 4 (H2Flags\<lparr>end_stream_or_ack := ack\<rparr>) False 0 (concat bss) = Inr g"
    by (auto simp: H2SettingsFrame_to_generic_def bindE_eq_Inr)
  from g assms(1) settings_read_back [OF bss] show ?thesis
    by (auto simp: H2GenericFrame_Inr H2SettingsFrame_from_h2frame_def H2Flags_def check_frame_type_def
        printed_simps simp del: length_concat map_map)
qed

lemma priority_roundtrip:
  assumes "H2PriorityFrame sid x d w = Inr f" and "H2PriorityFrame_to_generic sid x d w = Inr g"
  shows "H2PriorityFrame_from_h2frame g = Inr f"
proof -
  from assms(1) have d: "0 \<le> d" "d < 2 ^ 31" and w: "0 \<le> w" "w < 256"
    by (auto simp: H2PriorityFrame_def bindE_eq_Inr)
  from assms(2) w obtain raw where raw: "int_to_bytes 4 (join31 x d) = Inr raw"
    and g: "H2GenericFrame 2 H2Flags False sid (raw @ [word_of_int w]) = Inr g"
    by (auto simp: H2PriorityFrame_to_generic_def bindE_eq_Inr bytes_of_ints_def)
  obtain r0 r1 r2 r3 where r: "raw = [r0, r1, r2, r3]"
    using int_to_bytes_length [OF raw] by (auto simp: numeral_eq_Suc length_Suc_conv)
  have val: "int_from_bytes raw = join31 x d"
    using int_to_bytes_roundtrip [OF raw] .
  have "drop_bit 7 (uint r0) = of_bool x"
  proof -
    have "join31 x d = uint r0 * 2 ^ 24 + int_from_bytes [r1, r2, r3]"
      using val r by (simp add: int_from_bytes_def)
    moreover obtain l where "int_from_bytes [r1, r2, r3] = l" and "0 \<le> l" and "l < 2 ^ 24"
      using int_from_bytes_bounds [of "[r1, r2, r3]"] by simp
    ultimately show ?thesis
      using d by (cases x) (auto simp: join31_eq [OF d] drop_bit_eq_div)
  qed
  with g assms(1) w d r val show ?thesis
    by (auto simp: H2GenericFrame_Inr H2PriorityFrame_from_h2frame_def H2Flags_def check_frame_type_def
        low31_join31 uint_word_of_int_byte)
qed

lemma rst_stream_roundtrip:
  assumes "H2RstStreamFrame sid err = Inr f" and "H2RstStreamFrame_to_generic sid err = Inr g"
  shows "H2RstStreamFrame_from_h2frame g = Inr f"
  using assms
  by (auto simp: H2RstStreamFrame_to_generic_def bindE_eq_Inr H2GenericFrame_Inr
      H2RstStreamFrame_from_h2frame_def check_frame_type_def int_to_bytes_length int_to_bytes_roundtrip)

lemma ping_roundtrip:
  assumes "H2PingFrame ack opaque = Inr f" and "H2PingFrame_to_generic ack opaque = Inr g"
  shows "H2PingFrame_from_h2frame g = Inr f"
  using assms
  by (auto simp: H2PingFrame_to_generic_def H2GenericFrame_Inr H2PingFrame_from_h2frame_def
      check_frame_type_def H2Flags_def printed_simps)

lemma goaway_roundtrip:
  assumes "H2GoAwayFrame sid err debug = Inr f" and "H2GoAwayFrame_to_generic sid err debug = Inr g"
  shows "H2GoAwayFrame_from_h2frame g = Inr f"
proof -
  from assms(2) obtain l e where l: "int_to_bytes 4 sid = Inr l" and e: "int_to_bytes 4 err = Inr e"
    and g: "H2GenericFrame 7 H2Flags False 0 (l @ e @ debug) = Inr g"
    by (auto simp: H2GoAwayFrame_to_generic_def bindE_eq_Inr)
  from assms(1) have "0 \<le> sid" "sid < 2 ^ 31"
    by (auto simp: H2GoAwayFrame_def bindE_eq_Inr)
  then show ?thesis
    using g assms(1) int_to_bytes_length [OF l] int_to_bytes_length [OF e] int_to_bytes_roundtrip [OF l]
      int_to_bytes_roundtrip [OF e]
    by (auto simp: H2GenericFrame_Inr H2GoAwayFrame_from_h2frame_def check_frame_type_def slice_def
        low31_eq printed_simps)
qed

lemma window_update_roundtrip:
  assumes "H2WindowUpdateFrame sid inc = Inr f" and "H2WindowUpdateFrame_to_generic sid inc = Inr g"
  shows "H2WindowUpdateFrame_from_h2frame g = Inr f"
proof -
  from assms(1) have "0 \<le> inc" "inc < 2 ^ 31"
    by (auto simp: H2WindowUpdateFrame_def bindE_eq_Inr push_bit_of_1)
  then show ?thesis
    using assms
    by (auto simp: H2WindowUpdateFrame_to_generic_def bindE_eq_Inr H2GenericFrame_Inr
        H2WindowUpdateFrame_from_h2frame_def check_frame_type_def int_to_bytes_length
        int_to_bytes_roundtrip low31_eq)
qed

lemma continuation_roundtrip:
  assumes "H2ContinuationFrame eh sid fragment = Inr f"
    and "H2ContinuationFrame_to_generic eh sid fragment = Inr g"
  shows "H2ContinuationFrame_from_h2frame g = Inr f"
  using assms
  by (auto simp: H2ContinuationFrame_to_generic_def H2GenericFrame_Inr
      H2ContinuationFrame_from_h2frame_def check_frame_type_def H2Flags_def)

lemmas to_generic_defs =
  H2DataFrame_to_generic_def H2HeadersFrame_to_generic_def H2PriorityFrame_to_generic_def
  H2RstStreamFrame_to_generic_def H2SettingsFrame_to_generic_def H2PushPromiseFrame_to_generic_def
  H2PingFrame_to_generic_def H2GoAwayFrame_to_generic_def H2WindowUpdateFrame_to_generic_def
  H2ContinuationFrame_to_generic_def

text \<open>The frame type each class prints.\<close>

fun frame_type_of :: "h2_frame \<Rightarrow> int" where
  "frame_type_of (Generic f) = ftyp f"
| "frame_type_of (DataFrame es sid data pad) = 0"
| "frame_type_of (HeadersFrame eh es sid x d w fragment pad) = 1"
| "frame_type_of (PriorityFrame sid x d w) = 2"
| "frame_type_of (RstStreamFrame sid err) = 3"
| "frame_type_of (SettingsFrame ack settings) = 4"
| "frame_type_of (PushPromiseFrame eh sid p fragment pad) = 5"
| "frame_type_of (PingFrame ack opaque) = 6"
| "frame_type_of (GoAwayFrame sid err debug) = 7"
| "frame_type_of (WindowUpdateFrame sid inc) = 8"
| "frame_type_of (ContinuationFrame eh sid fragment) = 9"

lemma to_generic_type: "to_generic f = Inr g \<Longrightarrow> ftyp g = frame_type_of f"
  by (cases f) (auto simp: to_generic_defs bindE_eq_Inr H2GenericFrame_Inr)

lemma typed_frame_type: "frame_ok f \<Longrightarrow> 0 \<le> frame_type_of f \<and> frame_type_of f < 10"
  by (cases f) auto

lemma to_generic_wire: "frame_ok f \<Longrightarrow> to_generic f = Inr g \<Longrightarrow> wire_frame g"
  using to_generic_type [of f g] typed_frame_type [of f]
  by (cases f) (auto simp: wire_frame_def to_generic_defs bindE_eq_Inr H2GenericFrame_Inr)

text \<open>The constructor's checks, given back by \<open>frame_ok\<close>.\<close>

lemma ok_constructor:
  "is_ok (H2DataFrame es sid data pad) \<Longrightarrow> H2DataFrame es sid data pad = Inr (DataFrame es sid data pad)"
  "is_ok (H2HeadersFrame eh es sid x d w fragment pad) \<Longrightarrow>
     H2HeadersFrame eh es sid x d w fragment pad = Inr (HeadersFrame eh es sid x d w fragment pad)"
  "is_ok (H2PriorityFrame sid e d' w') \<Longrightarrow> H2PriorityFrame sid e d' w' = Inr (PriorityFrame sid e d' w')"
  "is_ok (H2RstStreamFrame sid err) \<Longrightarrow> H2RstStreamFrame sid err = Inr (RstStreamFrame sid err)"
  "is_ok (H2SettingsFrame ack settings) \<Longrightarrow> H2SettingsFrame ack settings = Inr (SettingsFrame ack settings)"
  "is_ok (H2PushPromiseFrame eh sid p fragment pad) \<Longrightarrow>
     H2PushPromiseFrame eh sid p fragment pad = Inr (PushPromiseFrame eh sid p fragment pad)"
  "is_ok (H2PingFrame ack opaque) \<Longrightarrow> H2PingFrame ack opaque = Inr (PingFrame ack opaque)"
  "is_ok (H2GoAwayFrame sid err debug) \<Longrightarrow> H2GoAwayFrame sid err debug = Inr (GoAwayFrame sid err debug)"
  "is_ok (H2WindowUpdateFrame sid inc) \<Longrightarrow> H2WindowUpdateFrame sid inc = Inr (WindowUpdateFrame sid inc)"
  "is_ok (H2ContinuationFrame eh sid fragment) \<Longrightarrow>
     H2ContinuationFrame eh sid fragment = Inr (ContinuationFrame eh sid fragment)"
  by (auto simp: is_ok_iff frame_constructors bindE_eq_Inr)

lemmas typed_roundtrips =
  data_roundtrip [OF ok_constructor(1)] headers_roundtrip [OF ok_constructor(2)]
  priority_roundtrip [OF ok_constructor(3)] rst_stream_roundtrip [OF ok_constructor(4)]
  settings_roundtrip [OF ok_constructor(5)] push_promise_roundtrip [OF ok_constructor(6)]
  ping_roundtrip [OF ok_constructor(7)] goaway_roundtrip [OF ok_constructor(8)]
  window_update_roundtrip [OF ok_constructor(9)] continuation_roundtrip [OF ok_constructor(10)]

lemma specialize_to_generic:
  assumes "frame_ok f" and "to_generic f = Inr g"
  shows "specialize g = Inr f"
proof -
  note type = to_generic_type [OF assms(2)]
  show ?thesis
  proof (cases f)
    case (HeadersFrame eh es sid x d w fragment pad)
    with assms headers_roundtrip [OF ok_constructor(2), of eh es sid x d w fragment pad g] type
    show ?thesis by (simp add: specialize_def from_h2frame_def)
  qed (use assms type in \<open>simp_all add: specialize_def from_h2frame_def typed_roundtrips\<close>)
qed

section \<open>What is read is in normal form\<close>

text \<open>The payload a typed frame prints, by its length, and when it has one.\<close>

fun pad_size :: "int option \<Rightarrow> int" where
  "pad_size None = 0"
| "pad_size (Some n) = n + 1"

fun payload_size :: "h2_frame \<Rightarrow> int" where
  "payload_size (Generic f) = int (length (payload f))"
| "payload_size (DataFrame es sid data pad) = int (length data) + pad_size pad"
| "payload_size (HeadersFrame eh es sid x d w fragment pad) =
     int (length fragment) + pad_size pad + (if headers_priority x d w then 5 else 0)"
| "payload_size (PriorityFrame sid x d w) = 5"
| "payload_size (RstStreamFrame sid err) = 4"
| "payload_size (SettingsFrame ack settings) = 6 * int (length settings)"
| "payload_size (PushPromiseFrame eh sid p fragment pad) = int (length fragment) + pad_size pad + 4"
| "payload_size (PingFrame ack opaque) = int (length opaque)"
| "payload_size (GoAwayFrame sid err debug) = 8 + int (length debug)"
| "payload_size (WindowUpdateFrame sid inc) = 4"
| "payload_size (ContinuationFrame eh sid fragment) = int (length fragment)"

fun settings_fit :: "h2_frame \<Rightarrow> bool" where
  "settings_fit (SettingsFrame ack settings) \<longleftrightarrow>
     (\<forall>s \<in> set settings. 0 \<le> fst s \<and> fst s < 2 ^ 16 \<and> 0 \<le> snd s \<and> snd s < 2 ^ 32)"
| "settings_fit _ \<longleftrightarrow> True"

lemma add_padding_ok:
  assumes "check_pad_length pad = Inr u"
  shows "\<exists>p. add_padding pad pl = Inr p \<and> int (length p) = int (length pl) + pad_size pad"
  using assms by (cases pad) (auto simp: add_padding_def int_to_bytes_def)

lemma settings_print:
  assumes "\<forall>s \<in> set settings. 0 \<le> fst s \<and> fst s < 2 ^ 16 \<and> 0 \<le> snd s \<and> snd s < 2 ^ 32"
  shows "\<exists>bss. mapE setting_to_bytes settings = Inr bss"
  using assms
proof (induction settings)
  case (Cons s settings)
  then show ?case
    by (auto simp: setting_to_bytes_def int_to_bytes_def)
qed simp

lemma H2GenericFrame_prints:
  assumes "0 \<le> sid" and "sid < 2 ^ 31" and "int (length pl) < 2 ^ 24"
  shows "\<exists>g. H2GenericFrame ty fl res sid pl = Inr g \<and> payload g = pl \<and> stream_id g = sid"
  using assms by (simp add: H2GenericFrame_Inr)

lemma headers_prints:
  assumes "H2HeadersFrame eh es sid x d w fragment pad = Inr f"
    and "int (length fragment) + pad_size pad + (if headers_priority x d w then 5 else 0) < 2 ^ 24"
  shows "\<exists>g. H2HeadersFrame_to_generic eh es sid x d w fragment pad = Inr g \<and>
    int (length (payload g)) = int (length fragment) + pad_size pad + (if headers_priority x d w then 5 else 0)"
proof -
  from assms(1) have pad: "check_pad_length pad = Inr ()" and sid: "0 \<le> sid" "sid < 2 ^ 31"
    by (auto simp: H2HeadersFrame_def bindE_eq_Inr)
  let ?pre = "case (x, d, w) of
      (Some x, Some d, Some w) \<Rightarrow> bindE (int_to_bytes 4 (join31 x d)) (\<lambda>raw.
        bindE (int_to_bytes 1 w) (\<lambda>wb. Inr (raw @ wb @ fragment)))
    | _ \<Rightarrow> Inr fragment"
  have "\<exists>q. ?pre = Inr q \<and> int (length q) = int (length fragment) + (if headers_priority x d w then 5 else 0)"
  proof (cases "headers_priority x d w")
    case True
    then obtain x' d' w' where "x = Some x'" "d = Some d'" "w = Some w'"
      by (auto simp: headers_priority_def)
    moreover from this assms(1) have "0 \<le> d'" "d' < 2 ^ 31" "0 \<le> w'" "w' < 256"
      by (auto simp: H2HeadersFrame_def bindE_eq_Inr)
    ultimately show ?thesis
      using True join31_bounds [of d' x'] by (simp add: int_to_bytes_def)
  next
    case False
    then show ?thesis
      by (auto simp: headers_priority_def split: option.splits)
  qed
  then obtain q where q: "?pre = Inr q"
    "int (length q) = int (length fragment) + (if headers_priority x d w then 5 else 0)"
    by blast
  obtain p where p: "add_padding pad q = Inr p" "int (length p) = int (length q) + pad_size pad"
    using add_padding_ok [OF pad] by blast
  show ?thesis
    unfolding H2HeadersFrame_to_generic_def q(1) bindE_Inr p(1)
    using assms(2) p(2) q(2) sid by (simp add: H2GenericFrame_Inr)
qed

lemma to_generic_ok:
  assumes "frame_ok f" and "settings_fit f" and "payload_size f < 2 ^ 24"
  shows "\<exists>g. to_generic f = Inr g \<and> int (length (payload g)) = payload_size f"
proof (cases f)
  case (DataFrame es sid data pad)
  with assms(1) have "check_pad_length pad = Inr ()" "0 \<le> sid" "sid < 2 ^ 31"
    by (auto simp: is_ok_iff H2DataFrame_def bindE_eq_Inr)
  with add_padding_ok [of pad "()" data] DataFrame assms(3) show ?thesis
    by (auto simp: H2DataFrame_to_generic_def H2GenericFrame_Inr)
next
  case (HeadersFrame eh es sid x d w fragment pad)
  with assms headers_prints [OF ok_constructor(2), of eh es sid x d w fragment pad] show ?thesis
    by simp
next
  case (SettingsFrame ack settings)
  with assms(2) obtain bss where bss: "mapE setting_to_bytes settings = Inr bss"
    using settings_print by fastforce
  with settings_read_back [OF bss] assms(3) SettingsFrame show ?thesis
    by (simp add: H2SettingsFrame_to_generic_def H2GenericFrame_Inr del: length_concat map_map)
next
  case (PushPromiseFrame eh sid q fragment pad)
  with assms(1) have "check_pad_length pad = Inr ()" "0 \<le> sid" "sid < 2 ^ 31" "0 \<le> q" "q < 2 ^ 31"
    by (auto simp: is_ok_iff H2PushPromiseFrame_def bindE_eq_Inr)
  with add_padding_ok [of pad "()" "be_bytes 4 q @ fragment"] PushPromiseFrame assms(3) show ?thesis
    by (auto simp: H2PushPromiseFrame_to_generic_def H2GenericFrame_Inr int_to_bytes_def)
next
  case (PriorityFrame sid x d w)
  with assms(1) have "0 \<le> sid" "sid < 2 ^ 31" "0 \<le> d" "d < 2 ^ 31" "0 \<le> w" "w < 256"
    by (auto simp: is_ok_iff H2PriorityFrame_def bindE_eq_Inr)
  with PriorityFrame join31_bounds [of d x] show ?thesis
    by (simp add: H2PriorityFrame_to_generic_def H2GenericFrame_Inr int_to_bytes_def bytes_of_ints_def)
qed (use assms in \<open>auto simp: is_ok_iff frame_constructors to_generic_defs bindE_eq_Inr H2GenericFrame_Inr
  int_to_bytes_def push_bit_of_1\<close>)

text \<open>What \<open>from_h2frame\<close> returns.\<close>

lemma constructor_gives:
  "H2DataFrame es sid data pad = Inr f \<Longrightarrow> f = DataFrame es sid data pad"
  "H2HeadersFrame eh es sid x d w fragment pad = Inr f \<Longrightarrow> f = HeadersFrame eh es sid x d w fragment pad"
  "H2PriorityFrame sid e d' w' = Inr f \<Longrightarrow> f = PriorityFrame sid e d' w'"
  "H2RstStreamFrame sid err = Inr f \<Longrightarrow> f = RstStreamFrame sid err"
  "H2SettingsFrame ack settings = Inr f \<Longrightarrow> f = SettingsFrame ack settings"
  "H2PushPromiseFrame eh sid p fragment pad = Inr f \<Longrightarrow> f = PushPromiseFrame eh sid p fragment pad"
  "H2PingFrame ack opaque = Inr f \<Longrightarrow> f = PingFrame ack opaque"
  "H2GoAwayFrame sid err debug = Inr f \<Longrightarrow> f = GoAwayFrame sid err debug"
  "H2WindowUpdateFrame sid inc = Inr f \<Longrightarrow> f = WindowUpdateFrame sid inc"
  "H2ContinuationFrame eh sid fragment = Inr f \<Longrightarrow> f = ContinuationFrame eh sid fragment"
  by (auto simp: frame_constructors bindE_eq_Inr)

lemma read_padding_Inr:
  "read_padding pad inp = Inr rest \<Longrightarrow> int (length inp) = int (length rest) + (pad_size pad - of_bool (pad \<noteq> None))"
  by (cases pad) (auto simp: read_padding_def bindE_eq_Inr bslice_Inr)

lemma read_pad_length_Inr:
  "read_pad_length b k pl = Inr (pad, inp) \<Longrightarrow> (pad \<noteq> None \<longleftrightarrow> b) \<and> length pl = length inp + (if b then 1 else 0)"
  by (auto simp: read_pad_length_def bindE_eq_Inr next_byte_Inr split: if_splits)

definition read_ok :: "h2_generic_frame \<Rightarrow> h2_frame \<Rightarrow> bool" where
  "read_ok g f \<longleftrightarrow> frame_ok f \<and> settings_fit f \<and> frame_type_of f = ftyp g \<and>
     payload_size f = int (length (payload g))"

lemma data_read: "H2DataFrame_from_h2frame g = Inr f \<Longrightarrow> read_ok g f"
proof -
  assume "H2DataFrame_from_h2frame g = Inr f"
  then obtain pad inp data inp' where ty: "ftyp g = 0"
    and pad: "(if padded (flags g) then bindE (next_byte (payload g)) (\<lambda>(n, inp). Inr (Some (uint n), inp))
        else Inr (None, payload g)) = Inr (pad, inp)"
    and data: "inp = data @ inp'" and rp: "read_padding pad inp' = Inr []"
    and f: "H2DataFrame (end_stream_or_ack (flags g)) (stream_id g) data pad = Inr f"
    by (auto simp: H2DataFrame_from_h2frame_def Let_def bindE_eq_Inr bslice_Inr)
  from pad have "int (length (payload g)) = int (length inp) + of_bool (pad \<noteq> None)"
    by (auto simp: bindE_eq_Inr next_byte_Inr split: if_splits)
  with constructor_gives(1) [OF f] f ty data read_padding_Inr [OF rp] show ?thesis
    by (simp add: read_ok_def)
qed

lemma read_priority_Inr:
  "read_priority b k n inp = Inr (d, x, w, rest) \<Longrightarrow>
     (x = None \<longleftrightarrow> w = None) \<and> (d = None \<longleftrightarrow> w = None) \<and> (w \<noteq> None \<longleftrightarrow> b) \<and>
     length inp = length rest + (if headers_priority x d w then 5 else 0)"
  by (auto simp: read_priority_def bindE_eq_Inr bslice_Inr next_byte_Inr Let_def headers_priority_def
      split: if_splits)

lemma headers_read: "H2HeadersFrame_from_h2frame g = Inr f \<Longrightarrow> read_ok g f"
proof -
  assume "H2HeadersFrame_from_h2frame g = Inr f"
  then obtain pad inp x d w inp1 fragment inp' k n where ty: "ftyp g = 1"
    and pad: "read_pad_length (padded (flags g)) (if padded (flags g) then 1 else 0) (payload g) = Inr (pad, inp)"
    and pri: "read_priority (priority (flags g)) k n inp = Inr (d, x, w, inp1)"
    and data: "inp1 = fragment @ inp'" and rp: "read_padding pad inp' = Inr []"
    and f: "H2HeadersFrame (end_headers (flags g)) (end_stream_or_ack (flags g)) (stream_id g) x d w fragment pad
      = Inr f"
    unfolding H2HeadersFrame_from_h2frame_def Let_def by (auto simp: bindE_eq_Inr bslice_Inr)
  from read_pad_length_Inr [OF pad] have "int (length (payload g)) = int (length inp) + of_bool (pad \<noteq> None)"
    by simp
  with constructor_gives(2) [OF f] f ty data read_priority_Inr [OF pri] read_padding_Inr [OF rp] show ?thesis
    by (simp add: read_ok_def)
qed

lemma push_promise_read: "H2PushPromiseFrame_from_h2frame g = Inr f \<Longrightarrow> read_ok g f"
proof -
  assume "H2PushPromiseFrame_from_h2frame g = Inr f"
  then obtain pad inp raw q fragment inp' where ty: "ftyp g = 5"
    and pad: "read_pad_length (padded (flags g)) (if padded (flags g) then 5 else 4) (payload g) = Inr (pad, inp)"
    and data: "inp = raw @ fragment @ inp'" "length raw = 4" and rp: "read_padding pad inp' = Inr []"
    and f: "H2PushPromiseFrame (end_headers (flags g)) (stream_id g) q fragment pad = Inr f"
    by (auto simp: H2PushPromiseFrame_from_h2frame_def Let_def bindE_eq_Inr bslice_Inr)
  from read_pad_length_Inr [OF pad] have "int (length (payload g)) = int (length inp) + of_bool (pad \<noteq> None)"
    by simp
  with constructor_gives(6) [OF f] f ty data read_padding_Inr [OF rp] show ?thesis
    by (simp add: read_ok_def)
qed

lemma settings_read: "H2SettingsFrame_from_h2frame g = Inr f \<Longrightarrow> read_ok g f"
proof -
  let ?n = "length (payload g) div 6"
  let ?s = "map (setting_at (payload g)) (map (\<lambda>k. 6 * k) [0..<?n])"
  assume "H2SettingsFrame_from_h2frame g = Inr f"
  then have ty: "ftyp g = 4" and six: "length (payload g) mod 6 = 0"
    and f: "H2SettingsFrame (end_stream_or_ack (flags g)) ?s = Inr f"
    by (auto simp: H2SettingsFrame_from_h2frame_def bindE_eq_Inr)
  have fit: "0 \<le> fst (setting_at pl i) \<and> fst (setting_at pl i) < 2 ^ 16 \<and>
    0 \<le> snd (setting_at pl i) \<and> snd (setting_at pl i) < 2 ^ 32" for pl i
  proof -
    have bound: "0 \<le> int_from_bytes bs \<and> int_from_bytes bs < 256 ^ n" if "length bs \<le> n" for bs n
      using int_from_bytes_bounds [of bs] power_increasing [OF that, of "256::int"] by linarith
    show ?thesis
      using bound [of "slice i (i + 2) pl" 2] bound [of "slice (i + 2) (i + 6) pl" 4]
      by (simp add: setting_at_def slice_def)
  qed
  have len: "6 * int ?n = int (length (payload g))"
    using six by (metis mult.commute mult_div_mod_eq add.right_neutral of_nat_mult of_nat_numeral)
  show ?thesis
    using constructor_gives(5) [OF f] f ty fit len by (auto simp: read_ok_def)
qed

lemma constructor_built:
  "H2PriorityFrame sid e d' w' = Inr f \<longleftrightarrow> f = PriorityFrame sid e d' w' \<and> is_ok (H2PriorityFrame sid e d' w')"
  "H2RstStreamFrame sid err = Inr f \<longleftrightarrow> f = RstStreamFrame sid err \<and> is_ok (H2RstStreamFrame sid err)"
  "H2PingFrame ack opaque = Inr f \<longleftrightarrow> f = PingFrame ack opaque \<and> is_ok (H2PingFrame ack opaque)"
  "H2GoAwayFrame sid err debug = Inr f \<longleftrightarrow> f = GoAwayFrame sid err debug \<and> is_ok (H2GoAwayFrame sid err debug)"
  "H2WindowUpdateFrame sid inc = Inr f \<longleftrightarrow> f = WindowUpdateFrame sid inc \<and> is_ok (H2WindowUpdateFrame sid inc)"
  "H2ContinuationFrame eh sid fragment = Inr f \<longleftrightarrow>
     f = ContinuationFrame eh sid fragment \<and> is_ok (H2ContinuationFrame eh sid fragment)"
  using constructor_gives ok_constructor by (metis is_ok_Inr)+

lemma other_reads:
  "H2PriorityFrame_from_h2frame g = Inr f \<Longrightarrow> read_ok g f"
  "H2RstStreamFrame_from_h2frame g = Inr f \<Longrightarrow> read_ok g f"
  "H2PingFrame_from_h2frame g = Inr f \<Longrightarrow> read_ok g f"
  "H2GoAwayFrame_from_h2frame g = Inr f \<Longrightarrow> read_ok g f"
  "H2WindowUpdateFrame_from_h2frame g = Inr f \<Longrightarrow> read_ok g f"
  "H2ContinuationFrame_from_h2frame g = Inr f \<Longrightarrow> read_ok g f"
  by (auto simp: read_ok_def H2PriorityFrame_from_h2frame_def H2RstStreamFrame_from_h2frame_def
      H2PingFrame_from_h2frame_def H2GoAwayFrame_from_h2frame_def H2WindowUpdateFrame_from_h2frame_def
      H2ContinuationFrame_from_h2frame_def bindE_eq_Inr constructor_built)

lemma specialize_read:
  assumes "specialize g = Inr f"
  shows "f = Generic g \<or> read_ok g f"
  using assms
  by (auto simp: specialize_def from_h2frame_def other_reads data_read headers_read push_promise_read
      settings_read split: sum.splits if_splits)

section \<open>When reading raises\<close>

text \<open>A padding length that fits in the payload but claims more bytes than are left: the length of
  the data is negative, and \<open>bslice\<close> asserts.\<close>

definition pad_overflow :: "h2_generic_frame \<Rightarrow> bool" where
  "pad_overflow g \<longleftrightarrow>
     (ftyp g = 0 \<or> ftyp g = 1 \<or> ftyp g = 5) \<and> padded (flags g) \<and>
     (let prefix = (if ftyp g = 0 then 1 else if ftyp g = 5 then 5
                    else if priority (flags g) then 6 else 1) in
      prefix \<le> int (length (payload g)) \<and>
      int (length (payload g)) < prefix + uint (payload g ! 0))"

lemma constructor_errors:
  "H2DataFrame es sid data pad = Inl e \<Longrightarrow> e = H2Error"
  "H2HeadersFrame eh es sid x d w fragment pad = Inl e \<Longrightarrow> e = H2Error"
  "H2PriorityFrame sid ex d' w' = Inl e \<Longrightarrow> e = H2Error"
  "H2RstStreamFrame sid err = Inl e \<Longrightarrow> e = H2Error"
  "H2SettingsFrame ack settings = Inl e \<Longrightarrow> e = H2Error"
  "H2PushPromiseFrame eh sid p fragment pad = Inl e \<Longrightarrow> e = H2Error"
  "H2PingFrame ack opaque = Inl e \<Longrightarrow> e = H2Error"
  "H2GoAwayFrame sid err debug = Inl e \<Longrightarrow> e = H2Error"
  "H2WindowUpdateFrame sid inc = Inl e \<Longrightarrow> e = H2Error"
  "H2ContinuationFrame eh sid fragment = Inl e \<Longrightarrow> e = H2Error"
  by (auto simp: frame_constructors bindE_eq_Inl dest: check_errors)

lemma unpadded_errors:
  "H2PriorityFrame_from_h2frame g = Inl e \<Longrightarrow> e = H2Error"
  "H2RstStreamFrame_from_h2frame g = Inl e \<Longrightarrow> e = H2Error"
  "H2SettingsFrame_from_h2frame g = Inl e \<Longrightarrow> e = H2Error"
  "H2PingFrame_from_h2frame g = Inl e \<Longrightarrow> e = H2Error"
  "H2GoAwayFrame_from_h2frame g = Inl e \<Longrightarrow> e = H2Error"
  "H2WindowUpdateFrame_from_h2frame g = Inl e \<Longrightarrow> e = H2Error"
  "H2ContinuationFrame_from_h2frame g = Inl e \<Longrightarrow> e = H2Error"
  by (auto simp: H2PriorityFrame_from_h2frame_def H2RstStreamFrame_from_h2frame_def
      H2SettingsFrame_from_h2frame_def H2PingFrame_from_h2frame_def H2GoAwayFrame_from_h2frame_def
      H2WindowUpdateFrame_from_h2frame_def H2ContinuationFrame_from_h2frame_def bindE_eq_Inl
      dest: check_errors constructor_errors)

lemma read_padding_Inl:
  "read_padding (Some (uint (b :: byte))) inp = Inl e \<Longrightarrow> e = H2Error"
  "read_padding None inp = Inl e \<Longrightarrow> e = H2Error"
  using uint_byte_bounds [of b]
  by (auto simp: read_padding_def bindE_eq_Inl sys_maxsize_def bslice_Inl dest: check_errors)

lemma bslice_small_Inl:
  "n < 2 ^ 24 \<Longrightarrow> bslice n it = Inl e \<longleftrightarrow>
     (if n < 0 then e = AssertionError else int (length it) < n \<and> e = H2Error)"
  by (rule bslice_Inl) (simp add: sys_maxsize_def)

lemma bslice_pad_Inl:
  assumes "bslice (int (length it) - uint (b :: byte)) it = Inl e" and "length it < 2 ^ 24"
  shows "e = AssertionError \<and> int (length it) < uint b"
proof -
  have "int (length it) < 2 ^ 24"
    using assms(2) by simp
  then have "int (length it) - uint b < 2 ^ 24" and "\<not> int (length it) < int (length it) - uint b"
    using uint_byte_bounds [of b] by linarith+
  with assms(1) show ?thesis
    by (auto simp: bslice_small_Inl split: if_splits)
qed

lemma bslice_all [simp]: "length it < 2 ^ 24 \<Longrightarrow> bslice (int (length it)) it = Inr (it, [])"
  by (rule bslice_front) simp_all

lemma next_byte_Inl: "next_byte it = Inl e \<longleftrightarrow> it = [] \<and> e = StopIteration"
  by (auto simp: next_byte_def split: list.splits)

lemma data_errors:
  assumes "ftyp g = 0" and "int (length (payload g)) < 2 ^ 24"
  shows "H2DataFrame_from_h2frame g = Inl e \<Longrightarrow> e = H2Error \<or> e = AssertionError \<and> pad_overflow g"
    and "pad_overflow g \<Longrightarrow> H2DataFrame_from_h2frame g = Inl AssertionError"
proof -
  show "e = H2Error \<or> e = AssertionError \<and> pad_overflow g" if "H2DataFrame_from_h2frame g = Inl e"
    using that assms uint_byte_bounds [of "payload g ! 0"]
    by (cases "payload g"; cases "padded (flags g)")
      (auto simp: H2DataFrame_from_h2frame_def bindE_eq_Inl check_frame_type_def bslice_small_Inl
        pad_overflow_def dest: constructor_errors read_padding_Inl dest!: bslice_pad_Inl split: if_splits)
  show "H2DataFrame_from_h2frame g = Inl AssertionError" if "pad_overflow g"
    using that assms
    by (cases "payload g")
      (auto simp: H2DataFrame_from_h2frame_def check_frame_type_def bslice_def pad_overflow_def)
qed

lemma split_payload:
  assumes "6 \<le> length pl"
  shows "\<exists>b raw w rest. pl = b # raw @ w # rest \<and> length raw = 4"
proof -
  obtain b r where r: "pl = b # r" and five: "5 \<le> length r" using assms by (cases pl) auto
  then obtain w rest where "drop 4 r = w # rest" by (cases "drop 4 r") auto
  then have "pl = b # take 4 r @ w # rest"
    using r append_take_drop_id [of 4 r] by simp
  moreover have "length (take 4 r) = 4" using five by simp
  ultimately show ?thesis by blast
qed

lemma headers_errors:
  assumes "ftyp g = 1" and "int (length (payload g)) < 2 ^ 24"
  shows "H2HeadersFrame_from_h2frame g = Inl e \<Longrightarrow> e = H2Error \<or> e = AssertionError \<and> pad_overflow g"
    and "pad_overflow g \<Longrightarrow> H2HeadersFrame_from_h2frame g = Inl AssertionError"
proof -
  have four: "bslice 4 it = Inl e \<longleftrightarrow> length it < 4 \<and> e = H2Error" for it e
    by (auto simp: bslice_small_Inl)
  show "e = H2Error \<or> e = AssertionError \<and> pad_overflow g" if "H2HeadersFrame_from_h2frame g = Inl e"
    using that assms uint_byte_bounds [of "payload g ! 0"]
    by (cases "padded (flags g)"; cases "priority (flags g)"; cases "payload g")
      (auto simp: H2HeadersFrame_from_h2frame_def bindE_eq_Inl bindE_eq_Inr check_frame_type_def
        bslice_small_Inl four pad_overflow_def read_pad_length_def read_priority_def Let_def bslice_Inr
        next_byte_Inl next_byte_Inr dest: constructor_errors read_padding_Inl dest!: bslice_pad_Inl split: if_splits)
  show "H2HeadersFrame_from_h2frame g = Inl AssertionError" if "pad_overflow g"
  proof (cases "priority (flags g)")
    case False
    with that assms show ?thesis
      by (cases "payload g")
        (auto simp: H2HeadersFrame_from_h2frame_def check_frame_type_def read_pad_length_def
          read_priority_def bslice_def pad_overflow_def)
  next
    case True
    with that assms have "\<exists>b raw w rest. payload g = b # raw @ w # rest \<and> length raw = 4"
      by (intro split_payload) (simp add: pad_overflow_def)
    then obtain b raw w rest where "payload g = b # raw @ w # rest" and "length raw = 4"
      by blast
    with that True assms show ?thesis
      by (simp add: H2HeadersFrame_from_h2frame_def check_frame_type_def read_pad_length_def
          read_priority_def Let_def bslice_front pad_overflow_def) (simp add: bslice_def)
  qed
qed

lemma push_promise_errors:
  assumes "ftyp g = 5" and "int (length (payload g)) < 2 ^ 24"
  shows "H2PushPromiseFrame_from_h2frame g = Inl e \<Longrightarrow> e = H2Error \<or> e = AssertionError \<and> pad_overflow g"
    and "pad_overflow g \<Longrightarrow> H2PushPromiseFrame_from_h2frame g = Inl AssertionError"
proof -
  have four: "bslice 4 it = Inl e \<longleftrightarrow> length it < 4 \<and> e = H2Error" for it e
    by (auto simp: bslice_small_Inl)
  show "e = H2Error \<or> e = AssertionError \<and> pad_overflow g" if "H2PushPromiseFrame_from_h2frame g = Inl e"
  proof (cases "padded (flags g)")
    case True
    then show ?thesis
      using that assms uint_byte_bounds [of "payload g ! 0"]
      by (cases "payload g")
        (auto simp: H2PushPromiseFrame_from_h2frame_def bindE_eq_Inl bindE_eq_Inr check_frame_type_def
          bslice_small_Inl four pad_overflow_def read_pad_length_def Let_def bslice_Inr
          dest: constructor_errors read_padding_Inl dest!: bslice_pad_Inl split: if_splits)
  next
    case False
    then show ?thesis
      using that assms
      by (auto simp: H2PushPromiseFrame_from_h2frame_def bindE_eq_Inl check_frame_type_def four
          read_pad_length_def Let_def bslice_Inr dest: constructor_errors read_padding_Inl)
  qed
  show "H2PushPromiseFrame_from_h2frame g = Inl AssertionError" if "pad_overflow g"
  proof -
    from that assms obtain b r where "payload g = b # r" and "4 \<le> length r"
      by (cases "payload g") (auto simp: pad_overflow_def)
    then have "payload g = b # take 4 r @ drop 4 r" and "length (take 4 r) = 4"
      by simp_all
    then obtain raw rest where "payload g = b # raw @ rest" and "length raw = 4"
      by blast
    with that assms show ?thesis
      by (simp add: H2PushPromiseFrame_from_h2frame_def check_frame_type_def read_pad_length_def
          Let_def bslice_front pad_overflow_def) (simp add: bslice_def)
  qed
qed

lemma catch_H2Error:
  assumes "\<And>e. m = Inl e \<Longrightarrow> e = H2Error \<or> e = AssertionError \<and> P" and "P \<Longrightarrow> m = Inl AssertionError"
  shows "(case m of Inr g \<Rightarrow> Inr g | Inl e \<Rightarrow> if e = H2Error then Inr d else Inl e) = Inl e \<longleftrightarrow>
    e = AssertionError \<and> P"
  using assms by (cases m) auto

lemma specialize_raises:
  assumes "wire_frame g"
  shows "specialize g = Inl e \<longleftrightarrow> e = AssertionError \<and> pad_overflow g"
proof -
  have size: "int (length (payload g)) < 2 ^ 24"
    using assms by (simp add: wire_frame_def)
  show ?thesis
  proof (cases "ftyp g = 0 \<or> ftyp g = 1 \<or> ftyp g = 5")
    case True
    then consider "ftyp g = 0" | "ftyp g = 1" | "ftyp g = 5" by blast
    then have "\<exists>fn. from_h2frame (ftyp g) = Some fn \<and>
      (\<forall>e. fn g = Inl e \<longrightarrow> e = H2Error \<or> e = AssertionError \<and> pad_overflow g) \<and>
      (pad_overflow g \<longrightarrow> fn g = Inl AssertionError)"
    proof cases
      case 1
      then show ?thesis
        using data_errors [OF 1 size] by (simp add: from_h2frame_def)
    next
      case 2
      then show ?thesis
        using headers_errors [OF 2 size] by (simp add: from_h2frame_def)
    next
      case 3
      then show ?thesis
        using push_promise_errors [OF 3 size] by (simp add: from_h2frame_def)
    qed
    then obtain fn where fn: "from_h2frame (ftyp g) = Some fn"
      and "\<And>e. fn g = Inl e \<Longrightarrow> e = H2Error \<or> e = AssertionError \<and> pad_overflow g"
      and "pad_overflow g \<Longrightarrow> fn g = Inl AssertionError"
      by blast
    from catch_H2Error [OF this(2,3)] show ?thesis
      by (simp only: specialize_def fn option.case)
  next
    case False
    then have fn: "from_h2frame (ftyp g) = Some fn \<Longrightarrow> fn g = Inl e \<Longrightarrow> e = H2Error" for fn e
      by (auto simp: from_h2frame_def unpadded_errors split: if_splits)
    show ?thesis
    proof (cases "from_h2frame (ftyp g)")
      case None
      with False show ?thesis by (simp add: specialize_def pad_overflow_def)
    next
      case (Some f)
      with False fn [OF Some] show ?thesis
        by (cases "f g") (auto simp: specialize_def pad_overflow_def)
    qed
  qed
qed

section \<open>Streams of typed frames\<close>

lemma parse_frames_prints:
  assumes "\<forall>f \<in> set fs. frame_ok f" and "mapE h2_to_bytes fs = Inr bss"
  shows "parse_frames (concat bss) = Inr fs"
proof -
  have "\<exists>gs. mapE to_generic fs = Inr gs \<and> (\<forall>g \<in> set gs. wire_frame g) \<and> mapE specialize gs = Inr fs \<and>
    mapE H2GenericFrame_to_bytes gs = Inr bss"
    using assms
  proof (induction fs arbitrary: bss)
    case (Cons f fs)
    then obtain b css where fb: "h2_to_bytes f = Inr b"
      and css: "mapE h2_to_bytes fs = Inr css" "bss = b # css"
      by (auto simp: bindE_eq_Inr)
    then obtain g where g: "to_generic f = Inr g" and b: "H2GenericFrame_to_bytes g = Inr b"
      by (auto simp: bindE_eq_Inr h2_to_bytes_def)
    from Cons.IH [OF _ css(1)] Cons.prems(1) obtain gs where "mapE to_generic fs = Inr gs"
      "\<forall>g \<in> set gs. wire_frame g" "mapE specialize gs = Inr fs" "mapE H2GenericFrame_to_bytes gs = Inr css"
      by auto
    with g b css(2) Cons.prems(1) show ?case
      using to_generic_wire [OF _ g] specialize_to_generic [OF _ g]
      by (intro exI [of _ "g # gs"]) simp
  qed simp
  then obtain gs where gs: "\<forall>g \<in> set gs. wire_frame g" "mapE specialize gs = Inr fs"
    "mapE H2GenericFrame_to_bytes gs = Inr bss"
    by blast
  then show ?thesis
    using h2_stream.parse_all_concat [OF gs(1,3)] by (simp add: parse_frames_def)
qed

section \<open>Properties\<close>



text \<open>What \<open>specialize\<close> returns is in normal form. It keeps a frame as it is, or gives a typed
  frame that prints as a frame of the same type and payload length, and reading that frame gives the
  same typed frame again. So reserved bits, unused flags and the contents of the padding are
  dropped once, and nothing more is lost by printing and reading again.\<close>

theorem specialize_normalizes:
  assumes "wire_frame g" and "specialize g = Inr f"
  shows "f = Generic g \<or> (\<exists>h. to_generic f = Inr h \<and> ftyp h = ftyp g \<and>
    length (payload h) = length (payload g) \<and> specialize h = Inr f)"
proof -
  have "\<exists>h. to_generic f = Inr h \<and> ftyp h = ftyp g \<and> length (payload h) = length (payload g) \<and>
    specialize h = Inr f" if read: "read_ok g f"
  proof -
    from read assms(1) have ok: "frame_ok f" "settings_fit f" "payload_size f < 2 ^ 24"
      "payload_size f = int (length (payload g))" "frame_type_of f = ftyp g"
      by (auto simp: read_ok_def wire_frame_def)
    from to_generic_ok [OF ok(1-3)] obtain h
      where h: "to_generic f = Inr h" "int (length (payload h)) = payload_size f"
      by blast
    with ok(4,5) to_generic_type [OF h(1)] specialize_to_generic [OF ok(1) h(1)] show ?thesis
      by simp
  qed
  with specialize_read [OF assms(2)] show ?thesis by blast
qed

theorem specialize_normalizes_witness:
  "\<exists>f. specialize \<lparr>ftyp = 0, flags = H2Flags\<lparr>padded := True, unused7 := True\<rparr>, reserved = True, stream_id = 1,
       payload = [2, 5, 6, 7]\<rparr> = Inr f \<and> f = DataFrame False 1 [5] (Some 2) \<and>
     (\<exists>h. to_generic f = Inr h \<and> ftyp h = 0 \<and> length (payload h) = 4 \<and> specialize h = Inr f)"
proof -
  let ?g = "\<lparr>ftyp = 0, flags = H2Flags\<lparr>padded := True, unused7 := True\<rparr>, reserved = True, stream_id = 1,
    payload = [2, 5, 6, 7]\<rparr>"
  have s: "specialize ?g = Inr (DataFrame False 1 [5] (Some 2))"
    by code_simp
  have "wire_frame ?g"
    by (simp add: wire_frame_def)
  with specialize_normalizes [OF _ s] s show ?thesis
    by (simp add: eval_nat_numeral del: to_generic.simps)
qed

text \<open>C7: \<open>specialize\<close> is meant to keep a malformed frame as a generic one, by catching \<open>H2Error\<close>.
  It fails to exactly on DATA, HEADERS and PUSH_PROMISE frames whose padding length claims more
  bytes than follow it: \<open>bslice\<close> is called with a negative length, and its \<open>AssertionError\<close> leaves
  \<open>specialize\<close>. On every other frame \<open>specialize\<close> returns.\<close>

theorem specialize_raises_on_too_long_padding:
  assumes "wire_frame g"
  shows "specialize g = Inl e \<longleftrightarrow> e = AssertionError \<and> pad_overflow g"
  using assms by (rule specialize_raises)

theorem specialize_raises_on_too_long_padding_witness:
  "specialize \<lparr>ftyp = 0, flags = H2Flags\<lparr>padded := True\<rparr>, reserved = False, stream_id = 1, payload = [9, 5]\<rparr>
     = Inl AssertionError"
  using specialize_raises_on_too_long_padding
    [of "\<lparr>ftyp = 0, flags = H2Flags\<lparr>padded := True\<rparr>, reserved = False, stream_id = 1, payload = [9, 5]\<rparr>"
      AssertionError]
  by (simp add: wire_frame_def pad_overflow_def)

text \<open>\<open>check_priority\<close> lets a HEADERS frame have a stream dependency without the other priority
  fields, which its message forbids: \<open>a != b != c\<close> is two comparisons. The frame is built and
  printed, but without the dependency, and reads back as a frame that has none.\<close>

theorem partial_priority_is_dropped:
  assumes "0 < sid" and "sid < 2 ^ 31" and "0 \<le> d" and "d < 2 ^ 31" and "length fragment < 2 ^ 24"
  shows "\<exists>f g. H2HeadersFrame eh es sid None (Some d) None fragment None = Inr f \<and>
    to_generic f = Inr g \<and> specialize g = Inr (HeadersFrame eh es sid None None None fragment None)"
proof -
  let ?f = "HeadersFrame eh es sid None (Some d) None fragment None"
  let ?n = "HeadersFrame eh es sid None None None fragment None"
  have f: "H2HeadersFrame eh es sid None (Some d) None fragment None = Inr ?f"
    using assms by (simp add: H2HeadersFrame_def check_priority_def check_stream_id_def check_pad_length_def
        push_bit_of_1)
  have n: "frame_ok ?n"
    using assms by (simp add: H2HeadersFrame_def check_priority_def check_stream_id_def check_pad_length_def
        push_bit_of_1)
  obtain g where g: "to_generic ?n = Inr g"
    using to_generic_ok [OF n] assms(5) by (auto simp: headers_priority_def)
  moreover have "to_generic ?f = to_generic ?n"
    by (simp add: H2HeadersFrame_to_generic_def headers_priority_def)
  ultimately show ?thesis
    using f specialize_to_generic [OF n g] by metis
qed

theorem partial_priority_is_dropped_witness:
  "\<exists>f g. H2HeadersFrame True False 1 None (Some 3) None [0x82] None = Inr f \<and>
    to_generic f = Inr g \<and> specialize g = Inr (HeadersFrame True False 1 None None None [0x82] None)"
  using partial_priority_is_dropped [of 1 3 "[0x82]" True False] by simp

end
