(* ===== verification/Http1.thy ===== *)
theory Http1
  imports Util "HOL-Library.List_Lexorder" "HOL-Library.Product_Lexorder" "HOL-Library.Multiset"
begin

text \<open>
  \<open>tools/http1.py\<close>, the parsed messages \<open>HTTPRequest\<close> and \<open>HTTPResponse\<close> and the operations on
  them: equality up to framing headers and version, validity, and the header edits the comparison of
  servers uses. The lemmas say what equality means, which names validity lets through, and what
  joining duplicate headers does.
\<close>

section \<open>Byte strings\<close>

definition lower :: "bytes \<Rightarrow> bytes" where
  "lower s = map (\<lambda>c. if 0x41 \<le> c \<and> c \<le> 0x5A then c + 0x20 else c) s"

definition METHODS :: "bytes list" where
  "METHODS =
    [
     ascii ''ACL'', ascii ''ANNOUNCE'', ascii ''BASELINE-CONTROL'', ascii ''BIND'',
     ascii ''CHECKIN'', ascii ''CHECKOUT'', ascii ''COPY'', ascii ''DELETE'',
     ascii ''DESCRIBE'', ascii ''FLUSH'', ascii ''GET'', ascii ''GET_PARAMETER'',
     ascii ''LABEL'', ascii ''LINK'', ascii ''LOCK'', ascii ''M-SEARCH'',
     ascii ''MERGE'', ascii ''MKACTIVITY'', ascii ''MKCALENDAR'', ascii ''MKCOL'',
     ascii ''MKREDIRECTREF'', ascii ''MKWORKSPACE'', ascii ''MOVE'', ascii ''NOTIFY'',
     ascii ''ORDERPATCH'', ascii ''PATCH'', ascii ''PAUSE'', ascii ''PLAY'',
     ascii ''POST'', ascii ''PROPFIND'', ascii ''PROPPATCH'', ascii ''PURGE'',
     ascii ''PUT'', ascii ''QUERY'', ascii ''REBIND'', ascii ''RECORD'',
     ascii ''REDIRECT'', ascii ''REFRESH'', ascii ''REPORT'', ascii ''SEARCH'',
     ascii ''SETUP'', ascii ''SET_PARAMETER'', ascii ''SOURCE'', ascii ''SUBSCRIBE'',
     ascii ''TEARDOWN'', ascii ''UNBIND'', ascii ''UNCHECKOUT'', ascii ''UNKNOWN'',
     ascii ''UNLINK'', ascii ''UNLOCK'', ascii ''UNSET'', ascii ''UNSUBSCRIBE'',
     ascii ''UPDATE'', ascii ''UPDATEREDIRECTREF'', ascii ''VERSION-CONTROL'', ascii ''*'']"

definition TCHARS :: "byte set" where
  "TCHARS = set (ascii ''!#$%&'' @ [0x27] @
     ascii ''*+-.^_`|~abcdefghijklmnopqrstuvwxyzABCDEFGHIJKLMNOPQRSTUVWXYZ0123456789'')"

definition INVALID_HEADER_VALUE_BYTES :: "byte set" where
  "INVALID_HEADER_VALUE_BYTES = {0x0D, 0x0A, 0x00}"

section \<open>Messages\<close>

type_synonym http_header = "bytes \<times> bytes"

record http_request =
  req_method :: bytes
  req_uri :: bytes
  req_headers :: "http_header list"
  req_body :: bytes
  req_version :: bytes

record http_response =
  res_version :: bytes
  res_code :: bytes
  res_reason :: bytes
  res_headers :: "http_header list"
  res_body :: bytes

definition has_header :: "http_request \<Rightarrow> bytes \<Rightarrow> bytes option \<Rightarrow> bool" where
  "has_header r name val \<longleftrightarrow>
     list_ex (\<lambda>(k, v). lower k = lower name \<and> (val = None \<or> val = Some v)) (req_headers r)"

definition framing_names :: "bytes list" where
  "framing_names =
     [ascii ''content-length'', ascii ''content_length'', ascii ''transfer-encoding'',
      ascii ''transfer_encoding'']"

text \<open>\<open>sorted\<close> on pairs of byte strings: both compare lexicographically.\<close>

definition normalized_headers :: "http_request \<Rightarrow> http_header list" where
  "normalized_headers r =
     sort (map (\<lambda>(k, v). (lower k, v)) (filter (\<lambda>(k, v). lower k \<notin> set framing_names) (req_headers r)))"

text \<open>\<open>__eq__\<close> of the two classes.\<close>

definition req_eq :: "http_request \<Rightarrow> http_request \<Rightarrow> bool" where
  "req_eq r s \<longleftrightarrow>
     req_method r = req_method s \<and> req_uri r = req_uri s \<and>
     normalized_headers r = normalized_headers s \<and> req_body r = req_body s \<and>
     (req_version r = req_version s \<or> req_version s = [] \<or> req_version r = [])"

definition res_eq :: "http_response \<Rightarrow> http_response \<Rightarrow> bool" where
  "res_eq r s \<longleftrightarrow> res_code r = res_code s"

text \<open>\<open><\<close> on Python sets is the strict subset.\<close>

definition is_valid :: "http_request \<Rightarrow> bool" where
  "is_valid r \<longleftrightarrow>
     list_all (\<lambda>(name, _). set name \<subset> TCHARS) (req_headers r) \<and>
     list_all (\<lambda>(_, v). INVALID_HEADER_VALUE_BYTES \<inter> set v = {}) (req_headers r) \<and>
     set (req_method r) \<subset> TCHARS"

section \<open>Header edits\<close>

definition remove_request_header :: "http_request \<Rightarrow> bytes \<Rightarrow> http_request" where
  "remove_request_header r key =
     r\<lparr>req_headers := filter (\<lambda>h. lower (fst h) \<noteq> lower key) (req_headers r)\<rparr>"

text \<open>A dict is the list of its items in insertion order: \<open>d[k] += joiner + v\<close> on a key that is
  in it keeps its place, and a new key goes to the end.\<close>

fun dict_join :: "bytes \<Rightarrow> http_header list \<Rightarrow> bytes \<Rightarrow> bytes \<Rightarrow> http_header list" where
  "dict_join joiner [] k v = [(k, v)]"
| "dict_join joiner ((k', v') # d) k v =
     (if k' = k then (k', v' @ joiner @ v) # d else (k', v') # dict_join joiner d k v)"

definition join_duplicate_headers :: "http_request \<Rightarrow> bytes \<Rightarrow> http_request" where
  "join_duplicate_headers r joiner =
     r\<lparr>req_headers := foldl (\<lambda>d (k, v). dict_join joiner d (lower k) v) [] (req_headers r)\<rparr>"

definition translate_request_header_names :: "http_request \<Rightarrow> (bytes \<times> bytes) list \<Rightarrow> http_request" where
  "translate_request_header_names r tr =
     r\<lparr>req_headers := map (\<lambda>h. (translate (fst h) tr, snd h)) (req_headers r)\<rparr>"

section \<open>Equality\<close>

lemma lower_lower [simp]: "lower (lower s) = lower s"
proof -
  have "(if 0x41 \<le> d \<and> d \<le> 0x5A then d + 0x20 else d) = d"
    if "d = (if 0x41 \<le> c \<and> c \<le> 0x5A then c + 0x20 else c)" for c d :: byte
  proof (cases "0x41 \<le> c \<and> c \<le> 0x5A")
    case True
    then have "unat (c + 0x20) = unat c + 0x20"
      by (subst unat_add_lem [THEN iffD1]) (auto simp: word_le_nat_alt)
    with True that show ?thesis
      by (auto simp: word_le_nat_alt)
  qed (use that in auto)
  then show ?thesis
    by (simp add: lower_def)
qed

lemma lower_append: "lower (s @ t) = lower s @ lower t"
  by (simp add: lower_def)

lemma length_lower [simp]: "length (lower s) = length s"
  by (simp add: lower_def)

text \<open>The headers equality looks at, without their order.\<close>

definition header_bag :: "http_request \<Rightarrow> http_header multiset" where
  "header_bag r =
     mset (map (\<lambda>(k, v). (lower k, v)) (filter (\<lambda>(k, v). lower k \<notin> set framing_names) (req_headers r)))"

lemma sort_eq_iff: "sort xs = sort ys \<longleftrightarrow> mset xs = mset ys"
  by (metis mset_sort properties_for_sort sorted_sort)

lemma normalized_headers_eq: "normalized_headers r = normalized_headers s \<longleftrightarrow> header_bag r = header_bag s"
  by (simp add: normalized_headers_def header_bag_def sort_eq_iff)

section \<open>Joining duplicates\<close>

fun intercalate :: "bytes \<Rightarrow> bytes list \<Rightarrow> bytes" where
  "intercalate joiner [] = []"
| "intercalate joiner [v] = v"
| "intercalate joiner (v # w # vs) = v @ joiner @ intercalate joiner (w # vs)"

definition header_values :: "bytes \<Rightarrow> http_header list \<Rightarrow> bytes list" where
  "header_values k hs = map snd (filter (\<lambda>h. lower (fst h) = k) hs)"

text \<open>The names in the order of their first occurrence.\<close>

fun first_names :: "bytes list \<Rightarrow> bytes list" where
  "first_names [] = []"
| "first_names (k # ks) = k # filter (\<lambda>x. x \<noteq> k) (first_names ks)"

lemma set_first_names [simp]: "set (first_names ks) = set ks"
  by (induction ks) auto

lemma distinct_first_names [simp]: "distinct (first_names ks)"
  by (induction ks) auto

lemma first_names_snoc:
  "first_names (ks @ [k]) = (if k \<in> set ks then first_names ks else first_names ks @ [k])"
  by (induction ks) auto

lemma intercalate_snoc: "vs \<noteq> [] \<Longrightarrow> intercalate j (vs @ [v]) = intercalate j vs @ j @ v"
  by (induction j vs rule: intercalate.induct) simp_all

lemma dict_join_map:
  "distinct names \<Longrightarrow> dict_join j (map (\<lambda>x. (x, f x)) names) k v =
     (if k \<in> set names then map (\<lambda>x. (x, if x = k then f k @ j @ v else f x)) names
      else map (\<lambda>x. (x, f x)) names @ [(k, v)])"
proof (induction names)
  case (Cons n names)
  then have "map (\<lambda>x. (x, if x = n then f n @ j @ v else f x)) names = map (\<lambda>x. (x, f x)) names"
    by (intro map_cong) auto
  with Cons show ?case by auto
qed simp

lemma join_headers_eq:
  "foldl (\<lambda>d (k, v). dict_join j d (lower k) v) [] hs =
     map (\<lambda>k. (k, intercalate j (header_values k hs))) (first_names (map (\<lambda>h. lower (fst h)) hs))"
proof (induction hs rule: rev_induct)
  case (snoc h hs)
  obtain k v where h: "h = (k, v)" by (cases h)
  let ?names = "first_names (map (\<lambda>h. lower (fst h)) hs)"
  have vals: "header_values x (hs @ [h]) = header_values x hs @ (if x = lower k then [v] else [])" for x
    using h by (auto simp: header_values_def)
  show ?case
  proof (cases "lower k \<in> set (map (\<lambda>h. lower (fst h)) hs)")
    case True
    then have "header_values (lower k) hs \<noteq> []"
      by (force simp: header_values_def filter_empty_conv)
    then have "map (\<lambda>x. (x, if x = lower k then intercalate j (header_values (lower k) hs) @ j @ v
        else intercalate j (header_values x hs))) ?names =
      map (\<lambda>x. (x, intercalate j (header_values x (hs @ [h])))) ?names"
      by (intro map_cong) (simp_all add: vals intercalate_snoc)
    with True snoc h show ?thesis
      by (simp add: dict_join_map first_names_snoc)
  next
    case False
    then have "header_values (lower k) hs = []"
      by (force simp: header_values_def filter_empty_conv)
    moreover have "map (\<lambda>x. (x, intercalate j (header_values x (hs @ [h])))) ?names =
      map (\<lambda>x. (x, intercalate j (header_values x hs))) ?names"
      using False by (intro map_cong) (force simp: vals)+
    moreover from calculation(1) have "header_values (lower k) (hs @ [h]) = [v]"
      by (simp add: vals)
    ultimately show ?thesis
      using False snoc h by (simp add: dict_join_map first_names_snoc)
  qed
qed simp

section \<open>Properties\<close>

text \<open>What equality of requests is. Two requests are equal when method, target and body agree, the
  headers other than the framing ones agree as a bag with names in lower case (order does not
  matter, repetitions do), and the versions agree or one of them is empty.\<close>

theorem request_equality:
  "req_eq r s \<longleftrightarrow>
     req_method r = req_method s \<and> req_uri r = req_uri s \<and> req_body r = req_body s \<and>
     header_bag r = header_bag s \<and>
     (req_version r = req_version s \<or> req_version r = [] \<or> req_version s = [])"
  by (auto simp: req_eq_def normalized_headers_eq)

text \<open>Equality of requests is reflexive and symmetric but not transitive: it fails to be exactly
  where the middle request has no version and the outer two have different ones, so grouping by
  equality depends on the order.\<close>

theorem request_equality_is_not_transitive:
  "req_eq r r \<and> (req_eq r s \<longleftrightarrow> req_eq s r) \<and>
    (req_eq r s \<and> req_eq s t \<and> \<not> req_eq r t \<longleftrightarrow>
       req_eq r s \<and> req_eq s t \<and> req_version s = [] \<and> req_version r \<noteq> [] \<and> req_version t \<noteq> [] \<and>
       req_version r \<noteq> req_version t) \<and>
    (\<exists>a b c. req_eq a b \<and> req_eq b c \<and> \<not> req_eq a c)"
proof (intro conjI)
  let ?r = "\<lambda>v. \<lparr>req_method = [], req_uri = [], req_headers = [], req_body = [], req_version = v\<rparr>"
  have "req_eq (?r [1]) (?r [])" and "req_eq (?r []) (?r [2])" and "\<not> req_eq (?r [1]) (?r [2])"
    by (simp_all add: req_eq_def normalized_headers_def)
  then show "\<exists>a b c. req_eq a b \<and> req_eq b c \<and> \<not> req_eq a c"
    by blast
qed (auto simp: req_eq_def)

text \<open>\<open>join_duplicate_headers\<close> keeps one header per name, in lower case and in the order of first
  occurrence, whose value is all the values of that name in order, with the joiner between them.\<close>

theorem join_duplicate_headers_spec:
  "req_headers (join_duplicate_headers r joiner) =
     map (\<lambda>k. (k, intercalate joiner (map snd (filter (\<lambda>h. lower (fst h) = k) (req_headers r)))))
       (first_names (map (\<lambda>h. lower (fst h)) (req_headers r)))"
  by (simp add: join_duplicate_headers_def join_headers_eq header_values_def)

text \<open>\<open>is_valid\<close> compares sets with \<open><\<close>, the strict subset. So a name or method is let through
  when its bytes are token bytes and not all 77 of them occur: the empty name, which RFC 9110 does
  not allow, is valid, and a token that has every token byte is not.\<close>

theorem is_valid_spec:
  "is_valid r \<longleftrightarrow>
     (\<forall>t \<in> insert (req_method r) (set (map fst (req_headers r))). set t \<subseteq> TCHARS \<and> card (set t) < 77) \<and>
     (\<forall>v \<in> set (map snd (req_headers r)). 0x0D \<notin> set v \<and> 0x0A \<notin> set v \<and> 0x00 \<notin> set v)"
proof -
  have card: "card TCHARS = 77"
    by code_simp
  have fin: "finite TCHARS"
    by (simp add: TCHARS_def)
  have strict: "A \<subset> TCHARS \<longleftrightarrow> A \<subseteq> TCHARS \<and> card A < 77" for A
    using card_subset_eq [OF fin, of A] psubset_card_mono [OF fin, of A] card by auto
  show ?thesis
    by (simp add: is_valid_def strict INVALID_HEADER_VALUE_BYTES_def list_all_iff case_prod_unfold) blast
qed

theorem is_valid_spec_witness:
  "is_valid \<lparr>req_method = [], req_uri = [], req_headers = [([], [])], req_body = [], req_version = []\<rparr>"
  by (subst is_valid_spec) simp

end
