(* ===== verification/PyRegex.thy ===== *)
theory PyRegex
  imports PyBytes
begin

text \<open>
  The part of Python's \<open>re\<close> that \<open>tools/http1.py\<close> uses, on byte patterns: classes of bytes,
  greedy and lazy repetition of a class, a counted repetition, an optional part, sequence, named
  groups and \<open>\Z\<close>. \<open>re\<close> tries the ways to match in a fixed order and takes the first, so a
  pattern is the list of its ways to match in that order. The lemmas give the first way for the
  shapes of pattern the parser is written with.
\<close>

section \<open>Patterns\<close>

datatype regex =
    Class "byte \<Rightarrow> bool"
  | Many "byte \<Rightarrow> bool"
  | Many1 "byte \<Rightarrow> bool"
  | Lazy "byte \<Rightarrow> bool"
  | Repeat "byte \<Rightarrow> bool" nat
  | Maybe regex
  | Named string regex
  | AtEnd
  | Cat "regex list"

type_synonym captures = "(string \<times> bytes) list"

text \<open>A way to match: the groups it sets and what is left of the input.\<close>

function (sequential) runs :: "regex \<Rightarrow> bytes \<Rightarrow> (captures \<times> bytes) list" where
  "runs (Class p) s = (case s of [] \<Rightarrow> [] | c # t \<Rightarrow> if p c then [([], t)] else [])"
| "runs (Many p) s = map (\<lambda>k. ([], drop k s)) (rev [0..<Suc (length (takeWhile p s))])"
| "runs (Many1 p) s = map (\<lambda>k. ([], drop k s)) (rev [1..<Suc (length (takeWhile p s))])"
| "runs (Lazy p) s = map (\<lambda>k. ([], drop k s)) [0..<Suc (length (takeWhile p s))]"
| "runs (Repeat p n) s = (if n \<le> length s \<and> list_all p (take n s) then [([], drop n s)] else [])"
| "runs (Maybe r) s = runs r s @ [([], s)]"
| "runs (Named x r) s = map (\<lambda>(cs, t). ((x, take (length s - length t) s) # cs, t)) (runs r s)"
| "runs AtEnd s = (if s = [] then [([], s)] else [])"
| "runs (Cat []) s = [([], s)]"
| "runs (Cat (r # rs)) s =
     concat (map (\<lambda>(cs, t). map (\<lambda>(ds, u). (cs @ ds, u)) (runs (Cat rs) t)) (runs r s))"
  by pat_completeness auto
termination
  by (relation "measure (\<lambda>(r, s). size r)") auto

declare runs.simps(2-5) [simp del]

text \<open>\<open>re.match\<close>: the first way from the start of the input.\<close>

definition re_match :: "regex \<Rightarrow> bytes \<Rightarrow> (captures \<times> bytes) option" where
  "re_match r s = (case runs r s of [] \<Rightarrow> None | m # _ \<Rightarrow> Some m)"

text \<open>\<open>re.search\<close>: the first start that matches, as the number of bytes before the match.\<close>

fun re_search :: "regex \<Rightarrow> bytes \<Rightarrow> (nat \<times> captures \<times> bytes) option" where
  "re_search r s =
     (case re_match r s of
        Some (cs, t) \<Rightarrow> Some (0, cs, t)
      | None \<Rightarrow>
          (case s of [] \<Rightarrow> None
           | c # s' \<Rightarrow> map_option (\<lambda>(i, cs, t). (Suc i, cs, t)) (re_search r s')))"

declare re_search.simps [simp del]

text \<open>\<open>re.split\<close>, for patterns without groups that never match the empty string.\<close>

function re_split :: "regex \<Rightarrow> bytes \<Rightarrow> bytes list" where
  "re_split r s =
     (case re_search r s of
        None \<Rightarrow> [s]
      | Some (i, cs, t) \<Rightarrow> if length t < length s then take i s # re_split r t else [s])"
  by pat_completeness auto
termination
  by (relation "measure (\<lambda>(r, s). length s)") auto

declare re_split.simps [simp del]

text \<open>The group \<open>m[x]\<close>; \<open>None\<close> when the group took no part in the match.\<close>

definition group :: "captures \<Rightarrow> string \<Rightarrow> bytes option" where
  "group cs x = map_of cs x"

section \<open>Byte classes\<close>

definition one :: "char \<Rightarrow> regex" where
  "one c = Class (\<lambda>b. b = of_char c)"

definition lit :: "string \<Rightarrow> regex" where
  "lit s = Cat (map one s)"

text \<open>\<open>\s\<close>, \<open>\d\<close> and \<open>.\<close> of a byte pattern.\<close>

definition is_space :: "byte \<Rightarrow> bool" where
  "is_space b \<longleftrightarrow> b = 0x20 \<or> b = 0x09 \<or> b = 0x0A \<or> b = 0x0D \<or> b = 0x0C \<or> b = 0x0B"

definition is_digit :: "byte \<Rightarrow> bool" where
  "is_digit b \<longleftrightarrow> 0x30 \<le> b \<and> b \<le> 0x39"

definition not_newline :: "byte \<Rightarrow> bool" where
  "not_newline b \<longleftrightarrow> b \<noteq> 0x0A"

section \<open>The first way to match\<close>

lemma re_match_Class: "re_match (Class p) (c # s) = (if p c then Some ([], s) else None)"
  "re_match (Class p) [] = None"
  by (simp_all add: re_match_def)

lemma first_of_concat:
  "f x \<noteq> [] \<Longrightarrow> \<exists>ys. concat (map f (x # xs)) = hd (f x) # ys"
  by (cases "f x") auto

text \<open>If the first way of a part can be continued, it is the first way of the sequence.\<close>

lemma re_match_Cat:
  assumes "re_match r s = Some (cs, t)" and "re_match (Cat rs) t = Some (ds, u)"
  shows "re_match (Cat (r # rs)) s = Some (cs @ ds, u)"
  using assms by (auto simp: re_match_def split: list.splits)

lemma re_match_Cat_Nil [simp]: "re_match (Cat []) s = Some ([], s)"
  by (simp add: re_match_def)

lemma re_match_Named:
  "re_match r s = Some (cs, t) \<Longrightarrow> re_match (Named x r) s = Some ((x, take (length s - length t) s) # cs, t)"
  by (auto simp: re_match_def split: list.splits)

lemma re_match_Maybe: "re_match r s = Some m \<Longrightarrow> re_match (Maybe r) s = Some m"
  by (auto simp: re_match_def split: list.splits)

lemma re_match_Maybe_None: "re_match r s = None \<Longrightarrow> re_match (Maybe r) s = Some ([], s)"
  by (auto simp: re_match_def split: list.splits)

lemma re_match_Many: "re_match (Many p) s = Some ([], dropWhile p s)"
  by (simp add: re_match_def runs.simps dropWhile_eq_drop)

lemma re_match_Many1:
  "re_match (Many1 p) s = (if takeWhile p s = [] then None else Some ([], dropWhile p s))"
proof (cases "takeWhile p s")
  case Nil
  then show ?thesis by (simp add: re_match_def runs.simps)
next
  case (Cons c cs)
  then have "[1..<Suc (length (takeWhile p s))] = [1..<length (takeWhile p s)] @ [length (takeWhile p s)]"
    by simp
  then show ?thesis
    using Cons by (simp add: re_match_def runs.simps dropWhile_eq_drop)
qed

lemma re_match_Repeat:
  "re_match (Repeat p n) s = (if n \<le> length s \<and> list_all p (take n s) then Some ([], drop n s) else None)"
  by (simp add: re_match_def runs.simps)

lemma re_match_AtEnd: "re_match AtEnd s = (if s = [] then Some ([], []) else None)"
  by (simp add: re_match_def)

text \<open>A run of bytes of a class followed by one that is not in it.\<close>

lemma re_match_Many1_run:
  assumes "list_all p w" and "w \<noteq> []" and "t = [] \<or> \<not> p (hd t)"
  shows "re_match (Many1 p) (w @ t) = Some ([], t)"
proof -
  have "takeWhile p (w @ t) = w" and "dropWhile p (w @ t) = t"
    using assms(1,3) by (cases t; simp add: list_all_iff takeWhile_append2 dropWhile_append2)+
  with assms(2) show ?thesis by (simp add: re_match_Many1)
qed

lemma re_match_Many_run:
  assumes "list_all p w" and "t = [] \<or> \<not> p (hd t)"
  shows "re_match (Many p) (w @ t) = Some ([], t)"
  using assms by (cases t) (simp_all add: re_match_Many list_all_iff dropWhile_append2)

text \<open>No way at all.\<close>

lemma re_match_None: "re_match r s = None \<longleftrightarrow> runs r s = []"
  by (simp add: re_match_def split: list.splits)

lemma runs_Cat_None:
  "runs (Cat (r # rs)) s = [] \<longleftrightarrow> (\<forall>(cs, t) \<in> set (runs r s). runs (Cat rs) t = [])"
  by auto

lemma runs_Many_set: "set (runs (Many p) s) = (\<lambda>k. ([], drop k s)) ` {..length (takeWhile p s)}"
  by (simp only: runs.simps set_map set_rev set_upt) (simp only: atLeast0LessThan lessThan_Suc_atMost)

lemma runs_Many1_set:
  "set (runs (Many1 p) s) = (\<lambda>k. ([], drop k s)) ` {1..length (takeWhile p s)}"
  by (simp only: runs.simps set_map set_rev set_upt) (simp only: atLeastLessThanSuc_atLeastAtMost)

text \<open>A lazy run tries the shortest first.\<close>

lemma first_of_upt:
  assumes "f k = x # xs" and "k < n" and "\<And>j. j < k \<Longrightarrow> f j = []"
  shows "\<exists>ys. concat (map f [0..<n]) = x # ys"
proof -
  have "[0..<n] = [0..<k] @ k # [Suc k..<n]"
    using assms(2) upt_add_eq_append [of 0 k "n - k"] upt_conv_Cons [of k n] by simp
  then have "concat (map f [0..<n]) = concat (map f [0..<k]) @ f k @ concat (map f [Suc k..<n])"
    by simp
  moreover have "concat (map f [0..<k]) = []"
    using assms(3) by simp
  ultimately show ?thesis
    using assms(1) by (metis append_Cons append_Nil)
qed

lemma re_match_Lazy:
  assumes "k \<le> length (takeWhile p s)" and "re_match (Cat rs) (drop k s) = Some (ds, u)"
    and "\<And>j. j < k \<Longrightarrow> re_match (Cat rs) (drop j s) = None"
  shows "re_match (Cat (Named x (Lazy p) # rs)) s = Some ((x, take k s) # ds, u)"
proof -
  let ?f = "\<lambda>j. map (\<lambda>(ds, u). ((x, take j s) # ds, u)) (runs (Cat rs) (drop j s))"
  have le: "length (takeWhile p s) \<le> length s"
    by (rule length_takeWhile_le)
  have "runs (Cat (Named x (Lazy p) # rs)) s =
    concat (map (\<lambda>j. map (\<lambda>(ds, u). ((x, take (length s - (length s - j)) s) # ds, u)) (runs (Cat rs) (drop j s)))
      [0..<Suc (length (takeWhile p s))])"
    by (simp add: runs.simps comp_def)
  also have "\<dots> = concat (map ?f [0..<Suc (length (takeWhile p s))])"
    using le by (intro arg_cong [where f = concat] map_cong refl) auto
  finally have runs: "runs (Cat (Named x (Lazy p) # rs)) s = concat (map ?f [0..<Suc (length (takeWhile p s))])" .
  from assms(2) obtain ms where "runs (Cat rs) (drop k s) = (ds, u) # ms"
    by (auto simp: re_match_def split: list.splits)
  then have "?f k = ((x, take k s) # ds, u) # map (\<lambda>(ds, u). ((x, take k s) # ds, u)) ms"
    by simp
  moreover have "?f j = []" if "j < k" for j
    using assms(3) [OF that] by (simp add: re_match_None)
  ultimately have "\<exists>ys. concat (map ?f [0..<Suc (length (takeWhile p s))]) = ((x, take k s) # ds, u) # ys"
    using le_imp_less_Suc [OF assms(1)] by (intro first_of_upt)
  with runs show ?thesis
    unfolding re_match_def by (elim exE) simp
qed

section \<open>Searching and splitting\<close>

lemma re_search_here: "re_match r s = Some (cs, t) \<Longrightarrow> re_search r s = Some (0, cs, t)"
  by (simp add: re_search.simps)

lemma re_search_next:
  "re_match r (c # s) = None \<Longrightarrow>
     re_search r (c # s) = map_option (\<lambda>(i, cs, t). (Suc i, cs, t)) (re_search r s)"
  by (subst re_search.simps) simp

lemma re_search_Nil: "re_match r [] = None \<Longrightarrow> re_search r [] = None"
  by (simp add: re_search.simps)

end
