(* ===== verification/Http1Parse.thy ===== *)
theory Http1Parse
  imports Http1 PyRegex Codec
begin

text \<open>
  \<open>tools/http1.py\<close>, the parser of HTTP/1 requests and responses: start lines, headers, bodies
  delimited by \<open>Content-Length\<close> or chunks, and \<open>parse_request_stream\<close>. The regular expressions are
  those of the source, run by the theory \<open>PyRegex\<close>. \<open>gzip.decompress\<close>, which is zlib, is the
  argument \<open>gunzip\<close>. The lemmas give what each expression matches, show that rendered messages
  parse back, also when pipelined, and bound the exceptions.
\<close>

section \<open>The start lines\<close>

abbreviation CR :: byte where "CR \<equiv> 0x0D"
abbreviation LF :: byte where "LF \<equiv> 0x0A"
abbreviation SP :: byte where "SP \<equiv> 0x20"
abbreviation COLON :: byte where "COLON \<equiv> 0x3A"

definition byte_is :: "byte \<Rightarrow> regex" where
  "byte_is b = Class (\<lambda>c. c = b)"

definition not_space :: "byte \<Rightarrow> bool" where
  "not_space b \<longleftrightarrow> \<not> is_space b"

text \<open>\<open>rb"\A(?P<method>[^\s]+)\s+(?P<uri>[^\s]+)\s+(?:HTTP/(?P<version>[^\s]+))?\r?\n"\<close>\<close>

definition request_line_re :: regex where
  "request_line_re = Cat
     [Named ''method'' (Many1 not_space), Many1 is_space, Named ''uri'' (Many1 not_space), Many1 is_space,
      Maybe (Cat [lit ''HTTP/'', Named ''version'' (Many1 not_space)]), Maybe (byte_is CR), byte_is LF]"

text \<open>\<open>[\v\f\r \t]\<close>\<close>

definition is_space_not_newline :: "byte \<Rightarrow> bool" where
  "is_space_not_newline b \<longleftrightarrow> b = 0x0B \<or> b = 0x0C \<or> b = CR \<or> b = SP \<or> b = 0x09"

text \<open>\<open>rb"\A(?P<version>[^\s]+)[\v\f\r \t]+(?P<code>\d+)[\v\f\r \t]+(?P<reason>.*?)\r?\n"\<close>\<close>

definition response_line_re :: regex where
  "response_line_re = Cat
     [Named ''version'' (Many1 not_space), Many1 is_space_not_newline, Named ''code'' (Many1 is_digit),
      Many1 is_space_not_newline, Named ''reason'' (Lazy not_newline), Maybe (byte_is CR), byte_is LF]"

text \<open>A group that every match sets.\<close>

definition the_group :: "captures \<Rightarrow> string \<Rightarrow> bytes" where
  "the_group cs x = (case group cs x of Some v \<Rightarrow> v | None \<Rightarrow> [])"

section \<open>Headers\<close>

text \<open>\<open>rb"\r?\n\r?\n"\<close>, \<open>rb"\r?\n"\<close> and
  \<open>rb"\A(?P<name>[^:\n]+):[ \t]*(?P<value>.*?)[ \t]*\Z"\<close>\<close>

definition header_terminator_re :: regex where
  "header_terminator_re = Cat [Maybe (byte_is CR), byte_is LF, Maybe (byte_is CR), byte_is LF]"

definition newline_re :: regex where
  "newline_re = Cat [Maybe (byte_is CR), byte_is LF]"

definition is_blank :: "byte \<Rightarrow> bool" where
  "is_blank b \<longleftrightarrow> b = SP \<or> b = 0x09"

definition header_name_byte :: "byte \<Rightarrow> bool" where
  "header_name_byte b \<longleftrightarrow> b \<noteq> COLON \<and> b \<noteq> LF"

definition header_line_re :: regex where
  "header_line_re = Cat
     [Named ''name'' (Many1 header_name_byte), byte_is COLON, Many is_blank,
      Named ''value'' (Lazy not_newline), Many is_blank, AtEnd]"

definition parse_header_line :: "bytes \<Rightarrow> http_header result" where
  "parse_header_line line =
     (case re_match header_line_re line of
        None \<Rightarrow> Inl ValueError
      | Some (cs, _) \<Rightarrow> Inr (the_group cs ''name'', the_group cs ''value''))"

definition parse_headers :: "bytes \<Rightarrow> (http_header list \<times> bytes) result" where
  "parse_headers raw =
     (if take 2 raw = [CR, LF] then Inr ([], drop 2 raw)
      else case re_search header_terminator_re raw of
        None \<Rightarrow> Inl ValueError
      | Some (start, _, rest) \<Rightarrow>
          bindE (mapE parse_header_line (re_split newline_re (take start raw))) (\<lambda>headers.
            Inr (headers, rest)))"

section \<open>Bodies\<close>

text \<open>\<open>v.strip(b",")\<close>.\<close>

definition strip_commas :: "bytes \<Rightarrow> bytes" where
  "strip_commas v = rev (dropWhile (\<lambda>b. b = 0x2C) (rev (dropWhile (\<lambda>b. b = 0x2C) v)))"

text \<open>\<open>v.isascii() and v.isdigit()\<close>, and \<open>int(v)\<close> on such a \<open>v\<close>: Python refuses more than 4300
  digits.\<close>

definition all_digits :: "bytes \<Rightarrow> bool" where
  "all_digits v \<longleftrightarrow> v \<noteq> [] \<and> list_all is_digit v"

definition digits_value :: "bytes \<Rightarrow> nat" where
  "digits_value v = foldl (\<lambda>n d. 10 * n + (unat d - 0x30)) 0 v"

definition int_of_digits :: "bytes \<Rightarrow> nat result" where
  "int_of_digits v = (if int (length v) > 4300 then Inl ValueError else Inr (digits_value v))"

text \<open>The first loop of \<open>parse_body\<close>: the last \<open>Content-Length\<close>, and the transfer and content
  codings.\<close>

fun body_headers :: "http_header list \<Rightarrow> nat option \<Rightarrow> bytes list \<Rightarrow> bytes list \<Rightarrow>
    (nat option \<times> bytes list \<times> bytes list) result" where
  "body_headers [] cl te ce = Inr (cl, te, ce)"
| "body_headers ((k, v) # headers) cl te ce =
     bindE (if lower k = ascii ''content-length'' then
              (if \<not> all_digits v then Inl ValueError else bindE (int_of_digits v) (\<lambda>n. Inr (Some n)))
            else Inr cl) (\<lambda>cl.
     let te = (if lower k = ascii ''transfer-encoding'' then te @ [strip_commas (lower v)] else te);
         ce = (if lower k = ascii ''content-encoding'' then ce @ [strip_commas (lower v)] else ce) in
     body_headers headers cl te ce)"

text \<open>\<open>rb"\A(?P<length>[0-9a-fA-F]+)[^\n]*\r?\n"\<close>\<close>

definition is_hex_digit :: "byte \<Rightarrow> bool" where
  "is_hex_digit b \<longleftrightarrow> 0x30 \<le> b \<and> b \<le> 0x39 \<or> 0x61 \<le> b \<and> b \<le> 0x66 \<or> 0x41 \<le> b \<and> b \<le> 0x46"

definition chunk_header_re :: regex where
  "chunk_header_re = Cat [Named ''length'' (Many1 is_hex_digit), Many not_newline, Maybe (byte_is CR), byte_is LF]"

text \<open>\<open>int(s, 16)\<close>.\<close>

definition hex_digit_value :: "byte \<Rightarrow> nat" where
  "hex_digit_value b =
     (if b \<le> 0x39 then unat b - 0x30 else if b \<le> 0x46 then unat b - 0x41 + 10 else unat b - 0x61 + 10)"

definition int_of_hex :: "bytes \<Rightarrow> nat" where
  "int_of_hex v = foldl (\<lambda>n d. 16 * n + hex_digit_value d) 0 v"

text \<open>\<open>rf"\A(?P<data>[\x00-\xff]{{{chunk_length}}})\r\n"\<close>: writing a number of more than 4300
  decimal digits is a \<open>ValueError\<close>, and a repetition count has to be below \<open>MAXREPEAT\<close>, \<open>2 ^ 32 - 1\<close>,
  or compiling the expression is an \<open>OverflowError\<close>.\<close>

definition max_str_int :: int where
  "max_str_int = 10 ^ 4300"

definition chunk_data_re :: "nat \<Rightarrow> regex result" where
  "chunk_data_re n =
     (if int n \<ge> 4294967295 then (if int n \<ge> max_str_int then Inl ValueError else Inl OverflowError)
      else Inr (Cat [Named ''data'' (Repeat (\<lambda>_. True) n), byte_is CR, byte_is LF]))"

lemma runs_length: "(cs, t) \<in> set (runs r s) \<Longrightarrow> length t \<le> length s"
proof (induction r s arbitrary: cs t rule: runs.induct)
  case (10 r rs s)
  then obtain cs1 t1 ds where t1: "(cs1, t1) \<in> set (runs r s)" and t: "(ds, t) \<in> set (runs (Cat rs) t1)"
    by auto
  have "length t1 \<le> length s"
    using "10.IH" t1 by blast
  moreover have "length t \<le> length t1"
    using "10.IH" t1 t by blast
  ultimately show ?case by simp
qed (auto simp: runs.simps(2-5) split: list.splits if_splits)

lemma re_match_length: "re_match r s = Some (cs, t) \<Longrightarrow> length t \<le> length s"
  using runs_length [of cs t r s] by (auto simp: re_match_def split: list.splits)

lemma re_match_Cat_split:
  assumes "re_match (Cat (r # rs)) s = Some (cs, u)"
  shows "\<exists>cs1 t ds. (cs1, t) \<in> set (runs r s) \<and> (ds, u) \<in> set (runs (Cat rs) t)"
proof -
  have "(cs, u) \<in> set (runs (Cat (r # rs)) s)"
    using assms unfolding re_match_def
    by (cases "runs (Cat (r # rs)) s") (simp_all del: runs.simps)
  then show ?thesis by auto
qed

text \<open>Patterns that begin with a class consume input.\<close>

lemma re_match_shorter:
  assumes "re_match (Cat (Named x (Many1 p) # rs)) s = Some (cs, u)"
  shows "length u < length s"
proof -
  from re_match_Cat_split [OF assms] obtain cs1 t ds
    where t: "(cs1, t) \<in> set (runs (Named x (Many1 p)) s)" and u: "(ds, u) \<in> set (runs (Cat rs) t)"
    by blast
  from t have "\<exists>k \<ge> 1. k \<le> length s \<and> t = drop k s"
    using length_takeWhile_le [of p s] by (force simp: runs_Many1_set)
  then have "length t < length s" by auto
  with runs_length [OF u] show ?thesis by linarith
qed

lemma chunk_header_shorter: "re_match chunk_header_re s = Some (cs, t) \<Longrightarrow> length t < length s"
  unfolding chunk_header_re_def by (rule re_match_shorter)

text \<open>The loop over the chunks.\<close>

function parse_chunks :: "bytes \<Rightarrow> bytes \<Rightarrow> (bytes \<times> bytes) result" where
  "parse_chunks body rest =
     (case re_match chunk_header_re rest of
        None \<Rightarrow> Inl ValueError
      | Some (cs, rest') \<Rightarrow>
          let chunk_length = int_of_hex (the_group cs ''length'') in
          bindE (chunk_data_re chunk_length) (\<lambda>re.
          case re_match re rest' of
            None \<Rightarrow> Inl ValueError
          | Some (cs, rest'') \<Rightarrow>
              let body = body @ the_group cs ''data'' in
              if chunk_length = 0 then Inr (body, rest'') else parse_chunks body rest''))"
  by pat_completeness auto
termination
proof (relation "measure (\<lambda>(body, rest). length rest)")
  fix body rest r cs rest' n re r2 cs2 rest'' body'
  assume "re_match chunk_header_re rest = Some r" and "(cs, rest') = r"
    and "re_match re rest' = Some r2" and "(cs2, rest'') = r2"
  then show "((body', rest''), body, rest) \<in> measure (\<lambda>(body, rest). length rest)"
    using chunk_header_shorter [of rest cs rest'] re_match_length [of re rest' cs2 rest''] by auto
qed simp

declare parse_chunks.simps [simp del]

definition parse_body :: "(bytes \<Rightarrow> bytes result) \<Rightarrow> http_header list \<Rightarrow> bytes \<Rightarrow> bool \<Rightarrow>
    (bytes \<times> bytes) result" where
  "parse_body gunzip headers rest is_response =
     bindE (body_headers headers None [] []) (\<lambda>(cl, te_values, ce_values).
     if is_response \<and> cl = None \<and> ascii ''chunked'' \<notin> set te_values then Inr (rest, [])
     else if ascii ''chunked'' \<in> set te_values then
       (if ascii ''gzip'' \<in> set ce_values then Inl ValueError else parse_chunks [] rest)
     else case cl of
       Some n \<Rightarrow>
         if ascii ''gzip'' \<in> set ce_values
         then bindE (gunzip (take n rest)) (\<lambda>body. Inr (body, drop n rest))
         else Inr (take n rest, drop n rest)
     | None \<Rightarrow> Inr ([], rest))"

section \<open>Messages\<close>

definition parse_request :: "(bytes \<Rightarrow> bytes result) \<Rightarrow> bytes \<Rightarrow> (http_request \<times> bytes) result" where
  "parse_request gunzip raw =
     (case re_match request_line_re raw of
        None \<Rightarrow> Inl ValueError
      | Some (m, rest) \<Rightarrow>
          bindE (parse_headers rest) (\<lambda>(headers, rest).
          bindE (parse_body gunzip headers rest False) (\<lambda>(body, rest).
          let version = (case group m ''version'' of None \<Rightarrow> ascii ''0.9'' | Some v \<Rightarrow> v) in
          Inr (\<lparr>req_method = the_group m ''method'', req_uri = the_group m ''uri'', req_headers = headers,
                 req_body = body, req_version = version\<rparr>, rest))))"

definition strip_http :: "bytes \<Rightarrow> bytes" where
  "strip_http version = (if take 5 version = ascii ''HTTP/'' then drop 5 version else version)"

definition parse_response :: "(bytes \<Rightarrow> bytes result) \<Rightarrow> bytes \<Rightarrow> (http_response \<times> bytes) result" where
  "parse_response gunzip raw =
     (case re_match response_line_re raw of
        None \<Rightarrow> Inl ValueError
      | Some (m, rest) \<Rightarrow>
          bindE (parse_headers rest) (\<lambda>(headers, rest).
          bindE (parse_body gunzip headers rest True) (\<lambda>(body, rest).
          Inr (\<lparr>res_version = strip_http (the_group m ''version''), res_code = the_group m ''code'',
                 res_reason = the_group m ''reason'', res_headers = headers, res_body = body\<rparr>, rest))))"

lemma re_search_length: "re_search r s = Some (i, cs, t) \<Longrightarrow> length t \<le> length s"
proof (induction s arbitrary: i cs)
  case Nil
  then show ?case
    by (auto simp: re_search.simps [of r "[]"] split: option.splits dest: re_match_length)
next
  case (Cons c s)
  then show ?case
    by (fastforce simp: re_search.simps [of r "c # s"] split: option.splits dest: re_match_length)
qed

lemma parse_headers_length: "parse_headers raw = Inr (hs, rest) \<Longrightarrow> length rest \<le> length raw"
  by (auto simp: parse_headers_def bindE_eq_Inr split: if_splits option.splits dest: re_search_length)

text \<open>One turn of the loop, when it succeeds.\<close>

lemma parse_chunks_cases:
  assumes "parse_chunks body rest = Inr (b, r)"
  obtains cs r1 re cs2 r2 where "re_match chunk_header_re rest = Some (cs, r1)"
    and "chunk_data_re (int_of_hex (the_group cs ''length'')) = Inr re"
    and "re_match re r1 = Some (cs2, r2)"
    and "(if int_of_hex (the_group cs ''length'') = 0 then Inr (body @ the_group cs2 ''data'', r2)
      else parse_chunks (body @ the_group cs2 ''data'') r2) = Inr (b, r)"
proof (cases "re_match chunk_header_re rest")
  case (Some m)
  obtain cs r1 where m: "m = (cs, r1)" by (cases m)
  with assms Some obtain re where re: "chunk_data_re (int_of_hex (the_group cs ''length'')) = Inr re"
    by (auto simp: parse_chunks.simps [of body rest] bindE_eq_Inr Let_def)
  with assms Some m obtain cs2 r2 where "re_match re r1 = Some (cs2, r2)"
    by (cases "re_match re r1") (auto simp: parse_chunks.simps [of body rest])
  with that [of cs r1 re cs2 r2] assms Some m re show ?thesis
    by (simp add: parse_chunks.simps [of body rest] Let_def)
qed (use assms in \<open>simp add: parse_chunks.simps [of body rest]\<close>)

lemma parse_chunks_length: "parse_chunks body rest = Inr (b, r) \<Longrightarrow> length r \<le> length rest"
proof (induction "length rest" arbitrary: body rest rule: less_induct)
  case less
  from parse_chunks_cases [OF less.prems] obtain cs r1 re cs2 r2 where
    h: "re_match chunk_header_re rest = Some (cs, r1)" and d: "re_match re r1 = Some (cs2, r2)"
    and k: "(if int_of_hex (the_group cs ''length'') = 0 then Inr (body @ the_group cs2 ''data'', r2)
      else parse_chunks (body @ the_group cs2 ''data'') r2) = Inr (b, r)"
    by metis
  have "length r2 < length rest"
    using chunk_header_shorter [OF h] re_match_length [OF d] by linarith
  with k less.hyps [OF this] show ?case
    by (auto split: if_splits) fastforce
qed

lemma parse_body_length: "parse_body gunzip hs rest b = Inr (body, r) \<Longrightarrow> length r \<le> length rest"
  by (auto simp: parse_body_def bindE_eq_Inr split: if_splits option.splits dest: parse_chunks_length)

lemma parse_request_shorter: "parse_request gunzip raw = Inr (r, rest) \<Longrightarrow> length rest < length raw"
  by (auto simp: parse_request_def bindE_eq_Inr request_line_re_def split: option.splits
      dest!: re_match_shorter parse_headers_length parse_body_length)

text \<open>The loop of \<open>parse_request_stream\<close>: the requests so far and what is left.\<close>

function parse_request_stream ::
  "(bytes \<Rightarrow> bytes result) \<Rightarrow> bytes \<Rightarrow> (http_request list \<times> bytes) result" where
  "parse_request_stream gunzip remaining =
     (if remaining = [] then Inr ([], remaining)
      else case parse_request gunzip remaining of
        Inl e \<Rightarrow> if e = ValueError then Inr ([], remaining) else Inl e
      | Inr (r, rest) \<Rightarrow>
          bindE (parse_request_stream gunzip rest) (\<lambda>(rs, left). Inr (r # rs, left)))"
  by pat_completeness auto
termination
  by (relation "measure (\<lambda>(g, s). length s)") (auto dest: parse_request_shorter)

declare parse_request_stream.simps [simp del]

lemma stream_step:
  "parse_request gunzip s = Inr (r, rest) \<Longrightarrow>
     parse_request_stream gunzip s = bindE (parse_request_stream gunzip rest) (\<lambda>(rs, left). Inr (r # rs, left))"
  using parse_request_shorter [of gunzip s r rest] by (subst parse_request_stream.simps) auto

lemma stream_raises:
  "parse_request gunzip s = Inl e \<Longrightarrow> e \<noteq> ValueError \<Longrightarrow> s \<noteq> [] \<Longrightarrow> parse_request_stream gunzip s = Inl e"
  by (subst parse_request_stream.simps) simp

section \<open>Header lines\<close>

definition strip_blank :: "bytes \<Rightarrow> bytes" where
  "strip_blank s = rev (dropWhile is_blank (rev (dropWhile is_blank s)))"

lemma rstrip_split:
  fixes t :: bytes
  defines "v \<equiv> rev (dropWhile is_blank (rev t))"
  shows "\<exists>z. t = v @ z \<and> list_all is_blank z" and "v \<noteq> [] \<Longrightarrow> \<not> is_blank (last v)"
proof -
  have "t = rev (takeWhile is_blank (rev t) @ dropWhile is_blank (rev t))"
    by simp
  then have "t = v @ rev (takeWhile is_blank (rev t))"
    unfolding v_def by (simp only: rev_append)
  moreover have "list_all is_blank (rev (takeWhile is_blank (rev t)))"
    by (auto simp: list_all_iff dest: set_takeWhileD)
  ultimately show "\<exists>z. t = v @ z \<and> list_all is_blank z" by blast
  show "v \<noteq> [] \<Longrightarrow> \<not> is_blank (last v)"
    unfolding v_def by (simp add: last_rev hd_dropWhile)
qed

text \<open>The end of a header line: blanks, the value up to its last byte that is not blank, blanks.\<close>

lemma blanks_to_end:
  "re_match (Cat [Many is_blank, AtEnd]) s = (if list_all is_blank s then Some ([], []) else None)"
proof (cases "list_all is_blank s")
  case True
  then have "re_match (Many is_blank) s = Some ([], [])"
    by (simp add: re_match_Many list_all_iff)
  then have "re_match (Cat [Many is_blank, AtEnd]) s = Some ([] @ [], [])"
    by (rule re_match_Cat) (simp add: re_match_def)
  with True show ?thesis by simp
next
  case False
  have "drop k s \<noteq> []" if "k \<le> length (takeWhile is_blank s)" for k
  proof
    assume "drop k s = []"
    with that have "length (takeWhile is_blank s) = length s"
      using length_takeWhile_le [of is_blank s] by simp
    then have "takeWhile is_blank s = s"
      by (metis takeWhile_eq_take take_all order_refl)
    then have "list_all is_blank s"
      by (metis list_all_iff set_takeWhileD)
    with False show False by simp
  qed
  then have "runs (Cat [Many is_blank, AtEnd]) s = []"
    by (auto simp: runs_Cat_None runs_Many_set simp del: runs.simps(10))
  with False show ?thesis by (simp add: re_match_None del: runs.simps)
qed

lemma header_value_match:
  assumes "LF \<notin> set s"
  shows "re_match (Cat [Many is_blank, Named ''value'' (Lazy not_newline), Many is_blank, AtEnd]) s =
    Some ([(''value'', strip_blank s)], [])"
proof -
  let ?t = "dropWhile is_blank s" and ?v = "strip_blank s"
  obtain z where z: "?t = ?v @ z" "list_all is_blank z"
    using rstrip_split(1) [of ?t] by (auto simp: strip_blank_def)
  have "LF \<notin> set ?t"
    using assms by (meson set_dropWhileD)
  then have "takeWhile not_newline ?t = ?t"
    by (auto simp: not_newline_def takeWhile_eq_all_conv)
  moreover have "length ?v \<le> length ?t"
    using arg_cong [OF z(1), of length] by simp
  moreover have "\<not> list_all is_blank (drop j ?t)" if "j < length ?v" for j
  proof -
    from that have "last ?v \<in> set (drop j ?v)"
      by (metis drop_eq_Nil last_drop last_in_set not_less)
    then have "last ?v \<in> set (drop j ?t)"
      by (subst z(1)) simp
    moreover from that have "?v \<noteq> []" by auto
    then have "\<not> is_blank (last ?v)"
      unfolding strip_blank_def by (rule rstrip_split(2))
    ultimately show ?thesis
      unfolding list_all_iff by blast
  qed
  ultimately have "re_match (Cat [Named ''value'' (Lazy not_newline), Many is_blank, AtEnd]) ?t =
      Some ((''value'', take (length ?v) ?t) # [], [])"
    using z by (intro re_match_Lazy) (simp_all add: blanks_to_end)
  then have "re_match (Cat [Named ''value'' (Lazy not_newline), Many is_blank, AtEnd]) ?t =
      Some ([(''value'', ?v)], [])"
    using z(1) by simp
  then show ?thesis
    using re_match_Cat [of "Many is_blank" s "[]" ?t] by (simp add: re_match_Many)
qed

lemma parse_header_line_parts:
  assumes "name \<noteq> []" and "list_all header_name_byte name" and "LF \<notin> set s"
  shows "parse_header_line (name @ COLON # s) = Inr (name, strip_blank s)"
proof -
  have "re_match (Many1 header_name_byte) (name @ COLON # s) = Some ([], COLON # s)"
    using assms(1,2) by (intro re_match_Many1_run) (simp_all add: header_name_byte_def)
  from re_match_Named [OF this, of "''name''"]
  have "re_match (Named ''name'' (Many1 header_name_byte)) (name @ COLON # s) =
    Some ([(''name'', name)], COLON # s)"
    by simp
  moreover have "re_match (Cat [byte_is COLON, Many is_blank, Named ''value'' (Lazy not_newline), Many is_blank, AtEnd])
      (COLON # s) = Some ([] @ [(''value'', strip_blank s)], [])"
    by (intro re_match_Cat [OF _ header_value_match [OF assms(3)]]) (simp add: byte_is_def re_match_Class)
  ultimately have "re_match header_line_re (name @ COLON # s) =
      Some ([(''name'', name)] @ [] @ [(''value'', strip_blank s)], [])"
    unfolding header_line_re_def by (rule re_match_Cat)
  then show ?thesis
    by (simp add: parse_header_line_def the_group_def group_def)
qed

text \<open>What \<open>parse_header_line\<close> does, without the expression.\<close>

lemma parse_header_line_eq:
  assumes "LF \<notin> set line"
  shows "parse_header_line line =
    (let name = takeWhile (\<lambda>b. b \<noteq> COLON) line in
     if name = [] \<or> COLON \<notin> set line then Inl ValueError
     else Inr (name, strip_blank (drop (Suc (length name)) line)))"
proof -
  let ?name = "takeWhile (\<lambda>b. b \<noteq> COLON) line"
  have same: "takeWhile header_name_byte line = ?name"
    using assms by (intro takeWhile_cong) (auto simp: header_name_byte_def)
  show ?thesis
  proof (cases "?name = [] \<or> COLON \<notin> set line")
    case True
    have "runs (byte_is COLON) (drop k line) = []" if "1 \<le> k" "k \<le> length ?name" for k
    proof -
      from True that have "COLON \<notin> set line" by auto
      then have "COLON \<notin> set (drop k line)" by (meson in_set_dropD)
      then show ?thesis
        by (cases "drop k line") (auto simp: byte_is_def)
    qed
    then have "runs header_line_re line = []"
      unfolding header_line_re_def runs_Cat_None [of "Named _ _"]
      by (auto simp: runs_Many1_set same)
    with True show ?thesis
      by (auto simp: parse_header_line_def re_match_def)
  next
    case False
    let ?s = "drop (Suc (length ?name)) line"
    from False have "COLON \<in> set line" by simp
    then have "line = ?name @ COLON # ?s"
      by (induction line) auto
    moreover have "LF \<notin> set ?s"
      using assms by (meson in_set_dropD)
    moreover have "list_all header_name_byte ?name"
      unfolding same [symmetric] by (auto simp: list_all_iff dest: set_takeWhileD)
    ultimately show ?thesis
      using False parse_header_line_parts [of ?name ?s] by (simp add: Let_def)
  qed
qed

section \<open>Lines\<close>

text \<open>What is left after a line end at the beginning of the input.\<close>

fun newline_rest :: "bytes \<Rightarrow> bytes option" where
  "newline_rest [] = None"
| "newline_rest [c] = (if c = LF then Some [] else None)"
| "newline_rest (c # d # s) =
     (if c = LF then Some (d # s) else if c = CR \<and> d = LF then Some s else None)"

lemma newline_rest_LF [simp]: "newline_rest (LF # s) = Some s"
  by (cases s) auto

lemma newline_match:
  "re_match (Cat (Maybe (byte_is CR) # byte_is LF # rs)) s =
     (case newline_rest s of None \<Rightarrow> None | Some t \<Rightarrow> re_match (Cat rs) t)"
proof -
  have "runs (Cat (Maybe (byte_is CR) # byte_is LF # rs)) s =
     (case newline_rest s of None \<Rightarrow> [] | Some t \<Rightarrow> runs (Cat rs) t)"
    by (cases s rule: newline_rest.cases) (auto simp: byte_is_def)
  then show ?thesis
    by (simp add: re_match_def split: option.splits del: runs.simps)
qed

lemma newline_re_match: "re_match newline_re s = map_option (Pair []) (newline_rest s)"
  unfolding newline_re_def newline_match by (simp split: option.splits)

lemma header_terminator_match:
  "re_match header_terminator_re s =
     (case newline_rest s of None \<Rightarrow> None | Some t \<Rightarrow> map_option (Pair []) (newline_rest t))"
  unfolding header_terminator_re_def newline_match by (simp split: option.splits)

text \<open>A line without its carriage return.\<close>

definition chop_CR :: "bytes \<Rightarrow> bytes" where
  "chop_CR l = (if l \<noteq> [] \<and> last l = CR then butlast l else l)"

lemma search_newline:
  "LF \<notin> set l \<Longrightarrow> re_search newline_re (l @ LF # t) = Some (length (chop_CR l), [], t)"
proof (induction l)
  case Nil
  then show ?case by (simp add: re_search.simps newline_re_match chop_CR_def)
next
  case (Cons c l)
  show ?case
  proof (cases "c = CR \<and> l = []")
    case True
    then show ?thesis by (simp add: re_search.simps newline_re_match chop_CR_def)
  next
    case False
    then have "newline_rest ((c # l) @ LF # t) = None"
      using Cons.prems by (cases l) auto
    then show ?thesis
      using Cons False by (subst re_search.simps) (auto simp: newline_re_match chop_CR_def)
  qed
qed

lemma search_no_newline: "LF \<notin> set l \<Longrightarrow> re_search newline_re l = None"
proof (induction l)
  case Nil
  then show ?case by (simp add: re_search.simps newline_re_match)
next
  case (Cons c l)
  then have "newline_rest (c # l) = None"
    by (cases l) auto
  with Cons show ?case
    by (subst re_search.simps) (simp add: newline_re_match)
qed

lemma take_chop_CR: "take (length (chop_CR l)) (l @ t) = chop_CR l"
  by (auto simp: chop_CR_def butlast_conv_take)

text \<open>Splitting at line ends is splitting at line feeds and dropping one carriage return before
  each.\<close>

lemma re_split_newline:
  "re_split newline_re s =
     map chop_CR (butlast (list_split s LF)) @ [last (list_split s LF)]"
proof (induction "length s" arbitrary: s rule: less_induct)
  case less
  show ?case
  proof (cases "LF \<in> set s")
    case True
    then obtain l t where s: "s = l @ LF # t" and l: "LF \<notin> set l"
      by (meson split_list_first)
    then have "re_search newline_re s = Some (length (chop_CR l), [], t)" and "length t < length s"
      and "take (length (chop_CR l)) s = chop_CR l"
      by (simp_all add: search_newline take_chop_CR del: take_append)
    then have "re_split newline_re s = chop_CR l # re_split newline_re t"
      by (subst re_split.simps) simp
    moreover have "list_split s LF = l # list_split t LF"
      using s l by (simp add: list_split_append)
    ultimately show ?thesis
      using less [of t] s by simp
  next
    case False
    then show ?thesis
      by (simp add: re_split.simps [of newline_re s] search_no_newline list_split.simps [of s])
  qed
qed

lemma newline_pieces_LF_free: "l \<in> set (re_split newline_re s) \<Longrightarrow> LF \<notin> set l"
proof -
  have "LF \<notin> set x" if "x \<in> set (list_split s LF)" for x
    using list_split_no_separator [OF that] .
  then show "l \<in> set (re_split newline_re s) \<Longrightarrow> LF \<notin> set l"
    by (auto simp: re_split_newline chop_CR_def dest: in_set_butlastD)
qed

text \<open>The header section: lines that end in CRLF, then an empty line.\<close>

definition crlf_lines :: "bytes list \<Rightarrow> bytes" where
  "crlf_lines ls = concat (map (\<lambda>l. l @ [CR, LF]) ls)"

lemma search_terminator_line:
  assumes "LF \<notin> set l" and "newline_rest v = None"
  shows "re_search header_terminator_re (l @ CR # LF # v) =
    map_option (\<lambda>(i, cs, t). (length l + 2 + i, cs, t)) (re_search header_terminator_re v)"
  using assms(1)
proof (induction l)
  case Nil
  have 1: "re_search header_terminator_re (LF # v) =
    map_option (\<lambda>(i, cs, t). (Suc i, cs, t)) (re_search header_terminator_re v)"
    using assms(2) by (intro re_search_next) (simp add: header_terminator_match)
  have "re_search header_terminator_re (CR # LF # v) =
    map_option (\<lambda>(i, cs, t). (Suc i, cs, t)) (re_search header_terminator_re (LF # v))"
    using assms(2) by (intro re_search_next) (simp add: header_terminator_match)
  with 1 show ?case
    by (simp add: option.map_comp comp_def case_prod_unfold)
next
  case (Cons c l)
  have "newline_rest ((c # l) @ CR # LF # v) = None"
    using Cons.prems by (cases l) auto
  then have "re_search header_terminator_re ((c # l) @ CR # LF # v) =
    map_option (\<lambda>(i, cs, t). (Suc i, cs, t)) (re_search header_terminator_re (l @ CR # LF # v))"
    unfolding append_Cons by (intro re_search_next) (simp add: header_terminator_match)
  with Cons show ?case
    by (simp add: option.map_comp comp_def case_prod_unfold)
qed

lemma search_terminator_last:
  "LF \<notin> set l \<Longrightarrow>
     re_search header_terminator_re (l @ CR # LF # CR # LF # t) = Some (length l, [], t)"
proof (induction l)
  case Nil
  then show ?case by (intro re_search_here [of _ _ _ t, THEN trans]) (simp_all add: header_terminator_match)
next
  case (Cons c l)
  have "newline_rest ((c # l) @ CR # LF # CR # LF # t) = None"
    using Cons.prems by (cases l) auto
  then have "re_search header_terminator_re ((c # l) @ CR # LF # CR # LF # t) =
    map_option (\<lambda>(i, cs, t). (Suc i, cs, t)) (re_search header_terminator_re (l @ CR # LF # CR # LF # t))"
    unfolding append_Cons by (intro re_search_next) (simp add: header_terminator_match)
  with Cons show ?case by simp
qed

lemma crlf_lines_Cons: "crlf_lines (l # ls) = l @ CR # LF # crlf_lines ls"
  by (simp add: crlf_lines_def)

definition header_line_ok :: "bytes \<Rightarrow> bool" where
  "header_line_ok l \<longleftrightarrow> l \<noteq> [] \<and> LF \<notin> set l"

lemma newline_rest_line: "header_line_ok l \<Longrightarrow> newline_rest (l @ CR # LF # v) = None"
  by (cases l; cases "tl l") (auto simp: header_line_ok_def)

lemma search_terminator:
  assumes "ls \<noteq> []" and "\<forall>l \<in> set ls. header_line_ok l"
  shows "re_search header_terminator_re (crlf_lines ls @ CR # LF # t) =
    Some (length (crlf_lines ls) - 2, [], t)"
  using assms
proof (induction ls)
  case (Cons l ls)
  then have l: "LF \<notin> set l" by (simp add: header_line_ok_def)
  show ?case
  proof (cases ls)
    case Nil
    with search_terminator_last [OF l] show ?thesis by (simp add: crlf_lines_def)
  next
    case (Cons m ms)
    let ?v = "crlf_lines ls @ CR # LF # t"
    have "newline_rest ?v = None"
      using Cons.prems(2) Cons newline_rest_line [of m] by (simp add: crlf_lines_def)
    from search_terminator_line [OF l this] Cons.IH Cons.prems(2) Cons show ?thesis
      by (simp add: crlf_lines_def)
  qed
qed simp

lemma split_crlf_lines:
  assumes "ls \<noteq> []" and "\<forall>l \<in> set ls. header_line_ok l"
  shows "re_split newline_re (take (length (crlf_lines ls) - 2) (crlf_lines ls)) = ls"
  using assms
proof (induction ls)
  case (Cons l ls)
  then have l: "LF \<notin> set l" by (simp add: header_line_ok_def)
  show ?case
  proof (cases ls)
    case Nil
    with l show ?thesis
      by (simp add: crlf_lines_def re_split.simps [of newline_re l] search_no_newline)
  next
    case (Cons m ms)
    then obtain n where "length (crlf_lines ls) = Suc (Suc n)"
      by (auto simp: crlf_lines_def)
    then have "take (length (crlf_lines (l # ls)) - 2) (crlf_lines (l # ls)) =
      (l @ [CR]) @ LF # take (length (crlf_lines ls) - 2) (crlf_lines ls)"
      by (simp add: crlf_lines_Cons)
    moreover have "re_search newline_re ((l @ [CR]) @ LF # u) = Some (length l, [], u)" for u
      using search_newline [of "l @ [CR]" u] l by (simp add: chop_CR_def)
    ultimately show ?thesis
      using Cons.IH Cons.prems(2) Cons by (subst re_split.simps) simp
  qed
qed simp

section \<open>Rendered messages\<close>

text \<open>A message on the wire: the start line, one line per header, an empty line, and a body that is
  sent as it is or in chunks. A chunk is its size in hexadecimal, an extension and the data; the
  last one has size zero.\<close>

type_synonym wire_chunk = "bytes \<times> bytes \<times> bytes"

datatype wire_body = Sized bytes | Chunked "wire_chunk list" bytes bytes

definition token :: "bytes \<Rightarrow> bool" where
  "token w \<longleftrightarrow> w \<noteq> [] \<and> list_all not_space w"

definition header_ok :: "http_header \<Rightarrow> bool" where
  "header_ok h \<longleftrightarrow> fst h \<noteq> [] \<and> list_all header_name_byte (fst h) \<and> LF \<notin> set (snd h) \<and>
     strip_blank (snd h) = snd h"

definition chunk_size_ok :: "bytes \<Rightarrow> bytes \<Rightarrow> nat \<Rightarrow> bool" where
  "chunk_size_ok h ext n \<longleftrightarrow> h \<noteq> [] \<and> list_all is_hex_digit h \<and> LF \<notin> set ext \<and>
     (ext = [] \<or> \<not> is_hex_digit (hd ext)) \<and> int_of_hex h = n"

definition chunk_ok :: "wire_chunk \<Rightarrow> bool" where
  "chunk_ok c = (case c of (h, ext, d) \<Rightarrow>
     d \<noteq> [] \<and> chunk_size_ok h ext (length d) \<and> int (length d) < 4294967295)"

definition render_headers :: "http_header list \<Rightarrow> bytes" where
  "render_headers hs = crlf_lines (map (\<lambda>(k, v). k @ COLON # SP # v) hs) @ [CR, LF]"

definition render_chunk :: "wire_chunk \<Rightarrow> bytes" where
  "render_chunk c = (case c of (h, ext, d) \<Rightarrow> h @ ext @ [CR, LF] @ d @ [CR, LF])"

fun render_body :: "wire_body \<Rightarrow> bytes" where
  "render_body (Sized b) = b"
| "render_body (Chunked cs h ext) = concat (map render_chunk cs) @ render_chunk (h, ext, [])"

fun wire_data :: "wire_body \<Rightarrow> bytes" where
  "wire_data (Sized b) = b"
| "wire_data (Chunked cs h ext) = concat (map (\<lambda>(h, ext, d). d) cs)"

definition render_request :: "http_request \<Rightarrow> wire_body \<Rightarrow> bytes" where
  "render_request r w =
     req_method r @ [SP] @ req_uri r @ [SP] @ ascii ''HTTP/'' @ req_version r @ [CR, LF] @
     render_headers (req_headers r) @ render_body w"

text \<open>The framing headers announce the body that follows.\<close>

definition framed :: "http_header list \<Rightarrow> wire_body \<Rightarrow> bool" where
  "framed hs w =
     (case body_headers hs None [] [] of
        Inl e \<Rightarrow> False
      | Inr (cl, te, ce) \<Rightarrow> ascii ''gzip'' \<notin> set ce \<and>
          (case w of
             Sized b \<Rightarrow> ascii ''chunked'' \<notin> set te \<and> length b = (case cl of None \<Rightarrow> 0 | Some n \<Rightarrow> n)
           | Chunked cs h ext \<Rightarrow> ascii ''chunked'' \<in> set te \<and> list_all chunk_ok cs \<and> chunk_size_ok h ext 0))"

definition request_ok :: "http_request \<Rightarrow> wire_body \<Rightarrow> bool" where
  "request_ok r w \<longleftrightarrow> token (req_method r) \<and> token (req_uri r) \<and> token (req_version r) \<and>
     list_all header_ok (req_headers r) \<and> req_body r = wire_data w \<and> framed (req_headers r) w"

lemma match_token:
  assumes "token w" and "t \<noteq> []" and "is_space (hd t)"
  shows "re_match (Named x (Many1 not_space)) (w @ t) = Some ([(x, w)], t)"
proof -
  have "re_match (Many1 not_space) (w @ t) = Some ([], t)"
    using assms by (intro re_match_Many1_run) (simp_all add: token_def not_space_def)
  from re_match_Named [OF this, of x] show ?thesis by simp
qed

lemma match_one_space:
  "\<not> is_space (hd t) \<Longrightarrow> t \<noteq> [] \<Longrightarrow> re_match (Many1 is_space) (SP # t) = Some ([], t)"
  using re_match_Many1_run [of is_space "[SP]" t] by (simp add: is_space_def)

lemma match_lit: "re_match (lit x) (ascii x @ t) = Some ([], t)"
proof (induction x)
  case Nil
  then show ?case by (simp add: lit_def)
next
  case (Cons c x)
  have "re_match (one c) (of_char c # ascii x @ t) = Some ([], ascii x @ t)"
    by (simp add: one_def re_match_Class)
  from re_match_Cat [OF this, of "map one x"] Cons show ?case
    by (simp add: lit_def ascii_Cons)
qed

lemma spaces [simp]: "is_space SP" "is_space CR" "is_space LF"
  by (simp_all add: is_space_def)

lemma token_hd: "token w \<Longrightarrow> w \<noteq> [] \<and> \<not> is_space (hd w)"
  by (cases w) (auto simp: token_def not_space_def)

lemma request_line_match:
  assumes m: "token m" and u: "token u" and v: "token v"
  shows "re_match request_line_re (m @ [SP] @ u @ [SP] @ ascii ''HTTP/'' @ v @ [CR, LF] @ rest) =
    Some ([(''method'', m), (''uri'', u), (''version'', v)], rest)"
proof -
  have end_: "re_match (Cat [Maybe (byte_is CR), byte_is LF]) (CR # LF # rest) = Some ([], rest)"
    unfolding newline_match by simp
  have "re_match (Cat [Named ''version'' (Many1 not_space)]) (v @ CR # LF # rest) =
      Some ([(''version'', v)] @ [], CR # LF # rest)"
    by (rule re_match_Cat) (use match_token [OF v, of "CR # LF # rest"] in simp_all)
  then have "re_match (Cat [lit ''HTTP/'', Named ''version'' (Many1 not_space)])
      (ascii ''HTTP/'' @ v @ CR # LF # rest) = Some ([] @ [(''version'', v)], CR # LF # rest)"
    by (intro re_match_Cat [OF match_lit]) simp
  from re_match_Cat [OF re_match_Maybe [OF this] end_]
  have tail: "re_match (Cat [Maybe (Cat [lit ''HTTP/'', Named ''version'' (Many1 not_space)]),
      Maybe (byte_is CR), byte_is LF]) (ascii ''HTTP/'' @ v @ CR # LF # rest) = Some ([(''version'', v)], rest)"
    by simp
  let ?http = "ascii ''HTTP/'' @ v @ CR # LF # rest"
  have http: "?http \<noteq> []" "\<not> is_space (hd ?http)"
    by (simp_all add: ascii_Cons is_space_def)
  have 1: "re_match (Cat [Many1 is_space, Maybe (Cat [lit ''HTTP/'', Named ''version'' (Many1 not_space)]),
      Maybe (byte_is CR), byte_is LF]) (SP # ?http) = Some ([] @ [(''version'', v)], rest)"
    by (rule re_match_Cat [OF match_one_space tail]) (use http in simp_all)
  have 2: "re_match (Cat [Named ''uri'' (Many1 not_space), Many1 is_space,
      Maybe (Cat [lit ''HTTP/'', Named ''version'' (Many1 not_space)]), Maybe (byte_is CR), byte_is LF])
      (u @ SP # ?http) = Some ([(''uri'', u)] @ [] @ [(''version'', v)], rest)"
    by (rule re_match_Cat [OF match_token [OF u] 1]) simp_all
  have 3: "re_match (Cat [Many1 is_space, Named ''uri'' (Many1 not_space), Many1 is_space,
      Maybe (Cat [lit ''HTTP/'', Named ''version'' (Many1 not_space)]), Maybe (byte_is CR), byte_is LF])
      (SP # u @ SP # ?http) = Some ([] @ [(''uri'', u)] @ [] @ [(''version'', v)], rest)"
    by (rule re_match_Cat [OF match_one_space 2]) (use token_hd [OF u] in simp_all)
  have "re_match request_line_re (m @ SP # u @ SP # ?http) =
      Some ([(''method'', m)] @ [] @ [(''uri'', u)] @ [] @ [(''version'', v)], rest)"
    unfolding request_line_re_def by (rule re_match_Cat [OF match_token [OF m] 3]) simp_all
  then show ?thesis by simp
qed

lemma header_ok_line: "header_ok (k, v) \<Longrightarrow> header_line_ok (k @ COLON # SP # v)"
  by (auto simp: list_all_iff header_ok_def header_line_ok_def header_name_byte_def)

lemma parse_rendered_headers:
  assumes "list_all header_ok hs"
  shows "parse_headers (render_headers hs @ rest) = Inr (hs, rest)"
proof (cases hs)
  case Nil
  then show ?thesis by (simp add: parse_headers_def render_headers_def crlf_lines_def)
next
  case (Cons h hs')
  let ?ls = "map (\<lambda>(k, v). k @ COLON # SP # v) hs"
  have ok: "\<forall>l \<in> set ?ls. header_line_ok l" and ne: "?ls \<noteq> []"
    using assms Cons by (auto simp: list_all_iff header_ok_line split: prod.splits)
  have line: "parse_header_line (k @ COLON # SP # v) = Inr (k, v)" if "header_ok (k, v)" for k v
    using that parse_header_line_parts [of k "SP # v"] by (simp add: header_ok_def strip_blank_def is_blank_def)
  have "mapE parse_header_line ?ls = Inr hs"
    using assms line by (induction hs) auto
  moreover have "take 2 (render_headers hs @ rest) \<noteq> [CR, LF]"
  proof -
    obtain k v where h: "h = (k, v)" by (cases h)
    with assms Cons have k: "k \<noteq> []" "list_all header_name_byte k" by (auto simp: header_ok_def)
    then obtain c k' where c: "k = c # k'" by (cases k) auto
    show ?thesis
      using Cons h c k(2) by (cases k') (auto simp: render_headers_def crlf_lines_def header_name_byte_def)
  qed
  moreover have "take (length (crlf_lines ?ls) - 2) (crlf_lines ?ls @ u) =
    take (length (crlf_lines ?ls) - 2) (crlf_lines ?ls)" for u
    by simp
  ultimately show ?thesis
    using search_terminator [OF ne ok, of rest] split_crlf_lines [OF ne ok]
    by (simp add: parse_headers_def render_headers_def del: take_append)
qed

lemma chunk_header_match:
  assumes "chunk_size_ok h ext n"
  shows "re_match chunk_header_re (h @ ext @ CR # LF # rest) = Some ([(''length'', h)], rest)"
proof -
  have h: "h \<noteq> []" "list_all is_hex_digit h" and ext: "LF \<notin> set ext"
    and hd: "ext = [] \<or> \<not> is_hex_digit (hd ext)"
    using assms by (simp_all add: chunk_size_ok_def)
  have "\<not> is_hex_digit CR"
    by (simp add: is_hex_digit_def)
  with h hd have "re_match (Many1 is_hex_digit) (h @ ext @ CR # LF # rest) = Some ([], ext @ CR # LF # rest)"
    by (intro re_match_Many1_run) (cases ext; simp)+
  from re_match_Named [OF this, of "''length''"]
  have len: "re_match (Named ''length'' (Many1 is_hex_digit)) (h @ ext @ CR # LF # rest) =
      Some ([(''length'', h)], ext @ CR # LF # rest)"
    by simp
  have "list_all not_newline (ext @ [CR])"
    using ext by (auto simp: list_all_iff not_newline_def)
  then have many: "re_match (Many not_newline) (ext @ CR # LF # rest) = Some ([], LF # rest)"
    using re_match_Many_run [of not_newline "ext @ [CR]" "LF # rest"] by (simp add: not_newline_def)
  have "re_match (Cat [Maybe (byte_is CR), byte_is LF]) (LF # rest) = Some ([], rest)"
    unfolding newline_match by simp
  from re_match_Cat [OF len re_match_Cat [OF many this]] show ?thesis
    by (simp add: chunk_header_re_def)
qed

lemma chunk_data_match:
  assumes "int (length d) < 4294967295"
  shows "\<exists>re. chunk_data_re (length d) = Inr re \<and>
    re_match re (d @ CR # LF # rest) = Some ([(''data'', d)], rest)"
proof -
  have re: "chunk_data_re (length d) =
      Inr (Cat [Named ''data'' (Repeat (\<lambda>_. True) (length d)), byte_is CR, byte_is LF])"
    using assms by (simp add: chunk_data_re_def)
  have "re_match (Repeat (\<lambda>_. True) (length d)) (d @ CR # LF # rest) = Some ([], CR # LF # rest)"
    by (simp add: re_match_Repeat list_all_iff)
  from re_match_Named [OF this, of "''data''"]
  have "re_match (Named ''data'' (Repeat (\<lambda>_. True) (length d))) (d @ CR # LF # rest) =
      Some ([(''data'', d)], CR # LF # rest)"
    by simp
  from re_match_Cat [OF this, of "[byte_is CR, byte_is LF]" "[]" rest] re show ?thesis
    by (simp add: re_match_def byte_is_def)
qed

lemma parse_chunks_front:
  "list_all chunk_ok cs \<Longrightarrow>
    parse_chunks body (concat (map render_chunk cs) @ tail) = parse_chunks (body @ concat (map (\<lambda>(h, ext, d). d) cs)) tail"
proof (induction cs arbitrary: body)
  case (Cons c cs)
  obtain h ext d where c: "c = (h, ext, d)" by (cases c)
  with Cons.prems have ok: "chunk_size_ok h ext (length d)" "int (length d) < 4294967295" "d \<noteq> []"
    by (simp_all add: chunk_ok_def)
  let ?next = "concat (map render_chunk cs) @ tail"
  obtain re where "chunk_data_re (length d) = Inr re" "re_match re (d @ CR # LF # ?next) = Some ([(''data'', d)], ?next)"
    using chunk_data_match [OF ok(2), of ?next] by auto
  then have "parse_chunks body (concat (map render_chunk (c # cs)) @ tail) = parse_chunks (body @ d) ?next"
    using chunk_header_match [OF ok(1), of "d @ CR # LF # ?next"] ok(1,3) c
    by (subst parse_chunks.simps) (simp add: render_chunk_def the_group_def group_def chunk_size_ok_def)
  with Cons c show ?case by simp
qed simp

lemma parse_chunks_rendered:
  assumes "list_all chunk_ok cs" and "chunk_size_ok h ext 0"
  shows "parse_chunks body (concat (map render_chunk cs) @ render_chunk (h, ext, []) @ rest) =
    Inr (body @ concat (map (\<lambda>(h, ext, d). d) cs), rest)"
proof -
  obtain re where "chunk_data_re 0 = Inr re" "re_match re (CR # LF # rest) = Some ([(''data'', [])], rest)"
    using chunk_data_match [of "[]" rest] by auto
  then have "parse_chunks body' (render_chunk (h, ext, []) @ rest) = Inr (body', rest)" for body'
    using chunk_header_match [OF assms(2), of "CR # LF # rest"] assms(2)
    by (simp add: parse_chunks.simps [of body'] render_chunk_def the_group_def group_def chunk_size_ok_def)
  then show ?thesis
    by (simp add: parse_chunks_front [OF assms(1)])
qed

lemma parse_rendered_body:
  assumes "framed hs w"
  shows "parse_body gunzip hs (render_body w @ rest) False = Inr (wire_data w, rest)"
proof -
  obtain cl te ce where h: "body_headers hs None [] [] = Inr (cl, te, ce)"
    using assms by (auto simp: framed_def split: sum.splits)
  show ?thesis
  proof (cases w)
    case (Sized b)
    with assms h show ?thesis
      by (cases cl) (auto simp: parse_body_def framed_def)
  next
    case (Chunked cs h' ext)
    with assms h parse_chunks_rendered [of cs h' ext "[]" rest] show ?thesis
      by (simp add: parse_body_def framed_def)
  qed
qed

lemma parse_rendered_request:
  assumes "request_ok r w"
  shows "parse_request gunzip (render_request r w @ rest) = Inr (r, rest)"
proof -
  from assms have ok: "token (req_method r)" "token (req_uri r)" "token (req_version r)"
    "list_all header_ok (req_headers r)" "framed (req_headers r) w" and body: "req_body r = wire_data w"
    by (simp_all add: request_ok_def)
  from request_line_match [OF ok(1-3), of "render_headers (req_headers r) @ render_body w @ rest"]
    parse_rendered_headers [OF ok(4), of "render_body w @ rest"] parse_rendered_body [OF ok(5), of gunzip rest]
  show ?thesis
    by (simp add: parse_request_def render_request_def the_group_def group_def body [symmetric])
qed

lemma parse_rendered_stream:
  assumes "\<forall>(r, w) \<in> set rws. request_ok r w" and "parse_request_stream gunzip tail = Inr (rs, left)"
  shows "parse_request_stream gunzip (concat (map (\<lambda>(r, w). render_request r w) rws) @ tail) =
    Inr (map fst rws @ rs, left)"
  using assms
proof (induction rws)
  case (Cons rw rws)
  obtain r w where rw: "rw = (r, w)" by (cases rw)
  let ?rest = "concat (map (\<lambda>(r, w). render_request r w) rws) @ tail"
  have "parse_request gunzip (render_request r w @ ?rest) = Inr (r, ?rest)"
    using Cons.prems rw by (intro parse_rendered_request) simp
  from stream_step [OF this] Cons rw show ?case by simp
qed simp

subsection \<open>Responses\<close>

definition response_ok :: "http_response \<Rightarrow> bool" where
  "response_ok r \<longleftrightarrow> token (ascii ''HTTP/'' @ res_version r) \<and>
     res_code r \<noteq> [] \<and> list_all is_digit (res_code r) \<and> LF \<notin> set (res_reason r) \<and>
     (res_reason r = [] \<or> \<not> is_space_not_newline (hd (res_reason r)))"

definition render_response :: "http_response \<Rightarrow> bytes" where
  "render_response r = ascii ''HTTP/'' @ res_version r @ [SP] @ res_code r @ [SP] @ res_reason r @ [CR, LF] @
     render_headers (res_headers r)"

lemma newline_rest_inside:
  assumes "LF \<notin> set l" and "j < length l"
  shows "newline_rest (drop j l @ CR # LF # t) = None"
proof -
  obtain c l' where "drop j l = c # l'" and "c \<noteq> LF" and "LF \<notin> set l'"
    using assms by (metis Cons_nth_drop_Suc in_set_dropD list.set_intros)
  then show ?thesis by (cases l') auto
qed

lemma reason_match:
  assumes "LF \<notin> set l"
  shows "re_match (Cat [Named ''reason'' (Lazy not_newline), Maybe (byte_is CR), byte_is LF]) (l @ CR # LF # t) =
    Some ([(''reason'', l)], t)"
proof -
  have "length l \<le> length (takeWhile not_newline (l @ CR # LF # t))"
    using assms by (subst takeWhile_append2) (auto simp: not_newline_def)
  then have "re_match (Cat [Named ''reason'' (Lazy not_newline), Maybe (byte_is CR), byte_is LF]) (l @ CR # LF # t) =
      Some ((''reason'', take (length l) (l @ CR # LF # t)) # [], t)"
    by (rule re_match_Lazy) (use newline_rest_inside [OF assms] in \<open>auto simp: newline_match\<close>)
  then show ?thesis by simp
qed

lemma reason_match_empty:
  "re_match (Cat [Named ''reason'' (Lazy not_newline), Maybe (byte_is CR), byte_is LF]) (LF # t) =
    Some ([(''reason'', [])], t)"
proof -
  have "re_match (Cat [Named ''reason'' (Lazy not_newline), Maybe (byte_is CR), byte_is LF]) (LF # t) =
      Some ((''reason'', take 0 (LF # t)) # [], t)"
    by (rule re_match_Lazy) (simp_all add: newline_match)
  then show ?thesis by simp
qed

text \<open>The separator before the reason takes the carriage return of an empty reason with it.\<close>

lemma separator_reason_match:
  assumes "LF \<notin> set l" and "l = [] \<or> \<not> is_space_not_newline (hd l)"
  shows "re_match (Cat [Many1 is_space_not_newline, Named ''reason'' (Lazy not_newline), Maybe (byte_is CR),
    byte_is LF]) (SP # l @ CR # LF # t) = Some ([(''reason'', l)], t)"
proof (cases l)
  case Nil
  have "re_match (Many1 is_space_not_newline) ([SP, CR] @ LF # t) = Some ([], LF # t)"
    by (rule re_match_Many1_run) (simp_all add: is_space_not_newline_def)
  from re_match_Cat [OF this reason_match_empty] Nil show ?thesis by simp
next
  case (Cons c l')
  have "re_match (Many1 is_space_not_newline) ([SP] @ l @ CR # LF # t) = Some ([], l @ CR # LF # t)"
    using assms(2) Cons by (intro re_match_Many1_run) (simp_all add: is_space_not_newline_def)
  from re_match_Cat [OF this reason_match [OF assms(1)]] show ?thesis by simp
qed

lemma response_line_match:
  assumes "response_ok r"
  shows "re_match response_line_re (ascii ''HTTP/'' @ res_version r @ [SP] @ res_code r @ [SP] @
      res_reason r @ [CR, LF] @ rest) =
    Some ([(''version'', ascii ''HTTP/'' @ res_version r), (''code'', res_code r), (''reason'', res_reason r)], rest)"
proof -
  let ?v = "ascii ''HTTP/'' @ res_version r" and ?c = "res_code r" and ?l = "res_reason r"
  have v: "token ?v" and c: "?c \<noteq> []" "list_all is_digit ?c" and l: "LF \<notin> set ?l"
    "?l = [] \<or> \<not> is_space_not_newline (hd ?l)"
    using assms by (simp_all add: response_ok_def)
  have "re_match (Many1 is_digit) (?c @ SP # ?l @ CR # LF # rest) = Some ([], SP # ?l @ CR # LF # rest)"
    using c by (intro re_match_Many1_run) (simp_all add: is_digit_def)
  from re_match_Named [OF this, of "''code''"]
  have code: "re_match (Named ''code'' (Many1 is_digit)) (?c @ SP # ?l @ CR # LF # rest) =
      Some ([(''code'', ?c)], SP # ?l @ CR # LF # rest)"
    by simp
  have "\<not> is_space_not_newline (hd (?c @ SP # ?l @ CR # LF # rest))"
    using c by (cases ?c) (auto simp: is_digit_def is_space_not_newline_def word_le_nat_alt)
  then have sep: "re_match (Many1 is_space_not_newline) ([SP] @ ?c @ SP # ?l @ CR # LF # rest) =
      Some ([], ?c @ SP # ?l @ CR # LF # rest)"
    by (intro re_match_Many1_run) (simp_all add: is_space_not_newline_def)
  from re_match_Cat [OF match_token [OF v, of "SP # ?c @ SP # ?l @ CR # LF # rest" "''version''"]
      re_match_Cat [OF sep [simplified] re_match_Cat [OF code separator_reason_match [OF l]]]]
  show ?thesis
    by (simp add: response_line_re_def)
qed

lemma parse_rendered_response:
  assumes "response_ok r" and "list_all header_ok (res_headers r)"
    and "body_headers (res_headers r) None [] [] = Inr (cl, te, ce)"
    and "framed (res_headers r) w" and "res_body r = wire_data w"
  shows "parse_response gunzip (render_response r @ render_body w @ rest) =
    (if cl = None \<and> ascii ''chunked'' \<notin> set te then Inr (r\<lparr>res_body := rest\<rparr>, []) else Inr (r, rest))"
proof -
  have hs: "parse_headers (render_headers (res_headers r) @ u) = Inr (res_headers r, u)" for u
    using parse_rendered_headers [OF assms(2)] .
  have line: "re_match response_line_re (render_response r @ u) =
      Some ([(''version'', ascii ''HTTP/'' @ res_version r), (''code'', res_code r), (''reason'', res_reason r)],
        render_headers (res_headers r) @ u)" for u
    using response_line_match [of r "render_headers (res_headers r) @ u"] assms(1)
    by (simp add: render_response_def)
  have strip: "strip_http (ascii ''HTTP/'' @ v) = v" for v
    by (simp add: strip_http_def)
  show ?thesis
  proof (cases "cl = None \<and> ascii ''chunked'' \<notin> set te")
    case True
    with assms(3,4) have "render_body w = []"
      by (cases w) (simp_all add: framed_def)
    with True assms(3) show ?thesis
      using line [of rest] hs [of rest] strip
      by (simp add: parse_response_def parse_body_def the_group_def group_def)
  next
    case False
    have "parse_body gunzip (res_headers r) u True = parse_body gunzip (res_headers r) u False" for u
      using False assms(3) by (auto simp: parse_body_def)
    with parse_rendered_body [OF assms(4), of gunzip rest] show ?thesis
      unfolding if_not_P [OF False]
      using line [of "render_body w @ rest"] hs [of "render_body w @ rest"] strip assms(5)
      by (simp add: parse_response_def the_group_def group_def)
  qed
qed

lemma parse_response_shorter: "parse_response gunzip raw = Inr (r, rest) \<Longrightarrow> length rest < length raw"
  by (auto simp: parse_response_def bindE_eq_Inr response_line_re_def split: option.splits
      dest!: re_match_shorter parse_headers_length parse_body_length)

section \<open>Errors\<close>

lemma parse_headers_errors: "parse_headers raw = Inl e \<Longrightarrow> e = ValueError"
proof -
  have "parse_header_line l = Inl e \<Longrightarrow> e = ValueError" for l e
    by (auto simp: parse_header_line_def split: option.splits)
  then have "mapE parse_header_line ls = Inl e \<Longrightarrow> e = ValueError" for ls e
    by (induction ls) (auto simp: bindE_eq_Inl)
  then show "parse_headers raw = Inl e \<Longrightarrow> e = ValueError"
    by (auto simp: parse_headers_def bindE_eq_Inl split: if_splits option.splits)
qed

lemma body_headers_errors: "body_headers hs cl te ce = Inl e \<Longrightarrow> e = ValueError"
  by (induction hs cl te ce rule: body_headers.induct)
    (auto simp: bindE_eq_Inl int_of_digits_def Let_def split: if_splits)

lemma parse_chunks_errors: "parse_chunks body rest = Inl e \<Longrightarrow> e = ValueError \<or> e = OverflowError"
proof (induction "length rest" arbitrary: body rest rule: less_induct)
  case less
  show ?case
  proof (cases "re_match chunk_header_re rest")
    case None
    with less.prems show ?thesis by (simp add: parse_chunks.simps [of body rest])
  next
    case (Some m)
    obtain cs r1 where m: "m = (cs, r1)" by (cases m)
    let ?n = "int_of_hex (the_group cs ''length'')"
    show ?thesis
    proof (cases "chunk_data_re ?n")
      case (Inl e')
      then have "e' = ValueError \<or> e' = OverflowError"
        by (auto simp: chunk_data_re_def split: if_splits)
      with less.prems Some m Inl show ?thesis
        by (simp add: parse_chunks.simps [of body rest] Let_def)
    next
      case (Inr re)
      show ?thesis
      proof (cases "re_match re r1")
        case None
        with less.prems Some m Inr show ?thesis
          by (simp add: parse_chunks.simps [of body rest] Let_def)
      next
        case (Some m2)
        obtain cs2 r2 where m2: "m2 = (cs2, r2)" by (cases m2)
        have "length r2 < length rest"
          using chunk_header_shorter [of rest cs r1] re_match_length [of re r1 cs2 r2]
            \<open>re_match chunk_header_re rest = Some m\<close> m Some m2 by simp
        from less.hyps [OF this, of "body @ the_group cs2 ''data''"] less.prems
          \<open>re_match chunk_header_re rest = Some m\<close> m Inr Some m2
        show ?thesis
          by (simp add: parse_chunks.simps [of body rest] Let_def split: if_splits)
      qed
    qed
  qed
qed

lemma parse_body_errors:
  assumes "parse_body gunzip hs rest b = Inl e"
  shows "e = ValueError \<or> e = OverflowError \<or> (\<exists>data. gunzip data = Inl e)"
proof (cases "body_headers hs None [] []")
  case (Inl e')
  with assms body_headers_errors [OF Inl] show ?thesis
    by (simp add: parse_body_def)
next
  case (Inr r)
  obtain cl te ce where "r = (cl, te, ce)" by (cases r)
  with assms Inr show ?thesis
    by (auto simp: parse_body_def bindE_eq_Inl split: if_splits option.splits dest: parse_chunks_errors)
qed

section \<open>Properties\<close>

text \<open>C9: a rendered request parses back. Method, target and version without white space, any headers
  whose names have no colon or line feed and whose values are trimmed, and a body framed by
  \<open>Content-Length\<close>, by chunks of any sizes with extensions, or absent: \<open>parse_request\<close> gives the
  request back with its body put together, and leaves what follows on the connection alone.\<close>

theorem request_print_parse:
  assumes "request_ok r w"
  shows "parse_request gunzip (render_request r w @ rest) = Inr (r, rest)"
  using assms by (rule parse_rendered_request)

definition example_request :: http_request where
  "example_request = \<lparr>req_method = ascii ''POST'', req_uri = ascii ''/'',
     req_headers = [(ascii ''Transfer-Encoding'', ascii ''chunked'')], req_body = ascii ''abc'',
     req_version = ascii ''1.1''\<rparr>"

definition example_body :: wire_body where
  "example_body = Chunked [(ascii ''2'', ascii '';x'', ascii ''ab''), (ascii ''01'', [], ascii ''c'')] (ascii ''0'') []"

lemma example_ok: "request_ok example_request example_body"
  by code_simp

theorem request_print_parse_witness:
  "parse_request (\<lambda>_. Inl OSError) (render_request example_request example_body @ ascii ''GET'') =
     Inr (example_request, ascii ''GET'')"
  by (rule request_print_parse [OF example_ok])

text \<open>C10: pipelining. On rendered requests one after the other, \<open>parse_request_stream\<close> returns these
  requests in order, whatever their framing, and goes on with what follows exactly as it would on
  its own.\<close>

theorem pipelined_requests:
  assumes "\<forall>(r, w) \<in> set rws. request_ok r w" and "parse_request_stream gunzip tail = Inr (rs, left)"
  shows "parse_request_stream gunzip (concat (map (\<lambda>(r, w). render_request r w) rws) @ tail) =
    Inr (map fst rws @ rs, left)"
  using assms by (rule parse_rendered_stream)

theorem pipelined_requests_witness:
  "parse_request_stream (\<lambda>_. Inl OSError)
     (concat (map (\<lambda>(r, w). render_request r w)
        [(example_request, example_body), (example_request, example_body)]) @ []) =
     Inr ([example_request, example_request], [])"
  using pipelined_requests [of "[(example_request, example_body), (example_request, example_body)]"
      "\<lambda>_. Inl OSError" "[]" "[]" "[]"] example_ok
  by (simp add: parse_request_stream.simps [of _ "[]"])

text \<open>The expression for a header line is this: the name is everything before the first colon and
  may not be empty, and the value is the rest without the blanks around it. A line without a colon,
  or that begins with one, is a \<open>ValueError\<close>; white space in or around the name is kept.\<close>

theorem header_line_is_name_colon_value:
  assumes "l \<in> set (re_split newline_re raw)"
  shows "parse_header_line l =
    (let name = takeWhile (\<lambda>b. b \<noteq> 0x3A) l in
     if name = [] \<or> 0x3A \<notin> set l then Inl ValueError
     else Inr (name, strip_blank (drop (Suc (length name)) l)))"
  using newline_pieces_LF_free [OF assms] by (rule parse_header_line_eq)

theorem header_line_is_name_colon_value_witness:
  "parse_header_line (ascii ''Host : a b '') = Inr (ascii ''Host '', ascii ''a b'')"
proof -
  have "re_split newline_re (ascii ''Host : a b '') = [ascii ''Host : a b '']"
    by code_simp
  then show ?thesis
    using header_line_is_name_colon_value [of "ascii ''Host : a b ''" "ascii ''Host : a b ''"]
    by (simp add: Let_def) code_simp
qed

text \<open>With \<open>Transfer-Encoding: chunked\<close> among the headers, \<open>Content-Length\<close> is not looked at: the
  body is what the chunks say, whatever lengths are announced before or after, as RFC 9112 section
  6.3 asks. (The lengths must still be numbers.)\<close>

theorem chunked_overrides_content_length:
  assumes "body_headers hs None [] [] = Inr (cl, te, ce)" and "body_headers hs' None [] [] = Inr (cl', te, ce)"
    and "ascii ''chunked'' \<in> set te"
  shows "parse_body gunzip hs rest b = parse_body gunzip hs' rest b'"
  using assms by (simp add: parse_body_def)

theorem chunked_overrides_content_length_witness:
  "parse_body (\<lambda>_. Inl OSError)
      [(ascii ''Content-Length'', ascii ''7''), (ascii ''Transfer-Encoding'', ascii ''Chunked'')] (ascii ''0'') True =
    parse_body (\<lambda>_. Inl OSError) [(ascii ''Transfer-Encoding'', ascii ''chunked,'')] (ascii ''0'') False"
proof (rule chunked_overrides_content_length)
  show "body_headers [(ascii ''Content-Length'', ascii ''7''), (ascii ''Transfer-Encoding'', ascii ''Chunked'')]
      None [] [] = Inr (Some 7, [ascii ''chunked''], [])"
    by code_simp
  show "body_headers [(ascii ''Transfer-Encoding'', ascii ''chunked,'')] None [] [] =
      Inr (None, [ascii ''chunked''], [])"
    by code_simp
qed simp


text \<open>\<open>parse_request_stream\<close> catches \<open>ValueError\<close> and returns what it has; but a chunk size of
  \<open>2 ^ 32 - 1\<close> or more is an \<open>OverflowError\<close> of the expression it is formatted into, which is not a
  \<open>ValueError\<close>: it leaves the function, and the requests parsed before are lost.\<close>

theorem oversized_chunk_escapes:
  assumes "\<forall>(r, w) \<in> set rws. request_ok r w" and "request_ok r (Chunked cs h0 ext0)"
    and "chunk_size_ok h ext n" and "4294967295 \<le> int n" and "int n < 10 ^ 4300"
  shows "parse_request_stream gunzip (concat (map (\<lambda>(r, w). render_request r w) rws) @
    render_request r (Sized []) @ h @ ext @ [CR, LF] @ rest) = Inl OverflowError"
  using assms(1)
proof (induction rws)
  case Nil
  let ?rest = "h @ ext @ [CR, LF] @ rest"
  from assms(2) have ok: "token (req_method r)" "token (req_uri r)" "token (req_version r)"
    "list_all header_ok (req_headers r)" "framed (req_headers r) (Chunked cs h0 ext0)"
    by (simp_all add: request_ok_def)
  have "parse_chunks [] ?rest = Inl OverflowError"
    using chunk_header_match [OF assms(3), of rest] assms(3-4) assms(5) [folded max_str_int_def]
    by (simp add: parse_chunks.simps [of "[]"] the_group_def group_def chunk_size_ok_def chunk_data_re_def Let_def)
  then have "parse_body gunzip (req_headers r) ?rest False = Inl OverflowError"
    using ok(5) by (auto simp: framed_def parse_body_def split: sum.splits)
  then have "parse_request gunzip (render_request r (Sized []) @ ?rest) = Inl OverflowError"
    using request_line_match [OF ok(1-3), of "render_headers (req_headers r) @ ?rest"]
      parse_rendered_headers [OF ok(4), of ?rest]
    by (simp add: parse_request_def render_request_def)
  then have "parse_request_stream gunzip (render_request r (Sized []) @ ?rest) = Inl OverflowError"
    by (rule stream_raises) (simp_all add: render_request_def)
  then show ?case by simp
next
  case (Cons rw rws)
  obtain r1 w1 where rw: "rw = (r1, w1)" by (cases rw)
  let ?rest = "concat (map (\<lambda>(r, w). render_request r w) rws) @
    render_request r (Sized []) @ h @ ext @ [CR, LF] @ rest"
  have "parse_request gunzip (render_request r1 w1 @ ?rest) = Inr (r1, ?rest)"
    using Cons.prems rw by (intro parse_rendered_request) simp
  from stream_step [OF this] Cons rw show ?case by simp
qed

theorem oversized_chunk_escapes_witness:
  "parse_request_stream (\<lambda>_. Inl OSError) (render_request example_request example_body @
     render_request example_request (Sized []) @ ascii ''ffffffff'' @ [0x0D, 0x0A]) = Inl OverflowError"
proof -
  let ?h = "ascii ''ffffffff''"
  have size: "chunk_size_ok ?h [] (int_of_hex ?h)"
    by (simp add: chunk_size_ok_def is_hex_digit_def ascii_def)
  have n: "int (int_of_hex ?h) = 4294967295"
    by (simp add: int_of_hex_def hex_digit_value_def ascii_def)
  have "(10::int) ^ 10 \<le> 10 ^ 4300"
    by (rule power_increasing) simp_all
  moreover have "int (int_of_hex ?h) < 10 ^ 10"
    unfolding n by simp
  ultimately have less: "int (int_of_hex ?h) < 10 ^ 4300"
    by (rule less_le_trans [rotated])
  have rws: "\<forall>(r, w) \<in> set [(example_request, example_body)]. request_ok r w"
    using example_ok by simp
  from oversized_chunk_escapes [OF rws example_ok [unfolded example_body_def] size _ less, of "\<lambda>_. Inl OSError" "[]"]
  show ?thesis
    by (simp add: n)
qed

text \<open>A rendered response parses back, with an empty reason too. When its headers announce a
  length or chunks, the body is that and the following input is left; when they announce neither,
  everything up to the end of the input is the body.\<close>

theorem response_print_parse:
  assumes "response_ok r" and "list_all header_ok (res_headers r)"
    and "body_headers (res_headers r) None [] [] = Inr (cl, te, ce)"
    and "framed (res_headers r) w" and "res_body r = wire_data w"
  shows "parse_response gunzip (render_response r @ render_body w @ rest) =
    (if cl = None \<and> ascii ''chunked'' \<notin> set te then Inr (r\<lparr>res_body := rest\<rparr>, []) else Inr (r, rest))"
  using assms by (rule parse_rendered_response)

theorem response_print_parse_witness:
  "parse_response (\<lambda>_. Inl OSError) (render_response \<lparr>res_version = ascii ''1.1'', res_code = ascii ''204'',
      res_reason = [], res_headers = [], res_body = []\<rparr> @ [] @ ascii ''abc'') =
    Inr (\<lparr>res_version = ascii ''1.1'', res_code = ascii ''204'', res_reason = [], res_headers = [],
      res_body = ascii ''abc''\<rparr>, [])"
proof -
  let ?r = "\<lparr>res_version = ascii ''1.1'', res_code = ascii ''204'', res_reason = [], res_headers = [],
    res_body = []\<rparr>"
  have "response_ok ?r"
    by code_simp
  then show ?thesis
    using response_print_parse [of ?r None "[]" "[]" "Sized []" "\<lambda>_. Inl OSError" "ascii ''abc''"]
    by (simp add: framed_def)
qed

end
