(* ===== verification/Base64.thy ===== *)
theory Base64
  imports Prelude
begin

text \<open>
  \<open>base64.b64decode\<close> on a string, as \<open>tools/http1.py\<close> uses it for the fields of a server's JSON. The
  decoder is the lenient one of CPython: characters outside the alphabet are skipped, and padding
  ends the data once the last group is complete. The encoder is the one the servers' scripts use; it
  is here to state that decoding undoes it.
\<close>

text \<open>A character of a Python string is its code point.\<close>

type_synonym codepoint = "32 word"
type_synonym pystr = "codepoint list"

definition py_chars :: "string \<Rightarrow> pystr" where
  "py_chars s = map (\<lambda>c. of_nat (of_char c)) s"

definition b64_value :: "codepoint \<Rightarrow> byte option" where
  "b64_value c =
     (if 0x41 \<le> c \<and> c \<le> 0x5A then Some (ucast (c - 0x41))
      else if 0x61 \<le> c \<and> c \<le> 0x7A then Some (ucast (c - 0x61 + 26))
      else if 0x30 \<le> c \<and> c \<le> 0x39 then Some (ucast (c - 0x30 + 52))
      else if c = 0x2B then Some 62 else if c = 0x2F then Some 63 else None)"

text \<open>The scanner's state is the position in the group of four, the bits left over and the number of padding
  characters since the last data character.\<close>

fun a2b_base64 :: "nat \<Rightarrow> byte \<Rightarrow> nat \<Rightarrow> pystr \<Rightarrow> bytes result" where
  "a2b_base64 quad left pads [] = (if quad \<noteq> 0 then Inl ValueError \<comment> \<open>binascii.Error\<close> else Inr [])"
| "a2b_base64 quad left pads (c # cs) =
     (if c = 0x3D then
        (if 2 \<le> quad \<and> 4 \<le> quad + (pads + 1) then Inr []
         else a2b_base64 quad left (if 2 \<le> quad then pads + 1 else pads) cs)
      else case b64_value c of
        None \<Rightarrow> a2b_base64 quad left pads cs
      | Some v \<Rightarrow>
          (if quad = 0 then a2b_base64 1 v 0 cs
           else if quad = 1 then
             bindE (a2b_base64 2 (v AND 0x0F) 0 cs) (\<lambda>d. Inr ((push_bit 2 left OR drop_bit 4 v) # d))
           else if quad = 2 then
             bindE (a2b_base64 3 (v AND 0x03) 0 cs) (\<lambda>d. Inr ((push_bit 4 left OR drop_bit 2 v) # d))
           else bindE (a2b_base64 0 0 0 cs) (\<lambda>d. Inr ((push_bit 6 left OR v) # d))))"

declare a2b_base64.simps(2) [simp del]

text \<open>\<open>b64decode(s)\<close> for a string: other than ASCII characters are a \<open>ValueError\<close>, and so is
  \<open>binascii.Error\<close>, its subclass.\<close>

definition b64decode :: "pystr \<Rightarrow> bytes result" where
  "b64decode s = (if \<not> list_all (\<lambda>c. c < 0x80) s then Inl ValueError else a2b_base64 0 0 0 s)"

section \<open>Encoding\<close>

definition b64_char :: "byte \<Rightarrow> codepoint" where
  "b64_char v =
     (if v < 26 then 0x41 + ucast v else if v < 52 then 0x61 + ucast (v - 26)
      else if v < 62 then 0x30 + ucast (v - 52) else if v = 62 then 0x2B else 0x2F)"

text \<open>The four groups of six bits in three bytes.\<close>

definition sextet1 :: "byte \<Rightarrow> byte" where "sextet1 a = drop_bit 2 a"
definition sextet2 :: "byte \<Rightarrow> byte \<Rightarrow> byte" where "sextet2 a b = push_bit 4 (a AND 3) OR drop_bit 4 b"
definition sextet3 :: "byte \<Rightarrow> byte \<Rightarrow> byte" where "sextet3 b c = push_bit 2 (b AND 15) OR drop_bit 6 c"
definition sextet4 :: "byte \<Rightarrow> byte" where "sextet4 c = c AND 63"

fun b64encode :: "bytes \<Rightarrow> pystr" where
  "b64encode [] = []"
| "b64encode [a] = [b64_char (sextet1 a), b64_char (sextet2 a 0), 0x3D, 0x3D]"
| "b64encode [a, b] = [b64_char (sextet1 a), b64_char (sextet2 a b), b64_char (sextet3 b 0), 0x3D]"
| "b64encode (a # b # c # d) =
     b64_char (sextet1 a) # b64_char (sextet2 a b) # b64_char (sextet3 b c) # b64_char (sextet4 c) # b64encode d"

section \<open>Decoding undoes encoding\<close>

lemma byte_eqI:
  assumes "bit a 0 = bit b 0" "bit a 1 = bit b 1" "bit a 2 = bit b 2" "bit a 3 = bit b 3"
    "bit a 4 = bit b 4" "bit a 5 = bit b 5" "bit a 6 = bit b 6" "bit a 7 = bit b 7"
  shows "a = (b :: byte)"
proof (rule bit_word_eqI)
  fix n assume "n < LENGTH(8)"
  then consider "n = 0" | "n = 1" | "n = 2" | "n = 3" | "n = 4" | "n = 5" | "n = 6" | "n = 7"
    by (auto simp: less_Suc_eq numeral_eq_Suc)
  then show "bit a n = bit b n" using assms by cases simp_all
qed

lemma bit_byte_high: "8 \<le> n \<Longrightarrow> \<not> bit (b :: byte) n"
  by (auto dest: bit_imp_le_length)

lemmas byte_bit_simps = bit_and_iff bit_or_iff bit_push_bit_iff bit_drop_bit_eq bit_byte_high

lemma six_bits: "\<not> bit v 6 \<Longrightarrow> \<not> bit v 7 \<Longrightarrow> v < (64 :: byte)"
proof -
  assume "\<not> bit v 6" "\<not> bit v 7"
  then have "v = v AND 63" by (intro byte_eqI) (simp_all add: bit_and_iff)
  then have "v \<le> 63" by (metis word_and_le1)
  then show ?thesis by (simp add: word_le_nat_alt word_less_nat_alt)
qed

lemmas sextet_defs = sextet1_def sextet2_def sextet3_def sextet4_def

lemma sextets_small:
  "sextet1 a < 64" "sextet2 a b < 64" "sextet3 b c < 64" "sextet4 c < 64"
  unfolding sextet_defs by (rule six_bits; simp add: byte_bit_simps)+

lemma sextets_join:
  "push_bit 2 (sextet1 a) OR drop_bit 4 (sextet2 a b) = a"
  "push_bit 4 (sextet2 a b AND 0x0F) OR drop_bit 2 (sextet3 b c) = b"
  "push_bit 6 (sextet3 b c AND 0x03) OR sextet4 c = c"
  unfolding sextet_defs by (rule byte_eqI; simp add: byte_bit_simps)+

lemma six_bits_cases:
  assumes "v < (64 :: byte)"
  shows "v \<in> set (map of_nat [0..<64])"
proof -
  from assms have "unat v < 64" by (simp add: word_less_nat_alt)
  then have "unat v \<in> set [0..<64]" by simp
  then have "of_nat (unat v) \<in> set (map of_nat [0..<64] :: byte list)"
    unfolding set_map by (rule imageI)
  then show ?thesis by simp
qed

lemma b64_char_facts:
  assumes "v < (64 :: byte)"
  shows "b64_value (b64_char v) = Some v" "b64_char v \<noteq> 0x3D" "b64_char v < 0x80"
    "0x20 \<le> b64_char v" "b64_char v \<noteq> 0x22" "b64_char v \<noteq> 0x5C"
proof -
  have "\<forall>v \<in> set (map of_nat [0..<64] :: byte list). b64_value (b64_char v) = Some v \<and> b64_char v \<noteq> 0x3D \<and> b64_char v < 0x80 \<and>
      0x20 \<le> b64_char v \<and> b64_char v \<noteq> 0x22 \<and> b64_char v \<noteq> 0x5C"
    by code_simp
  with six_bits_cases [OF assms] show "b64_value (b64_char v) = Some v" "b64_char v \<noteq> 0x3D" "b64_char v < 0x80"
    "0x20 \<le> b64_char v" "b64_char v \<noteq> 0x22" "b64_char v \<noteq> 0x5C"
    by blast+
qed

lemma a2b_base64_char:
  assumes "v < 64"
  shows "a2b_base64 quad left pads (b64_char v # cs) =
     (if quad = 0 then a2b_base64 1 v 0 cs
      else if quad = 1 then
        bindE (a2b_base64 2 (v AND 0x0F) 0 cs) (\<lambda>d. Inr ((push_bit 2 left OR drop_bit 4 v) # d))
      else if quad = 2 then
        bindE (a2b_base64 3 (v AND 0x03) 0 cs) (\<lambda>d. Inr ((push_bit 4 left OR drop_bit 2 v) # d))
      else bindE (a2b_base64 0 0 0 cs) (\<lambda>d. Inr ((push_bit 6 left OR v) # d)))"
  using b64_char_facts [OF assms] by (simp add: a2b_base64.simps)

lemma a2b_base64_pad:
  "a2b_base64 2 left 0 [0x3D, 0x3D] = Inr []" "a2b_base64 3 left 0 [0x3D] = Inr []"
  by (simp_all add: a2b_base64.simps)

lemma a2b_base64_encode: "a2b_base64 0 0 0 (b64encode d) = Inr d"
  by (induction d rule: b64encode.induct)
    (simp_all only: b64encode.simps a2b_base64.simps(1) a2b_base64_char sextets_small a2b_base64_pad sextets_join
      bindE_Inr if_True if_False one_neq_zero zero_neq_numeral numeral_eq_iff one_eq_numeral_iff numeral_eq_one_iff num.simps
      zero_neq_one zero_neq_numeral [symmetric] refl simp_thms)

text \<open>The characters of encoded data: ASCII, printable, and never a quote or a backslash.\<close>

definition plain_char :: "codepoint \<Rightarrow> bool" where
  "plain_char c \<longleftrightarrow> 0x20 \<le> c \<and> c < 0x80 \<and> c \<noteq> 0x22 \<and> c \<noteq> 0x5C"

lemma b64encode_plain: "list_all plain_char (b64encode d)"
  by (induction d rule: b64encode.induct) (simp_all add: plain_char_def b64_char_facts sextets_small)

lemma b64decode_encode [simp]: "b64decode (b64encode d) = Inr d"
proof -
  have "list_all (\<lambda>c. c < 0x80) (b64encode d)"
    using b64encode_plain [of d] by (auto simp: list_all_iff plain_char_def)
  then show ?thesis by (simp add: b64decode_def a2b_base64_encode)
qed

lemma a2b_base64_errors: "a2b_base64 quad left pads s = Inl e \<Longrightarrow> e = ValueError"
  by (induction quad left pads s rule: a2b_base64.induct)
    (auto simp: a2b_base64.simps bindE_eq_Inl split: if_splits option.splits)

lemma b64decode_errors: "b64decode s = Inl e \<Longrightarrow> e = ValueError"
  by (auto simp: b64decode_def a2b_base64_errors split: if_splits)

end
