(* ===== verification/PyJson.thy ===== *)
theory PyJson
  imports Base64
begin

text \<open>
  \<open>json.loads\<close> of the Python standard library on a byte string, the way \<open>parse_response_json\<close> of
  \<open>tools/http1.py\<close> calls it: numbers and the constants \<open>NaN\<close> and \<open>Infinity\<close> are given back as the
  strings they are written as. All its errors are \<open>ValueError\<close>s (\<open>JSONDecodeError\<close>, \<open>UnicodeDecodeError\<close>).
  The interpreter's recursion limit is not modelled: a text nested thousands of levels deep, on which
  Python raises \<open>RecursionError\<close>, is parsed here.
\<close>

section \<open>Decoding bytes\<close>

definition is_continuation :: "byte \<Rightarrow> bool" where
  "is_continuation b \<longleftrightarrow> b AND 0xC0 = 0x80"

definition low6 :: "byte \<Rightarrow> codepoint" where
  "low6 b = ucast (b AND 0x3F)"

text \<open>UTF-8 with \<open>surrogatepass\<close>: shortest forms only, up to \<open>0x10FFFF\<close>, surrogates allowed.\<close>

fun utf8_decode :: "bytes \<Rightarrow> pystr result" where
  "utf8_decode [] = Inr []"
| "utf8_decode (b # bs) =
     (if b < 0x80 then bindE (utf8_decode bs) (\<lambda>s. Inr (ucast b # s))
      else case bs of
        c # cs \<Rightarrow>
          if 0xC2 \<le> b \<and> b < 0xE0 \<and> is_continuation c
          then bindE (utf8_decode cs) (\<lambda>s. Inr ((push_bit 6 (ucast (b AND 0x1F)) OR low6 c) # s))
          else (case cs of
            d # ds \<Rightarrow>
              if 0xE0 \<le> b \<and> b < 0xF0 \<and> is_continuation c \<and> is_continuation d \<and> (b = 0xE0 \<longrightarrow> 0xA0 \<le> c)
              then bindE (utf8_decode ds)
                (\<lambda>s. Inr ((push_bit 12 (ucast (b AND 0x0F)) OR push_bit 6 (low6 c) OR low6 d) # s))
              else (case ds of
                e # es \<Rightarrow>
                  if 0xF0 \<le> b \<and> b < 0xF5 \<and> is_continuation c \<and> is_continuation d \<and> is_continuation e \<and>
                     (b = 0xF0 \<longrightarrow> 0x90 \<le> c) \<and> (b = 0xF4 \<longrightarrow> c < 0x90)
                  then bindE (utf8_decode es)
                    (\<lambda>s. Inr ((push_bit 18 (ucast (b AND 0x07)) OR push_bit 12 (low6 c) OR push_bit 6 (low6 d) OR low6 e) # s))
                  else Inl ValueError
              | [] \<Rightarrow> Inl ValueError)
          | [] \<Rightarrow> Inl ValueError)
      | [] \<Rightarrow> Inl ValueError)"

declare utf8_decode.simps(2) [simp del]

definition high_surrogate :: "codepoint \<Rightarrow> bool" where
  "high_surrogate c \<longleftrightarrow> 0xD800 \<le> c \<and> c \<le> 0xDBFF"

definition low_surrogate :: "codepoint \<Rightarrow> bool" where
  "low_surrogate c \<longleftrightarrow> 0xDC00 \<le> c \<and> c \<le> 0xDFFF"

definition join_surrogates :: "codepoint \<Rightarrow> codepoint \<Rightarrow> codepoint" where
  "join_surrogates h l = 0x10000 + (push_bit 10 (h - 0xD800) OR (l - 0xDC00))"

text \<open>UTF-16 and UTF-32, with the bytes of a unit in the order of the encoding.\<close>

fun utf16_units :: "bool \<Rightarrow> bytes \<Rightarrow> pystr result" where
  "utf16_units big [] = Inr []"
| "utf16_units big [b] = Inl ValueError"
| "utf16_units big (b # c # bs) =
     bindE (utf16_units big bs)
       (\<lambda>s. Inr ((if big then push_bit 8 (ucast b) OR ucast c else push_bit 8 (ucast c) OR ucast b) # s))"

fun pair_surrogates :: "pystr \<Rightarrow> pystr" where
  "pair_surrogates (h # l # s) =
     (if high_surrogate h \<and> low_surrogate l then join_surrogates h l # pair_surrogates s
      else h # pair_surrogates (l # s))"
| "pair_surrogates s = s"

definition utf16_decode :: "bool \<Rightarrow> bytes \<Rightarrow> pystr result" where
  "utf16_decode big bs = bindE (utf16_units big bs) (\<lambda>s. Inr (pair_surrogates s))"

fun utf32_decode :: "bool \<Rightarrow> bytes \<Rightarrow> pystr result" where
  "utf32_decode big (b # c # d # e # bs) =
     (let u = (if big then push_bit 24 (ucast b) OR push_bit 16 (ucast c) OR push_bit 8 (ucast d) OR ucast e
               else push_bit 24 (ucast e) OR push_bit 16 (ucast d) OR push_bit 8 (ucast c) OR ucast b)
      in if 0x10FFFF < u then Inl ValueError else bindE (utf32_decode big bs) (\<lambda>s. Inr (u # s)))"
| "utf32_decode big [] = Inr []"
| "utf32_decode big bs = Inl ValueError"

text \<open>\<open>b.decode(detect_encoding(b), 'surrogatepass')\<close>.\<close>

definition decode_text :: "bytes \<Rightarrow> pystr result" where
  "decode_text b =
     (if take 4 b = [0x00, 0x00, 0xFE, 0xFF] then utf32_decode True (drop 4 b)
      else if take 4 b = [0xFF, 0xFE, 0x00, 0x00] then utf32_decode False (drop 4 b)
      else if take 2 b = [0xFE, 0xFF] then utf16_decode True (drop 2 b)
      else if take 2 b = [0xFF, 0xFE] then utf16_decode False (drop 2 b)
      else if take 3 b = [0xEF, 0xBB, 0xBF] then utf8_decode (drop 3 b)
      else case b of
        b0 # b1 # b2 # b3 # _ \<Rightarrow>
          if b0 = 0 then (if b1 \<noteq> 0 then utf16_decode True b else utf32_decode True b)
          else if b1 = 0 then (if b2 \<noteq> 0 \<or> b3 \<noteq> 0 then utf16_decode False b else utf32_decode False b)
          else utf8_decode b
      | [b0, b1] \<Rightarrow>
          if b0 = 0 then utf16_decode True b else if b1 = 0 then utf16_decode False b else utf8_decode b
      | _ \<Rightarrow> utf8_decode b)"

section \<open>Scanning\<close>

datatype json = JNull | JBool bool | JString pystr | JArray "json list" | JObject "(pystr \<times> json) list"

definition is_white :: "codepoint \<Rightarrow> bool" where
  "is_white c \<longleftrightarrow> c \<in> {0x20, 0x09, 0x0A, 0x0D}"

definition skip_white :: "pystr \<Rightarrow> pystr" where
  "skip_white s = dropWhile is_white s"

definition hex_value :: "codepoint \<Rightarrow> codepoint option" where
  "hex_value c =
     (if 0x30 \<le> c \<and> c \<le> 0x39 then Some (c - 0x30)
      else if 0x61 \<le> c \<and> c \<le> 0x66 then Some (c - 0x61 + 10)
      else if 0x41 \<le> c \<and> c \<le> 0x46 then Some (c - 0x41 + 10) else None)"

definition hex4 :: "pystr \<Rightarrow> codepoint option" where
  "hex4 s =
     (case s of
        a # b # c # d # _ \<Rightarrow>
          (case (hex_value a, hex_value b, hex_value c, hex_value d) of
             (Some a, Some b, Some c, Some d) \<Rightarrow> Some (push_bit 12 a OR push_bit 8 b OR push_bit 4 c OR d)
           | _ \<Rightarrow> None)
      | _ \<Rightarrow> None)"

definition escaped :: "codepoint \<Rightarrow> codepoint option" where
  "escaped c = map_of [(0x22, 0x22), (0x5C, 0x5C), (0x2F, 0x2F), (0x62, 0x08), (0x66, 0x0C), (0x6E, 0x0A),
     (0x72, 0x0D), (0x74, 0x09)] c"

text \<open>The rest of a string after its opening quote.\<close>

function scanstring :: "pystr \<Rightarrow> (pystr \<times> pystr) result" where
  "scanstring s =
     (case s of
        [] \<Rightarrow> Inl ValueError
      | c # cs \<Rightarrow>
          if c = 0x22 then Inr ([], cs)
          else if c < 0x20 then Inl ValueError
          else if c \<noteq> 0x5C then bindE (scanstring cs) (\<lambda>(t, r). Inr (c # t, r))
          else (case cs of
            [] \<Rightarrow> Inl ValueError
          | e # ds \<Rightarrow>
              if e \<noteq> 0x75
              then (case escaped e of
                  None \<Rightarrow> Inl ValueError
                | Some x \<Rightarrow> bindE (scanstring ds) (\<lambda>(t, r). Inr (x # t, r)))
              else (case hex4 ds of
                  None \<Rightarrow> Inl ValueError
                | Some uni \<Rightarrow>
                    let es = drop 4 ds in
                    if high_surrogate uni \<and> take 2 es = [0x5C, 0x75]
                    then (case hex4 (drop 2 es) of
                        None \<Rightarrow> Inl ValueError
                      | Some uni2 \<Rightarrow>
                          if low_surrogate uni2
                          then bindE (scanstring (drop 6 es)) (\<lambda>(t, r). Inr (join_surrogates uni uni2 # t, r))
                          else bindE (scanstring es) (\<lambda>(t, r). Inr (uni # t, r)))
                    else bindE (scanstring es) (\<lambda>(t, r). Inr (uni # t, r)))))"
  by pat_completeness auto
termination
  by (relation "measure length") auto

declare scanstring.simps [simp del]

text \<open>A number, as the string it is written as.\<close>

definition is_digit_char :: "codepoint \<Rightarrow> bool" where
  "is_digit_char c \<longleftrightarrow> 0x30 \<le> c \<and> c \<le> 0x39"

definition scan_digits :: "pystr \<Rightarrow> pystr \<times> pystr" where
  "scan_digits s = (takeWhile is_digit_char s, dropWhile is_digit_char s)"

definition scan_fraction :: "pystr \<Rightarrow> pystr \<times> pystr" where
  "scan_fraction s =
     (case s of
        c # d # r \<Rightarrow>
          if c = 0x2E \<and> is_digit_char d then (let (ds, r') = scan_digits (d # r) in (c # ds, r')) else ([], s)
      | _ \<Rightarrow> ([], s))"

definition scan_exponent :: "pystr \<Rightarrow> pystr \<times> pystr" where
  "scan_exponent s =
     (case s of
        e # r \<Rightarrow>
          (let sign = take 1 (takeWhile (\<lambda>c. c \<in> {0x2B, 0x2D}) r); (ds, r') = scan_digits (drop (length sign) r)
           in if e \<in> {0x45, 0x65} \<and> ds \<noteq> [] then (e # sign @ ds, r') else ([], s))
      | [] \<Rightarrow> ([], s))"

definition scan_number :: "pystr \<Rightarrow> (pystr \<times> pystr) option" where
  "scan_number s =
     (let sign = take 1 (takeWhile (\<lambda>c. c = 0x2D) s); r = drop (length sign) s;
          (ds, r1) = (if take 1 r = [0x30] then ([0x30], drop 1 r) else scan_digits r);
          (frac, r2) = scan_fraction r1; (ex, r3) = scan_exponent r2
      in if ds = [] then None else Some (sign @ ds @ frac @ ex, r3))"

text \<open>A literal word.\<close>

definition starts_with :: "string \<Rightarrow> pystr \<Rightarrow> bool" where
  "starts_with w s \<longleftrightarrow> take (length w) s = py_chars w"

text \<open>The equation of \<open>scanstring\<close>, one case at a time.\<close>

lemma scanstring_cases:
  "scanstring [] = Inl ValueError"
  "scanstring (c # cs) =
     (if c = 0x22 then Inr ([], cs) else if c < 0x20 then Inl ValueError
      else if c \<noteq> 0x5C then bindE (scanstring cs) (\<lambda>(t, r). Inr (c # t, r))
      else (case cs of [] \<Rightarrow> Inl ValueError | e # ds \<Rightarrow>
        if e \<noteq> 0x75
        then (case escaped e of None \<Rightarrow> Inl ValueError | Some x \<Rightarrow> bindE (scanstring ds) (\<lambda>(t, r). Inr (x # t, r)))
        else (case hex4 ds of None \<Rightarrow> Inl ValueError
          | Some uni \<Rightarrow>
              if high_surrogate uni \<and> take 2 (drop 4 ds) = [0x5C, 0x75]
              then (case hex4 (drop 6 ds) of None \<Rightarrow> Inl ValueError
                | Some uni2 \<Rightarrow>
                    if low_surrogate uni2 then bindE (scanstring (drop 10 ds)) (\<lambda>(t, r). Inr (join_surrogates uni uni2 # t, r))
                    else bindE (scanstring (drop 4 ds)) (\<lambda>(t, r). Inr (uni # t, r)))
              else bindE (scanstring (drop 4 ds)) (\<lambda>(t, r). Inr (uni # t, r)))))"
  by (simp_all add: scanstring.simps [of "[]"] scanstring.simps [of "c # cs"] Let_def cong: list.case_cong option.case_cong if_cong)

lemma scanstring_shorter [shorter_dests]: "scanstring s = Inr (t, r) \<Longrightarrow> length r < length s"
proof (induction s arbitrary: t r rule: measure_induct_rule [of length])
  case (less s)
  have IH: "length r < length x" if "length x < length s" "scanstring x = Inr (t, r)" for x t r
    using less.IH that by blast
  have rest: "length r < length s"
    if "bindE (scanstring x) (\<lambda>(t, r). Inr (f t, r)) = Inr (t, r)" "length x < length s" for x f t r
    using that IH by (fastforce simp: bindE_eq_Inr)
  show ?case
  proof (cases s)
    case Nil
    with less.prems show ?thesis by (simp add: scanstring_cases)
  next
    case (Cons c cs)
    note prems = less.prems [unfolded Cons scanstring_cases(2)]
    show ?thesis
    proof (cases "c = 0x22 \<or> c < 0x20 \<or> c \<noteq> 0x5C")
      case True
      with prems rest [of cs "\<lambda>t. c # t" t r] Cons show ?thesis by (auto split: if_splits)
    next
      case False
      then have c: "c = 0x5C" by simp
      show ?thesis
      proof (cases cs)
        case Nil
        with prems c show ?thesis by simp
      next
        case ds: (Cons e ds)
        note prems = prems [unfolded ds c, simplified]
        have less: "length ds < length s" "length (drop n ds) < length s" for n
          using Cons ds by simp_all
        show ?thesis
        proof (cases "e = 0x75")
          case True
          with prems show ?thesis
            by (auto simp del: length_drop split: option.splits if_splits intro: rest [OF _ less(2)])
        next
          case False
          with prems show ?thesis
            by (auto split: option.splits intro: rest [OF _ less(1)])
        qed
      qed
    qed
  qed
qed

section \<open>Values\<close>

lemma length_skip_white: "length (skip_white s) \<le> length s"
  by (simp add: skip_white_def length_dropWhile_le)

text \<open>The loops over the items of an array and the members of an object go on with what the value before has
  left. That this is shorter is tested where termination needs it; the equations below do without.\<close>

function json_value :: "pystr \<Rightarrow> (json \<times> pystr) result"
  and json_items :: "pystr \<Rightarrow> (json list \<times> pystr) result"
  and json_members :: "pystr \<Rightarrow> ((pystr \<times> json) list \<times> pystr) result" where
  "json_value s =
     (case s of
        [] \<Rightarrow> Inl ValueError
      | c # cs \<Rightarrow>
          if c = 0x22 then bindE (scanstring cs) (\<lambda>(t, r). Inr (JString t, r))
          else if c = 0x7B
          then (let r = skip_white cs in
                if take 1 r = [0x7D] then Inr (JObject [], drop 1 r)
                else bindE (json_members r) (\<lambda>(ms, q). Inr (JObject ms, q)))
          else if c = 0x5B
          then (let r = skip_white cs in
                if take 1 r = [0x5D] then Inr (JArray [], drop 1 r)
                else bindE (json_items r) (\<lambda>(vs, q). Inr (JArray vs, q)))
          else if starts_with ''null'' s then Inr (JNull, drop 4 s)
          else if starts_with ''true'' s then Inr (JBool True, drop 4 s)
          else if starts_with ''false'' s then Inr (JBool False, drop 5 s)
          else (case scan_number s of
              Some (t, r) \<Rightarrow> Inr (JString t, r)
            | None \<Rightarrow>
                if starts_with ''NaN'' s then Inr (JString (py_chars ''NaN''), drop 3 s)
                else if starts_with ''Infinity'' s then Inr (JString (py_chars ''Infinity''), drop 8 s)
                else if starts_with ''-Infinity'' s then Inr (JString (py_chars ''-Infinity''), drop 9 s)
                else Inl ValueError))"
| "json_items s =
     bindE (json_value s) (\<lambda>(v, r).
       let r = skip_white r in
       if take 1 r = [0x5D] then Inr ([v], drop 1 r)
       else if take 1 r = [0x2C]
       then (let q = skip_white (drop 1 r) in
             if length q < length s then bindE (json_items q) (\<lambda>(vs, p). Inr (v # vs, p)) else Inl ValueError)
       else Inl ValueError)"
| "json_members s =
     (if take 1 s \<noteq> [0x22] then Inl ValueError
      else bindE (scanstring (drop 1 s)) (\<lambda>(k, r).
        let r = skip_white r in
        if take 1 r \<noteq> [0x3A] then Inl ValueError
        else bindE (json_value (skip_white (drop 1 r))) (\<lambda>(v, q).
          let q = skip_white q in
          if take 1 q = [0x7D] then Inr ([(k, v)], drop 1 q)
          else if take 1 q = [0x2C]
          then (let p = skip_white (drop 1 q) in
                if length p < length s then bindE (json_members p) (\<lambda>(ms, o'). Inr ((k, v) # ms, o')) else Inl ValueError)
          else Inl ValueError)))"
  by pat_completeness auto
termination
proof (relation "measure (\<lambda>x. case x of Inl s \<Rightarrow> 2 * length s | Inr (Inl s) \<Rightarrow> 2 * length s + 1
    | Inr (Inr s) \<Rightarrow> 2 * length s + 1)", goal_cases)
  case (2 s c cs r)
  then show ?case using length_skip_white [of cs] by simp
next
  case (3 s c cs r)
  then show ?case using length_skip_white [of cs] by simp
next
  case (6 s p k r r')
  then have "length r < length (drop 1 s)"
    by (auto dest: scanstring_shorter)
  moreover have "length (skip_white (drop 1 r')) \<le> length r"
    using 6 length_skip_white [of "drop 1 r'"] length_skip_white [of r] by simp
  ultimately show ?case by simp
qed simp_all

declare json_value.simps [simp del] json_items.simps [simp del] json_members.simps [simp del]

text \<open>\<open>json.loads(b)\<close>: one value, with white space around it.\<close>

definition json_loads :: "bytes \<Rightarrow> json result" where
  "json_loads b =
     bindE (decode_text b) (\<lambda>s. bindE (json_value (skip_white s)) (\<lambda>(v, r).
       if skip_white r \<noteq> [] then Inl ValueError else Inr v))"

section \<open>What is left is shorter\<close>

lemma scan_number_split:
  assumes "scan_number s = Some (t, r)"
  shows "s = t @ r" and "t \<noteq> []"
proof -
  have take1: "take 1 (takeWhile P x) @ drop (length (take 1 (takeWhile P x))) x = x" for P and x :: pystr
    by (cases x) auto
  have frac: "fst (scan_fraction x) @ snd (scan_fraction x) = x" for x
    by (auto simp: scan_fraction_def scan_digits_def split: list.split)
  have ex: "fst (scan_exponent x) @ snd (scan_exponent x) = x" for x
    using take1 [of "\<lambda>c. c \<in> {0x2B, 0x2D}" "tl x"]
    by (auto simp: scan_exponent_def scan_digits_def Let_def split: list.split)
  let ?sign = "take 1 (takeWhile (\<lambda>c. c = 0x2D) s)"
  let ?r = "drop (length ?sign) s"
  obtain ds r1 where d: "(if take 1 ?r = [0x30] then ([0x30], drop 1 ?r) else scan_digits ?r) = (ds, r1)"
    by fastforce
  have dr: "ds @ r1 = ?r"
  proof (cases "take 1 ?r = [0x30]")
    case True
    with d show ?thesis by (metis append_take_drop_id prod.inject)
  next
    case False
    with d show ?thesis by (auto simp: scan_digits_def)
  qed
  have "ds \<noteq> [] \<and> s = ?sign @ ds @ r1 \<and> t = ?sign @ ds @ fst (scan_fraction r1) @ fst (scan_exponent (snd (scan_fraction r1)))
      \<and> r = snd (scan_exponent (snd (scan_fraction r1)))"
    using assms [unfolded scan_number_def Let_def d prod.case] dr take1 [of "\<lambda>c. c = 0x2D" s]
    by (simp add: case_prod_unfold split: if_splits)
  then show "s = t @ r" "t \<noteq> []"
    using frac [of r1] ex [of "snd (scan_fraction r1)"] by auto
qed

lemma scan_number_shorter: "scan_number s = Some (t, r) \<Longrightarrow> length r < length s"
  using scan_number_split [of s t r] by auto

lemma starts_with_length: "starts_with w s \<Longrightarrow> length w \<le> length s"
  by (metis starts_with_def length_map length_take min.cobounded1 py_chars_def)

lemma json_shorter:
  "json_value s = Inr (v, r) \<Longrightarrow> length r < length s"
  "json_items s = Inr (vs, r) \<Longrightarrow> length r < length s"
  "json_members s = Inr (ms, r) \<Longrightarrow> length r < length s"
proof (induction s and s and s arbitrary: v r and vs r and ms r rule: json_value_json_items_json_members.induct)
  case (1 s)
  have sw: "starts_with w s \<Longrightarrow> w \<noteq> [] \<Longrightarrow> length (drop (length w) s) < length s" for w
    using starts_with_length [of w s] by (cases w) auto
  show ?case
  proof (cases s)
    case Nil
    with "1.prems" show ?thesis by (simp add: json_value.simps)
  next
    case (Cons c cs)
    have sk: "length (skip_white cs) < length s"
      using length_skip_white [of cs] Cons by simp
    have IHs: "length q < length s" if "json_members (skip_white cs) = Inr (ms, q)" "c = 0x7B" "take 1 (skip_white cs) \<noteq> [0x7D]" for ms q
      using "1.IH"(1) [OF Cons _ that(2) refl that(3)] that sk by fastforce
    have IHi: "length q < length s" if "json_items (skip_white cs) = Inr (vs, q)" "c = 0x5B" "take 1 (skip_white cs) \<noteq> [0x5D]" for vs q
      using "1.IH"(2) [OF Cons _ _ that(2) refl that(3)] that sk by fastforce
    from "1.prems" Cons sk show ?thesis
      using sw [of "''null''"] sw [of "''true''"] sw [of "''false''"] sw [of "''NaN''"] sw [of "''Infinity''"]
        sw [of "''-Infinity''"]
      by (subst (asm) json_value.simps)
        (auto simp: bindE_eq_Inr Let_def Cons dest: scanstring_shorter IHs IHi scan_number_shorter
          split: if_splits option.splits)
  qed
next
  case (2 s)
  from "2.prems" obtain v q where v: "json_value s = Inr (v, q)"
    by (subst (asm) json_items.simps) (auto simp: bindE_eq_Inr)
  then have q: "length (skip_white q) < length s"
    using "2.IH"(1) length_skip_white [of q] by fastforce
  have IH: "length r < length s" if "json_items (skip_white (drop 1 (skip_white q))) = Inr (ws, r)"
      "take 1 (skip_white q) = [0x2C]" "length (skip_white (drop 1 (skip_white q))) < length s" for ws r
    using "2.IH"(2) [OF v refl refl _ that(2) refl that(3) that(1)] that by simp
  from "2.prems" v q show ?case
    by (subst (asm) json_items.simps) (auto simp: bindE_eq_Inr Let_def split: if_splits dest: IH [unfolded One_nat_def])
next
  case (3 s)
  from "3.prems" have quote: "take 1 s = [0x22]"
    by (subst (asm) json_members.simps) (simp split: if_splits)
  with "3.prems" obtain k r1 where k: "scanstring (drop 1 s) = Inr (k, r1)"
    by (subst (asm) json_members.simps) (auto simp: bindE_eq_Inr)
  with "3.prems" quote have colon: "take 1 (skip_white r1) = [0x3A]"
    by (subst (asm) json_members.simps) (simp add: Let_def split: if_splits)
  with "3.prems" quote k obtain v q where v: "json_value (skip_white (drop 1 (skip_white r1))) = Inr (v, q)"
    by (subst (asm) json_members.simps) (auto simp: bindE_eq_Inr)
  have "length q < length (skip_white (drop 1 (skip_white r1)))"
    using "3.IH"(1) [OF _ k refl refl _ v] quote colon by simp
  then have q: "length (skip_white q) < length s"
    using scanstring_shorter [OF k] length_skip_white [of "drop 1 (skip_white r1)"] length_skip_white [of r1]
      length_skip_white [of q] by simp
  have IH: "length r < length s" if "json_members (skip_white (drop 1 (skip_white q))) = Inr (ns, r)"
      "take 1 (skip_white q) = [0x2C]" "length (skip_white (drop 1 (skip_white q))) < length s" for ns r
    using "3.IH"(2) [OF _ k refl refl _ v refl refl _ that(2) refl that(3) that(1)] quote colon that by simp
  from "3.prems" quote k colon v q show ?case
    by (subst (asm) json_members.simps) (auto simp: bindE_eq_Inr Let_def split: if_splits dest: IH [unfolded One_nat_def])
qed

text \<open>The equations without the tests on the length.\<close>

lemma json_items_eq:
  "json_items s =
     bindE (json_value s) (\<lambda>(v, r).
       let r = skip_white r in
       if take 1 r = [0x5D] then Inr ([v], drop 1 r)
       else if take 1 r = [0x2C] then bindE (json_items (skip_white (drop 1 r))) (\<lambda>(vs, p). Inr (v # vs, p))
       else Inl ValueError)"
proof -
  have "length (skip_white (drop 1 (skip_white r))) < length s" if "json_value s = Inr (v, r)" for v r
    using json_shorter(1) [OF that] length_skip_white [of "drop 1 (skip_white r)"] length_skip_white [of r]
    by simp
  then show ?thesis
    by (subst json_items.simps, intro bindE_cong refl) (auto simp: Let_def)
qed

lemma json_members_eq:
  "json_members s =
     (if take 1 s \<noteq> [0x22] then Inl ValueError
      else bindE (scanstring (drop 1 s)) (\<lambda>(k, r).
        let r = skip_white r in
        if take 1 r \<noteq> [0x3A] then Inl ValueError
        else bindE (json_value (skip_white (drop 1 r))) (\<lambda>(v, q).
          let q = skip_white q in
          if take 1 q = [0x7D] then Inr ([(k, v)], drop 1 q)
          else if take 1 q = [0x2C] then bindE (json_members (skip_white (drop 1 q))) (\<lambda>(ms, o'). Inr ((k, v) # ms, o'))
          else Inl ValueError)))"
proof -
  have "length (skip_white (drop 1 (skip_white q))) < length s"
    if "scanstring (drop 1 s) = Inr (k, r)" "json_value (skip_white (drop 1 (skip_white r))) = Inr (v, q)" for k r v q
  proof -
    have "length q < length (skip_white (drop 1 (skip_white r)))"
      using json_shorter(1) [OF that(2)] .
    then show ?thesis
      using scanstring_shorter [OF that(1)] length_skip_white [of "drop 1 (skip_white q)"] length_skip_white [of q]
        length_skip_white [of "drop 1 (skip_white r)"] length_skip_white [of r]
      by simp
  qed
  then show ?thesis
    by (subst json_members.simps) (auto simp: Let_def intro!: bindE_cong)
qed

section \<open>Errors\<close>

text \<open>A computation that fails with \<open>ValueError\<close> only.\<close>

definition value_errors :: "'a result \<Rightarrow> bool" where
  "value_errors m \<longleftrightarrow> (\<forall>e. m = Inl e \<longrightarrow> e = ValueError)"

lemma value_errors_simps [simp]: "value_errors (Inr x)" "value_errors (Inl e) \<longleftrightarrow> e = ValueError"
  by (auto simp: value_errors_def)

lemma value_errors_bindE: "value_errors m \<Longrightarrow> (\<And>x. m = Inr x \<Longrightarrow> value_errors (f x)) \<Longrightarrow> value_errors (bindE m f)"
  by (auto simp: value_errors_def bindE_eq_Inl)

lemma value_errors_if: "(c \<Longrightarrow> value_errors a) \<Longrightarrow> (\<not> c \<Longrightarrow> value_errors b) \<Longrightarrow> value_errors (if c then a else b)"
  by simp

lemma value_errors_prod: "value_errors (f (fst p) (snd p)) \<Longrightarrow> value_errors (case p of (a, b) \<Rightarrow> f a b)"
  by (cases p) simp

lemma value_errors_option:
  "(x = None \<Longrightarrow> value_errors a) \<Longrightarrow> (\<And>y. x = Some y \<Longrightarrow> value_errors (f y)) \<Longrightarrow>
    value_errors (case x of None \<Rightarrow> a | Some y \<Rightarrow> f y)"
  by (cases x) simp_all

lemma value_errors_list:
  "(x = [] \<Longrightarrow> value_errors a) \<Longrightarrow> (\<And>y ys. x = y # ys \<Longrightarrow> value_errors (f y ys)) \<Longrightarrow>
    value_errors (case x of [] \<Rightarrow> a | y # ys \<Rightarrow> f y ys)"
  by (cases x) simp_all

lemmas value_errors_intros = value_errors_bindE value_errors_if value_errors_prod value_errors_option value_errors_list
  value_errors_simps(1)

lemma scanstring_errors: "value_errors (scanstring s)"
proof (induction s rule: measure_induct_rule [of length])
  case (less s)
  show ?case
  proof (cases s)
    case Nil
    then show ?thesis by (simp add: scanstring_cases)
  next
    case (Cons c cs)
    have "value_errors (scanstring x)" if "length x \<le> length cs" for x
      using less.IH that Cons by simp
    then show ?thesis
      unfolding Cons scanstring_cases(2) by (intro value_errors_intros) auto
  qed
qed

lemma json_errors: "value_errors (json_value s)" "value_errors (json_items s)" "value_errors (json_members s)"
proof (induction s and s and s rule: json_value_json_items_json_members.induct)
  case (1 s)
  then show ?case
    by (subst json_value.simps, unfold Let_def, intro value_errors_intros) (auto intro: scanstring_errors)
next
  case (2 s)
  then show ?case
    by (subst json_items.simps, unfold Let_def, intro value_errors_intros) auto
next
  case (3 s)
  then show ?case
    by (subst json_members.simps, unfold Let_def, intro value_errors_intros) (auto intro: scanstring_errors)
qed

lemma utf8_decode_errors: "value_errors (utf8_decode b)"
proof (induction b rule: measure_induct_rule [of length])
  case (less b)
  show ?case
  proof (cases b)
    case Nil
    then show ?thesis by simp
  next
    case (Cons c cs)
    have "value_errors (utf8_decode x)" if "length x \<le> length cs" for x
      using less.IH that Cons by simp
    then show ?thesis
      unfolding Cons utf8_decode.simps by (intro value_errors_intros) auto
  qed
qed

lemma utf16_units_errors: "value_errors (utf16_units big b)"
  by (induction big b rule: utf16_units.induct) (auto intro: value_errors_intros)

lemma utf32_decode_errors: "value_errors (utf32_decode big b)"
  by (induction big b rule: utf32_decode.induct) (auto simp: Let_def intro!: value_errors_intros)

lemma decode_text_errors: "value_errors (decode_text b)"
  unfolding decode_text_def utf16_decode_def
  by (intro value_errors_intros utf8_decode_errors utf16_units_errors utf32_decode_errors)

lemma json_loads_errors: "value_errors (json_loads b)"
  unfolding json_loads_def by (intro value_errors_intros decode_text_errors json_errors) simp

section \<open>Printing\<close>

text \<open>The text of strings, lists and dicts whose strings need no escapes, with a gap after every comma and colon:
  \<open>json.dumps\<close> writes a blank there, compact texts nothing.\<close>

definition quoted :: "pystr \<Rightarrow> pystr" where
  "quoted s = [0x22] @ s @ [0x22]"

fun text_with :: "pystr \<Rightarrow> json \<Rightarrow> pystr" and items_with :: "pystr \<Rightarrow> json list \<Rightarrow> pystr"
  and members_with :: "pystr \<Rightarrow> (pystr \<times> json) list \<Rightarrow> pystr" where
  "text_with gap (JString s) = quoted s"
| "text_with gap (JArray vs) = [0x5B] @ items_with gap vs @ [0x5D]"
| "text_with gap (JObject ms) = [0x7B] @ members_with gap ms @ [0x7D]"
| "text_with gap (JBool b) = py_chars (if b then ''true'' else ''false'')"
| "text_with gap JNull = py_chars ''null''"
| "items_with gap [] = []"
| "items_with gap (v # vs) = text_with gap v @ (if vs = [] then [] else 0x2C # gap @ items_with gap vs)"
| "members_with gap [] = []"
| "members_with gap ((k, v) # ms) =
     quoted k @ 0x3A # gap @ text_with gap v @ (if ms = [] then [] else 0x2C # gap @ members_with gap ms)"

abbreviation json_text :: "json \<Rightarrow> pystr" where
  "json_text \<equiv> text_with [0x20]"

fun plain_json :: "json \<Rightarrow> bool" and plain_items :: "json list \<Rightarrow> bool"
  and plain_members :: "(pystr \<times> json) list \<Rightarrow> bool" where
  "plain_json (JString s) = list_all plain_char s"
| "plain_json (JArray vs) = plain_items vs"
| "plain_json (JObject ms) = plain_members ms"
| "plain_json (JBool b) = False"
| "plain_json JNull = False"
| "plain_items [] = True"
| "plain_items (v # vs) = (plain_json v \<and> plain_items vs)"
| "plain_members [] = True"
| "plain_members ((k, v) # ms) = (list_all plain_char k \<and> plain_json v \<and> plain_members ms)"

lemma scanstring_plain: "list_all plain_char s \<Longrightarrow> scanstring (s @ 0x22 # r) = Inr (s, r)"
  by (induction s) (auto simp: scanstring_cases plain_char_def)

lemma skip_white_simps:
  "skip_white [] = []" "skip_white (c # s) = (if is_white c then skip_white s else c # s)"
  by (simp_all add: skip_white_def)

lemma plain_json_first:
  assumes "plain_json v"
  shows "\<exists>c s. text_with gap v = c # s \<and> \<not> is_white c \<and> c \<noteq> 0x5D"
  using assms by (cases v) (auto simp: quoted_def is_white_def)

lemma plain_json_head: "plain_json v \<Longrightarrow> skip_white (text_with gap v @ r) = text_with gap v @ r"
  using plain_json_first [of v gap] by (auto simp: skip_white_simps)

lemma members_head:
  "ms \<noteq> [] \<Longrightarrow> take 1 (members_with gap ms @ r) = [0x22] \<and> skip_white (members_with gap ms @ r) = members_with gap ms @ r"
  by (cases ms) (auto simp: quoted_def skip_white_simps is_white_def)

lemma items_head:
  "vs \<noteq> [] \<Longrightarrow> plain_items vs \<Longrightarrow>
    skip_white (items_with gap vs @ r) = items_with gap vs @ r \<and> take 1 (items_with gap vs @ r) \<noteq> [0x5D]"
  using plain_json_first [of "hd vs" gap] by (cases vs) (auto simp: skip_white_simps)

lemma skip_white_gap: "list_all is_white gap \<Longrightarrow> skip_white (gap @ s) = skip_white s"
  by (induction gap) (simp_all add: skip_white_simps)

lemma json_print_parse:
  assumes "list_all is_white gap"
  shows "plain_json v \<Longrightarrow> json_value (text_with gap v @ r) = Inr (v, r)"
  "plain_items vs \<Longrightarrow> vs \<noteq> [] \<Longrightarrow> json_items (items_with gap vs @ 0x5D # r) = Inr (vs, r)"
  "plain_members ms \<Longrightarrow> ms \<noteq> [] \<Longrightarrow> json_members (members_with gap ms @ 0x7D # r) = Inr (ms, r)"
  using assms
proof (induction gap v and gap vs and gap ms arbitrary: r and r and r rule: text_with_items_with_members_with.induct)
  case (1 gap s)
  then show ?case
    by (simp add: json_value.simps [of "34 # _"] quoted_def scanstring_plain)
next
  case (2 gap vs)
  show ?case
  proof (cases "vs = []")
    case True
    then show ?thesis by (simp add: json_value.simps [of "91 # _"] skip_white_simps is_white_def)
  next
    case False
    with 2 items_head [OF False, of gap "0x5D # r"] show ?thesis
      by (simp add: json_value.simps [of "91 # _"])
  qed
next
  case (3 gap ms)
  show ?case
  proof (cases "ms = []")
    case True
    then show ?thesis by (simp add: json_value.simps [of "123 # _"] skip_white_simps is_white_def)
  next
    case False
    with 3 members_head [OF False, of gap "0x7D # r"] show ?thesis
      by (simp add: json_value.simps [of "123 # _"])
  qed
next
  case (7 gap v vs)
  then have gap: "list_all is_white gap" by simp
  show ?case
  proof (cases "vs = []")
    case True
    with 7 show ?thesis
      by (simp add: skip_white_gap [OF gap] json_items_eq [of "text_with gap v @ _"] skip_white_simps is_white_def)
  next
    case False
    with 7 items_head [OF False, of gap "0x5D # r"] show ?thesis
      by (simp add: skip_white_gap [OF gap] json_items_eq [of "text_with gap v @ _"] skip_white_simps is_white_def)
  qed
next
  case (9 gap k v ms)
  then have gap: "list_all is_white gap" by simp
  have q: "scanstring (k @ 0x22 # s) = Inr (k, s)" for s
    using 9 by (simp add: scanstring_plain)
  have v: "json_value (text_with gap v @ s) = Inr (v, s)" "skip_white (text_with gap v @ s) = text_with gap v @ s" for s
    using 9 by (simp_all add: plain_json_head)
  show ?case
  proof (cases "ms = []")
    case True
    then show ?thesis
      by (simp add: skip_white_gap [OF gap] json_members_eq [of "34 # _"] quoted_def q v skip_white_simps is_white_def)
  next
    case False
    with 9 members_head [OF False, of gap "0x7D # r"] show ?thesis
      by (simp add: skip_white_gap [OF gap] json_members_eq [of "34 # _"] quoted_def q v skip_white_simps is_white_def)
  qed
qed simp_all

section \<open>ASCII text\<close>

lemma ucast_ascii: "(c :: codepoint) < 0x80 \<Longrightarrow> ucast (ucast c :: byte) = c" "(c :: codepoint) < 0x80 \<Longrightarrow> (ucast c :: byte) < 0x80"
proof -
  assume c: "c < 0x80"
  then have u: "uint c < 128" by (simp add: word_less_def)
  then have "uint (ucast c :: byte) = uint c"
    by (simp add: unsigned_ucast_eq unsigned_take_bit_eq take_bit_int_eq_self)
  with u show "(ucast c :: byte) < 0x80" "ucast (ucast c :: byte) = c"
    by (simp_all add: word_less_def word_uint_eq_iff unsigned_ucast_eq unsigned_take_bit_eq take_bit_int_eq_self)
qed

lemma utf8_decode_ascii: "list_all (\<lambda>c. c < 0x80) s \<Longrightarrow> utf8_decode (map ucast s) = Inr s"
  by (induction s) (simp_all add: utf8_decode.simps(2) ucast_ascii)

lemma json_text_ascii:
  assumes "list_all (\<lambda>c. c < 0x80) gap"
  shows "plain_json v \<Longrightarrow> list_all (\<lambda>c. c < 0x80) (text_with gap v)"
    and "plain_items vs \<Longrightarrow> list_all (\<lambda>c. c < 0x80) (items_with gap vs)"
    and "plain_members ms \<Longrightarrow> list_all (\<lambda>c. c < 0x80) (members_with gap ms)"
  using assms
  by (induction gap v and gap vs and gap ms rule: text_with_items_with_members_with.induct)
    (auto simp: quoted_def plain_char_def list_all_iff)

text \<open>The bytes of an ASCII text.\<close>

definition ascii_bytes :: "pystr \<Rightarrow> bytes" where
  "ascii_bytes s = map ucast s"

lemma white_ascii: "is_white c \<Longrightarrow> c < 0x80"
  by (auto simp: is_white_def)

lemma json_loads_text:
  assumes "plain_members ((k, v) # ms)" and "k \<noteq> []" and gap: "list_all is_white gap"
  shows "json_loads (ascii_bytes (text_with gap (JObject ((k, v) # ms)))) = Inr (JObject ((k, v) # ms))"
proof -
  let ?v = "JObject ((k, v) # ms)"
  from assms have plain: "plain_json ?v" by simp
  have "list_all (\<lambda>c. c < 0x80) gap" using gap white_ascii by (auto simp: list_all_iff)
  then have ascii: "list_all (\<lambda>c. c < 0x80) (text_with gap ?v)" by (rule json_text_ascii(1)) (rule plain)
  obtain c d s where s: "text_with gap ?v = 0x7B # 0x22 # c # d # s"
    using assms(2) that by (cases k; cases "tl k") (auto simp: quoted_def)
  have "decode_text (ascii_bytes (text_with gap ?v)) = utf8_decode (map ucast (text_with gap ?v))"
    unfolding s by (simp add: decode_text_def ascii_bytes_def)
  with utf8_decode_ascii [OF ascii] plain_json_head [OF plain, of gap "[]"] json_print_parse(1) [OF gap plain, of "[]"]
  show ?thesis
    by (simp add: json_loads_def skip_white_simps)
qed

end
