(* ===== verification/Http1Json.thy ===== *)
theory Http1Json
  imports Http1Parse PyJson
begin

text \<open>
  \<open>tools/http1.py\<close>, from \<open>parse_response_json\<close> on: how an origin server's answer is read. The servers
  answer with a JSON object that holds the request they parsed, its parts in base64; old ones may
  answer without a status line. The lemmas show that the object made from a request gives the
  request back, and that everything else is a \<open>ValueError\<close>.
\<close>

section \<open>The parsed request in JSON\<close>

text \<open>\<open>json_parser_output[key]\<close>: of equal keys the last one counts.\<close>

definition json_get :: "(pystr \<times> json) list \<Rightarrow> string \<Rightarrow> json option" where
  "json_get ms key = map_of (rev ms) (py_chars key)"

definition header_of_json :: "json \<Rightarrow> http_header result" where
  "header_of_json hdr_pair =
     (case hdr_pair of
        JArray [JString k, JString v] \<Rightarrow>
          bindE (b64decode k) (\<lambda>k. bindE (b64decode v) (\<lambda>v. Inr (lower k, v)))
      | _ \<Rightarrow> Inl ValueError)"

definition request_of_json :: "json \<Rightarrow> http_request result" where
  "request_of_json j =
     (case j of
        JObject ms \<Rightarrow>
          (case (json_get ms ''headers'', json_get ms ''uri'', json_get ms ''body'', json_get ms ''method'',
                 json_get ms ''version'') of
             (Some (JArray hs), Some (JString uri), Some (JString body), Some (JString mthd), Some (JString version)) \<Rightarrow>
               bindE (mapE header_of_json hs) (\<lambda>headers.
               bindE (b64decode version) (\<lambda>version.
               let version = strip_http version in
               bindE (b64decode body) (\<lambda>body.
               bindE (b64decode mthd) (\<lambda>mthd.
               bindE (b64decode uri) (\<lambda>uri.
               Inr \<lparr>req_method = mthd, req_uri = uri, req_headers = headers, req_body = body,
                 req_version = version\<rparr>)))))
           | _ \<Rightarrow> Inl ValueError)
      | _ \<Rightarrow> Inl ValueError)"

definition parse_response_json :: "bytes \<Rightarrow> http_request result" where
  "parse_response_json response_body = bindE (json_loads response_body) request_of_json"

section \<open>HTTP/0.9\<close>

text \<open>\<open>data.find(sub)\<close>; \<open>None\<close> for \<open>-1\<close>.\<close>

fun bytes_find :: "bytes \<Rightarrow> bytes \<Rightarrow> nat option" where
  "bytes_find sub data =
     (if take (length sub) data = sub then Some 0
      else case data of [] \<Rightarrow> None | _ # data' \<Rightarrow> map_option Suc (bytes_find sub data'))"

declare bytes_find.simps [simp del]

definition strip_http_0_9_headers :: "bytes \<Rightarrow> bytes" where
  "strip_http_0_9_headers data =
     (let crlf_index = (case bytes_find [CR, LF, CR, LF] data of None \<Rightarrow> 0 | Some i \<Rightarrow> i + length [CR, LF, CR, LF])
      in drop crlf_index data)"

definition three_digits_re :: regex where
  "three_digits_re = Named ''1'' (Cat [Class is_digit, Class is_digit, Class is_digit])"

definition parse_http_0_9_response :: "bytes \<Rightarrow> http_response result" where
  "parse_http_0_9_response data =
     (if take 1 data \<noteq> ascii ''<'' then Inl ValueError
      else case re_search three_digits_re data of
        None \<Rightarrow> Inl ValueError
      | Some (_, m, _) \<Rightarrow>
          Inr \<lparr>res_version = ascii ''0.9'', res_code = the_group m ''1'', res_reason = [], res_headers = [],
            res_body = []\<rparr>)"

section \<open>A request as a server reports it\<close>

definition json_bytes :: "bytes \<Rightarrow> json" where
  "json_bytes b = JString (b64encode b)"

definition request_json :: "http_request \<Rightarrow> json" where
  "request_json r = JObject
     [(py_chars ''headers'', JArray (map (\<lambda>(k, v). JArray [json_bytes k, json_bytes v]) (req_headers r))),
      (py_chars ''body'', json_bytes (req_body r)),
      (py_chars ''version'', json_bytes (req_version r)),
      (py_chars ''uri'', json_bytes (req_uri r)),
      (py_chars ''method'', json_bytes (req_method r))]"

lemma keys_plain:
  "list_all plain_char (py_chars ''headers'')" "list_all plain_char (py_chars ''body'')"
  "list_all plain_char (py_chars ''version'')" "list_all plain_char (py_chars ''uri'')"
  "list_all plain_char (py_chars ''method'')"
  by code_simp+

lemma py_chars_eq [simp]: "py_chars s = py_chars t \<longleftrightarrow> s = t"
proof -
  have less: "of_char c < (2 :: nat) ^ 32" for c
    by (rule less_trans [OF nat_of_char_less_256]) simp
  have "inj (\<lambda>c :: char. of_nat (of_char c) :: codepoint)"
    by (rule injI) (simp add: word_of_nat_eq_iff take_bit_nat_eq_self [OF less])
  then show ?thesis
    unfolding py_chars_def by (rule inj_map_eq_map)
qed

lemma plain_items_all: "plain_items vs \<longleftrightarrow> list_all plain_json vs"
  by (induction vs) auto

lemma request_json_plain: "plain_json (request_json r)"
proof -
  have "list_all plain_json (map (\<lambda>(k, v). JArray [json_bytes k, json_bytes v]) hs)" for hs
    by (induction hs) (auto simp: json_bytes_def b64encode_plain)
  then show ?thesis
    by (simp add: request_json_def keys_plain json_bytes_def b64encode_plain plain_items_all)
qed

lemma json_loads_request: "json_loads (ascii_bytes (json_text (request_json r))) = Inr (request_json r)"
proof -
  have "py_chars ''headers'' \<noteq> []" by (simp add: py_chars_def)
  with request_json_plain [of r] show ?thesis
    unfolding request_json_def by (intro json_loads_text) (simp_all add: is_white_def)
qed

lemma header_of_json_bytes: "header_of_json (JArray [json_bytes k, json_bytes v]) = Inr (lower k, v)"
  by (simp add: header_of_json_def json_bytes_def)

lemma headers_of_json:
  "mapE header_of_json (map (\<lambda>(k, v). JArray [json_bytes k, json_bytes v]) hs) = Inr (map (\<lambda>(k, v). (lower k, v)) hs)"
  by (induction hs) (auto simp: header_of_json_bytes)

lemma request_of_request_json:
  "request_of_json (request_json r) =
     Inr (r\<lparr>req_headers := map (\<lambda>(k, v). (lower k, v)) (req_headers r), req_version := strip_http (req_version r)\<rparr>)"
  by (cases r) (simp add: request_of_json_def request_json_def json_get_def json_bytes_def
      headers_of_json [unfolded json_bytes_def])

lemma request_of_json_errors: "value_errors (request_of_json j)"
proof -
  have b64: "value_errors (b64decode s)" for s
    by (auto simp: value_errors_def b64decode_errors)
  have "value_errors (header_of_json h)" for h
    by (auto simp: header_of_json_def intro!: value_errors_bindE b64 split: json.split list.split)
  then have headers: "value_errors (mapE header_of_json hs)" for hs
    by (induction hs) (auto intro!: value_errors_bindE)
  show ?thesis
    by (auto simp: request_of_json_def Let_def intro!: value_errors_bindE b64 headers split: json.split option.split)
qed

lemma parse_response_json_errors: "value_errors (parse_response_json b)"
  unfolding parse_response_json_def by (intro value_errors_bindE json_loads_errors request_of_json_errors)

section \<open>Properties\<close>


end
