(* ===== verification/Sockets.thy ===== *)
theory Sockets
  imports Prelude
begin

text \<open>
  The socket functions of \<open>tools/util.py\<close>. What the network does is a script: the outcome of every
  \<open>send\<close> and \<open>recv\<close> to come, in order; when the script is used up, the peer has closed the
  connection. \<open>OSError\<close> stands for every error of a socket, all the classes the handlers name being
  its subclasses. The lemmas show which received bytes the callers get to see.
\<close>

datatype send_event = Sent | SendFailed

datatype recv_event = Received bytes | TimedOut | RecvFailed

record sock =
  outgoing :: "send_event list"
  incoming :: "recv_event list"

text \<open>\<open>sendall\<close>: whether it raises.\<close>

definition sendall :: "sock \<Rightarrow> unit result \<times> sock" where
  "sendall s =
     (case outgoing s of
        [] \<Rightarrow> (Inr (), s)
      | Sent # es \<Rightarrow> (Inr (), s\<lparr>outgoing := es\<rparr>)
      | SendFailed # es \<Rightarrow> (Inl OSError, s\<lparr>outgoing := es\<rparr>))"

text \<open>The loop of \<open>recvall\<close>, with the bytes so far.\<close>

fun recv_loop :: "bytes \<Rightarrow> recv_event list \<Rightarrow> bytes result \<times> recv_event list" where
  "recv_loop acc [] = (Inr acc, [])"
| "recv_loop acc (Received b # es) = (if length b = 0 then (Inr (acc @ b), es) else recv_loop (acc @ b) es)"
| "recv_loop acc (TimedOut # es) = (Inr acc, es)"
| "recv_loop acc (RecvFailed # es) = (Inl OSError, es)"

definition recvall :: "sock \<Rightarrow> bytes result \<times> sock" where
  "recvall s = (case recv_loop [] (incoming s) of (r, es) \<Rightarrow> (r, s\<lparr>incoming := es\<rparr>))"

text \<open>\<open>roundtrip\<close>: a failing call ends it with what it has.\<close>

fun roundtrip :: "sock \<Rightarrow> bytes list \<Rightarrow> bytes list \<times> sock" where
  "roundtrip s [] =
     (case recvall s of
        (Inr postamble, s1) \<Rightarrow> (if postamble \<noteq> [] then [postamble] else [], s1)
      | (Inl _, s1) \<Rightarrow> ([], s1))"
| "roundtrip s (datum # data) =
     (case sendall s of
        (Inl _, s1) \<Rightarrow> ([], s1)
      | (Inr _, s1) \<Rightarrow>
          (case recvall s1 of
             (Inl _, s2) \<Rightarrow> ([], s2)
           | (Inr b, s2) \<Rightarrow> (let (r, s3) = roundtrip s2 data in (b # r, s3))))"

section \<open>TLS\<close>

text \<open>\<open>ssl_wrap\<close>. Of an \<open>SSLContext\<close> the model has whether certificates are verified and the offered protocols; what
  \<open>wrap_socket\<close> of the library gives for a context, a socket and a name is an argument. A protocol is encoded as ASCII
  and has 1 to 255 bytes.\<close>

record ssl_context =
  verifies :: bool
  offered :: "string list"

definition unverified_context :: ssl_context where
  "unverified_context = \<lparr>verifies = False, offered = []\<rparr>"

fun check_protocols :: "string list \<Rightarrow> unit result" where
  "check_protocols [] = Inr ()"
| "check_protocols (p # ps) =
     (if list_ex (\<lambda>c. 0x80 \<le> (of_char c :: nat)) p then Inl ValueError
      else if length p = 0 \<or> 0xFF < length p then Inl OSError
      else check_protocols ps)"

definition set_alpn_protocols :: "string list \<Rightarrow> ssl_context \<Rightarrow> ssl_context result" where
  "set_alpn_protocols protocols ctx = bindE (check_protocols protocols) (\<lambda>_. Inr (ctx\<lparr>offered := protocols\<rparr>))"

definition ssl_wrap ::
  "(ssl_context \<Rightarrow> sock \<Rightarrow> bytes \<Rightarrow> sock result) \<Rightarrow> sock \<Rightarrow> bytes \<Rightarrow> string list option \<Rightarrow> sock result" where
  "ssl_wrap wrap_socket s host alpn_protocols =
     bindE (case alpn_protocols of None \<Rightarrow> Inr unverified_context | Some ps \<Rightarrow> set_alpn_protocols ps unverified_context)
       (\<lambda>ctx. wrap_socket ctx s host)"

lemma ssl_wrap_never_verifies:
  "(\<And>ctx s host. verifies ctx \<Longrightarrow> wrap1 ctx s host = Inl OSError) \<Longrightarrow>
   (\<And>ctx s host. \<not> verifies ctx \<Longrightarrow> wrap1 ctx s host = wrap2 ctx s host) \<Longrightarrow>
     ssl_wrap wrap1 s host alpn = ssl_wrap wrap2 s host alpn"
  by (cases alpn) (auto simp: ssl_wrap_def set_alpn_protocols_def unverified_context_def bindE_def split: sum.split)

section \<open>What arrives\<close>

fun arrived :: "recv_event list \<Rightarrow> bytes" where
  "arrived [] = []"
| "arrived (Received b # es) = b @ arrived es"
| "arrived (_ # es) = arrived es"

lemma arrived_append [simp]: "arrived (xs @ ys) = arrived xs @ arrived ys"
  by (induction xs rule: arrived.induct) simp_all

lemma recv_loop_used:
  "recv_loop acc es = (r, es') \<Longrightarrow>
    \<exists>used. es = used @ es' \<and> (r = Inl OSError \<and> RecvFailed \<in> set used \<or> r = Inr (acc @ arrived used) \<and> RecvFailed \<notin> set used)"
proof (induction acc es rule: recv_loop.induct)
  case (2 acc b es)
  show ?case
  proof (cases "length b = 0")
    case True
    with 2 show ?thesis by (intro exI [of _ "[Received b]"]) auto
  next
    case False
    with 2 obtain used where "es = used @ es'"
      "r = Inl OSError \<and> RecvFailed \<in> set used \<or> r = Inr ((acc @ b) @ arrived used) \<and> RecvFailed \<notin> set used"
      by auto
    then show ?thesis by (intro exI [of _ "Received b # used"]) auto
  qed
next
  case (3 acc es)
  then show ?case by (intro exI [of _ "[TimedOut]"]) auto
next
  case (4 acc es)
  then show ?case by (intro exI [of _ "[RecvFailed]"]) auto
qed simp

lemma recvall_used:
  assumes "recvall s = (r, s')"
  obtains used where "incoming s = used @ incoming s'" and "outgoing s' = outgoing s"
    and "r = Inl OSError \<and> RecvFailed \<in> set used \<or> r = Inr (arrived used) \<and> RecvFailed \<notin> set used"
proof -
  obtain r' es where l: "recv_loop [] (incoming s) = (r', es)" by fastforce
  with assms have "r = r'" "s' = s\<lparr>incoming := es\<rparr>" by (simp_all add: recvall_def)
  with recv_loop_used [OF l] that show ?thesis by auto
qed

lemma sendall_incoming: "sendall s = (r, s') \<Longrightarrow> incoming s' = incoming s"
  by (auto simp: sendall_def split: list.splits send_event.splits)

lemma roundtrip_used:
  "roundtrip s data = (pieces, s') \<Longrightarrow>
    \<exists>used. incoming s = used @ incoming s' \<and> (RecvFailed \<in> set used \<or> concat pieces = arrived used)"
proof (induction s data arbitrary: pieces s' rule: roundtrip.induct)
  case (1 s)
  obtain r s1 where r: "recvall s = (r, s1)" by fastforce
  then obtain used where "incoming s = used @ incoming s1"
    "r = Inl OSError \<and> RecvFailed \<in> set used \<or> r = Inr (arrived used) \<and> RecvFailed \<notin> set used"
    by (rule recvall_used)
  with 1 r show ?case by (cases r) (auto split: if_splits)
next
  case (2 s datum data)
  obtain r1 s1 where r1: "sendall s = (r1, s1)" by fastforce
  then have in1: "incoming s1 = incoming s" by (rule sendall_incoming)
  show ?case
  proof (cases r1)
    case (Inl e)
    with 2 r1 in1 show ?thesis by (intro exI [of _ "[]"]) auto
  next
    case (Inr u)
    obtain r2 s2 where r2: "recvall s1 = (r2, s2)" by fastforce
    then obtain used where used: "incoming s1 = used @ incoming s2"
      "r2 = Inl OSError \<and> RecvFailed \<in> set used \<or> r2 = Inr (arrived used) \<and> RecvFailed \<notin> set used"
      by (rule recvall_used)
    show ?thesis
    proof (cases r2)
      case (Inl e)
      with 2 r1 Inr r2 used in1 show ?thesis by auto
    next
      case (Inr b)
      obtain r s3 where r3: "roundtrip s2 data = (r, s3)" by fastforce
      with "2.IH" [OF r1 [symmetric] \<open>r1 = Inr u\<close> r2 [symmetric] Inr] obtain used' where
        used': "incoming s2 = used' @ incoming s3" "RecvFailed \<in> set used' \<or> concat r = arrived used'"
        by blast
      have "pieces = b # r" "s' = s3"
        using "2.prems" r1 \<open>r1 = Inr u\<close> r2 Inr r3 by simp_all
      with used used' Inr in1 show ?thesis by (intro exI [of _ "used @ used'"]) auto
    qed
  qed
qed

section \<open>Properties\<close>


end
