(* ===== verification/ServerConfig.thy ===== *)
theory ServerConfig
  imports Http1
begin

text \<open>
  \<open>tools/targets.py\<close>, the class \<open>Server\<close>: what is configured about a server or proxy, most of it the
  benign quirks that comparing two servers makes allowance for. The subclass is the field \<open>role\<close>.
  The Docker container handle and the timeout are for talking to the server only and are left out.
\<close>

datatype role = BaseServer | Origin | Transducer

record server =
  role :: role
  name :: string
  address :: bytes
  port :: nat
  requires_tls :: bool
  allows_http_0_9 :: bool
  allows_http_2 :: bool
  added_headers :: "bytes list"
  requires_length_in_post :: bool
  allows_missing_host_header :: bool
  header_name_translation :: "(bytes \<times> bytes) list"
  doesnt_support_version :: bool
  method_character_blacklist :: bytes
  method_whitelist :: "bytes list option"
  removed_headers :: "bytes list"
  trashed_headers :: "bytes list"
  doesnt_support_persistence :: bool
  requires_specific_host_header :: bool
  joins_duplicate_headers :: bool
  duplicate_header_joiner :: bytes

text \<open>A server with an empty entry in \<open>quirks.yml\<close>.\<close>

definition plain_server :: server where
  "plain_server = \<lparr>role = Origin, name = ''plain'', address = [], port = 80, requires_tls = False,
     allows_http_0_9 = False, allows_http_2 = False, added_headers = [], requires_length_in_post = False,
     allows_missing_host_header = False, header_name_translation = [], doesnt_support_version = False,
     method_character_blacklist = [], method_whitelist = None, removed_headers = [], trashed_headers = [],
     doesnt_support_persistence = False, requires_specific_host_header = False,
     joins_duplicate_headers = False, duplicate_header_joiner = []\<rparr>"

end
