(* ===== verification/Targets.thy ===== *)
theory Targets
  imports Http1Json Http2Frames Sockets ServerConfig
begin

text \<open>
  \<open>tools/targets.py\<close>: what an \<open>Origin\<close> and a \<open>Transducer\<close> do with the bytes they get back. Connecting is an
  argument of the round trips: the socket that \<open>server_connection\<close> gives, or the error it raises; what arrives on the
  socket is its script. Messages to stderr are left out. The loop of the transducer may not end, so it is a
  partial function and \<open>None\<close> is the loop that goes on for ever; the lemmas say exactly when that is.
\<close>

section \<open>Messages that were read\<close>

datatype parsed_message = ParsedRequest http_request | ParsedResponse http_response

section \<open>The host header\<close>

text \<open>\<open>re.sub\<close> for an expression that never matches the empty string and a replacement without backslashes.\<close>

function re_sub :: "regex \<Rightarrow> bytes \<Rightarrow> bytes \<Rightarrow> bytes" where
  "re_sub r new s =
     (case re_search r s of
        None \<Rightarrow> s
      | Some (i, cs, t) \<Rightarrow> if length t < length s then take i s @ new @ re_sub r new t else s)"
  by pat_completeness auto
termination
  by (relation "measure (\<lambda>(r, new, s). length s)") auto

declare re_sub.simps [simp del]

text \<open>A letter with \<open>re.IGNORECASE\<close>, and \<open>rb"host:[^\n]*\n"\<close>.\<close>

definition letter_nocase :: "char \<Rightarrow> regex" where
  "letter_nocase c = Class (\<lambda>b. lower [b] = lower [of_char c])"

definition host_line_re :: regex where
  "host_line_re = Cat (map letter_nocase ''host:'' @ [Many not_newline, byte_is LF])"

definition adjust_host_header :: "bytes list \<Rightarrow> bytes \<Rightarrow> bytes list" where
  "adjust_host_header data new_value =
     map (\<lambda>datum. re_sub host_line_re (ascii ''host: '' @ new_value @ [CR, LF]) datum) data"

section \<open>Origins\<close>

text \<open>The socket a round trip is made on, from what \<open>create_connection\<close> gives for an address and what TLS makes of it.
  The round trips below take it as an argument.\<close>

definition server_connection ::
  "(bytes \<times> nat \<Rightarrow> sock result) \<Rightarrow> (ssl_context \<Rightarrow> sock \<Rightarrow> bytes \<Rightarrow> sock result) \<Rightarrow> server \<Rightarrow> sock result" where
  "server_connection create_connection wrap_socket s =
     bindE (create_connection (address s, port s))
       (\<lambda>sock. if requires_tls s then ssl_wrap wrap_socket sock (address s) None else Inr sock)"

lemma server_connection_plain:
  "\<not> requires_tls s \<Longrightarrow> server_connection create_connection wrap_socket s = create_connection (address s, port s)"
  by (simp add: server_connection_def bindE_def split: sum.split)

text \<open>\<open>unparsed_roundtrip\<close> of an origin.\<close>

definition exchange :: "server \<Rightarrow> sock result \<Rightarrow> bytes list \<Rightarrow> bytes list result" where
  "exchange s connection data =
     (let data = (if requires_specific_host_header s then adjust_host_header data (address s) else data)
      in bindE connection (\<lambda>sock. Inr (fst (roundtrip sock data))))"

text \<open>\<open>raw_roundtrip\<close> of a transducer: the same, but for closing the socket by hand.\<close>

definition raw_roundtrip :: "server \<Rightarrow> sock result \<Rightarrow> bytes list \<Rightarrow> bytes list result" where
  "raw_roundtrip s connection data =
     (let data = (if requires_specific_host_header s then adjust_host_header data (address s) else data)
      in bindE connection (\<lambda>sock. let (result, sock) = roundtrip sock data in Inr result))"

lemma raw_roundtrip_exchange [simp]: "raw_roundtrip = exchange"
  by (simp add: raw_roundtrip_def exchange_def fun_eq_iff case_prod_unfold)

text \<open>The three attempts of one turn of the loop, each with what is left when it succeeds: an HTTP/1 response
  with a report in it or a rejection, an HTTP/2 connection, an HTTP/0.9 answer. A handler catches \<open>ValueError\<close>
  and, on HTTP/2, \<open>H2Error\<close>; other errors go through.\<close>

definition h1_attempt ::
  "(bytes \<Rightarrow> bytes result) \<Rightarrow> bytes \<Rightarrow> (parsed_message \<times> bytes) option result" where
  "h1_attempt gunzip remaining =
     (case bindE (parse_response gunzip remaining) (\<lambda>(response, new_remaining).
             if res_code response \<noteq> ascii ''200'' then Inr (ParsedResponse response, new_remaining)
             else bindE (parse_response_json (res_body response)) (\<lambda>r. Inr (ParsedRequest r, new_remaining))) of
        Inr x \<Rightarrow> Inr (Some x)
      | Inl e \<Rightarrow> if e = ValueError then Inr None else Inl e)"

definition h2_attempt :: "bytes \<Rightarrow> parsed_message option result" where
  "h2_attempt remaining =
     (case bindE (parse_generic_frames remaining) (\<lambda>fs.
             parse_response_json (concat (map payload (filter (\<lambda>f. ftyp f = 0) fs)))) of
        Inr r \<Rightarrow> Inr (Some (ParsedRequest r))
      | Inl e \<Rightarrow> if e = H2Error \<or> e = ValueError then Inr None else Inl e)"

text \<open>A turn of the loop: \<open>break\<close>, or the message extracted and the new \<open>remaining\<close>.\<close>

datatype turn = BreakLoop | Turn "parsed_message option" bytes

definition h0_attempt :: "bytes \<Rightarrow> turn result" where
  "h0_attempt remaining =
     (case parse_response_json (strip_http_0_9_headers remaining) of
        Inr r \<Rightarrow> Inr BreakLoop
      | Inl e \<Rightarrow>
          if e \<noteq> ValueError then Inl e
          else case parse_http_0_9_response (strip_http_0_9_headers remaining) of
            Inr r \<Rightarrow> Inr (Turn (Some (ParsedResponse r)) [])
          | Inl e \<Rightarrow> if e \<noteq> ValueError then Inl e else Inr (Turn None []))"

definition origin_turn :: "(bytes \<Rightarrow> bytes result) \<Rightarrow> server \<Rightarrow> bytes \<Rightarrow> turn result" where
  "origin_turn gunzip s remaining =
     bindE (h1_attempt gunzip remaining) (\<lambda>x.
     case x of
       Some (m, new_remaining) \<Rightarrow> Inr (Turn (Some m) new_remaining)
     | None \<Rightarrow>
         bindE (if allows_http_2 s then h2_attempt remaining else Inr None) (\<lambda>y.
         case y of
           Some m \<Rightarrow> Inr (Turn (Some m) [])
         | None \<Rightarrow> if allows_http_0_9 s then h0_attempt remaining else Inr (Turn None [])))"

lemma origin_turn_shorter:
  "origin_turn gunzip s remaining = Inr (Turn x new_remaining) \<Longrightarrow> remaining \<noteq> [] \<Longrightarrow>
    length new_remaining < length remaining"
  by (auto simp: origin_turn_def h1_attempt_def h0_attempt_def bindE_eq_Inr split: option.splits sum.splits if_splits
      dest: parse_response_shorter)

function origin_loop :: "(bytes \<Rightarrow> bytes result) \<Rightarrow> server \<Rightarrow> bytes \<Rightarrow> parsed_message list result" where
  "origin_loop gunzip s remaining =
     (if remaining = [] then Inr []
      else case origin_turn gunzip s remaining of
        Inl e \<Rightarrow> Inl e
      | Inr BreakLoop \<Rightarrow> Inr []
      | Inr (Turn extracted new_remaining) \<Rightarrow>
          bindE (origin_loop gunzip s new_remaining) (\<lambda>ms.
            Inr (case extracted of None \<Rightarrow> ms | Some m \<Rightarrow> m # ms)))"
  by pat_completeness auto
termination
  by (relation "measure (\<lambda>(g, s, r). length r)") (auto dest: origin_turn_shorter)

declare origin_loop.simps [simp del]

definition origin_parsed_roundtrip ::
  "(bytes \<Rightarrow> bytes result) \<Rightarrow> server \<Rightarrow> sock result \<Rightarrow> bytes list \<Rightarrow> parsed_message list result" where
  "origin_parsed_roundtrip gunzip s connection data =
     bindE (exchange s connection data) (\<lambda>pieces. origin_loop gunzip s (concat pieces))"

section \<open>Transducers\<close>

text \<open>The loop of \<open>unparsed_roundtrip\<close>. The variables \<open>response\<close> and \<open>new_remaining\<close> are set together, and keep
  their values when \<open>parse_response\<close> raises.\<close>

definition echoed_piece :: "http_response \<Rightarrow> bytes \<Rightarrow> bytes \<Rightarrow> bytes" where
  "echoed_piece response remaining new_remaining =
     (if res_code response = ascii ''200'' then res_body response
      else take (length remaining - length new_remaining) remaining)"

partial_function (option) transducer_loop ::
  "(bytes \<Rightarrow> bytes result) \<Rightarrow> bytes \<Rightarrow> (http_response \<times> bytes) option \<Rightarrow> bytes list \<Rightarrow> bytes list result option" where
  "transducer_loop gunzip remaining last_parsed pieces =
     (if remaining = [] then Some (Inr pieces)
      else case parse_response gunzip remaining of
        Inr (response, new_remaining) \<Rightarrow>
          transducer_loop gunzip new_remaining (Some (response, new_remaining))
            (pieces @ [echoed_piece response remaining new_remaining])
      | Inl e \<Rightarrow>
          if e \<noteq> ValueError then Some (Inl e)
          else case last_parsed of
            None \<Rightarrow> Some (Inr (pieces @ [strip_http_0_9_headers remaining]))
          | Some (response, new_remaining) \<Rightarrow>
              transducer_loop gunzip new_remaining (Some (response, new_remaining))
                (pieces @ [echoed_piece response remaining new_remaining]))"

definition transducer_unparsed_roundtrip ::
  "(bytes \<Rightarrow> bytes result) \<Rightarrow> server \<Rightarrow> sock result \<Rightarrow> bytes list \<Rightarrow> bytes list result option" where
  "transducer_unparsed_roundtrip gunzip s connection data =
     (case raw_roundtrip s connection data of
        Inl e \<Rightarrow> Some (Inl e)
      | Inr pieces \<Rightarrow> transducer_loop gunzip (concat pieces) None [])"

definition transducer_parsed_roundtrip ::
  "(bytes \<Rightarrow> bytes result) \<Rightarrow> server \<Rightarrow> sock result \<Rightarrow> bytes list \<Rightarrow> parsed_message list result option" where
  "transducer_parsed_roundtrip gunzip s connection data =
     map_option (\<lambda>r. bindE r (\<lambda>pieces.
         bindE (parse_request_stream gunzip (concat pieces)) (\<lambda>(result, leftovers). Inr (map ParsedRequest result))))
       (transducer_unparsed_roundtrip gunzip s connection data)"

section \<open>When the loop ends\<close>

text \<open>What is left after some responses in a row.\<close>

inductive after_responses :: "(bytes \<Rightarrow> bytes result) \<Rightarrow> bytes \<Rightarrow> bytes \<Rightarrow> bool" for gunzip where
  after_refl: "after_responses gunzip s s"
| after_step: "parse_response gunzip s = Inr (r, t) \<Longrightarrow> after_responses gunzip t u \<Longrightarrow> after_responses gunzip s u"

inductive_cases after_responsesE: "after_responses gunzip s u"

text \<open>The loop is stuck: what remains is no response, and is what was left after the last one.\<close>

lemma transducer_stuck_no_value:
  assumes "transducer_loop gunzip remaining last_parsed pieces = Some y"
  shows "\<not> (remaining = rest \<and> last_parsed = Some (response, rest) \<and> parse_response gunzip rest = Inl ValueError \<and> rest \<noteq> [])"
  using assms
proof (rule transducer_loop.raw_induct [rotated])
  fix loop gunzip remaining last_parsed pieces and y :: "bytes list result"
  assume IH: "\<And>gunzip remaining last_parsed pieces y. loop gunzip remaining last_parsed pieces = Some y \<Longrightarrow>
      \<not> (remaining = rest \<and> last_parsed = Some (response, rest) \<and> parse_response gunzip rest = Inl ValueError \<and> rest \<noteq> [])"
    and body: "(if remaining = [] then Some (Inr pieces)
      else case parse_response gunzip remaining of
        Inl e \<Rightarrow>
          if e \<noteq> ValueError then Some (Inl e)
          else case last_parsed of
            None \<Rightarrow> Some (Inr (pieces @ [strip_http_0_9_headers remaining]))
          | Some (response, new_remaining) \<Rightarrow>
              loop gunzip new_remaining (Some (response, new_remaining))
                (pieces @ [echoed_piece response remaining new_remaining])
      | Inr (response, new_remaining) \<Rightarrow>
          loop gunzip new_remaining (Some (response, new_remaining))
            (pieces @ [echoed_piece response remaining new_remaining])) = Some y"
  show "\<not> (remaining = rest \<and> last_parsed = Some (response, rest) \<and> parse_response gunzip rest = Inl ValueError \<and> rest \<noteq> [])"
  proof
    assume stuck: "remaining = rest \<and> last_parsed = Some (response, rest) \<and>
      parse_response gunzip rest = Inl ValueError \<and> rest \<noteq> []"
    with body have "loop gunzip rest (Some (response, rest)) (pieces @ [echoed_piece response rest rest]) = Some y"
      by simp
    from IH [OF this] stuck show False by simp
  qed
qed

lemma transducer_stuck:
  assumes "parse_response gunzip rest = Inl ValueError" and "rest \<noteq> []"
  shows "transducer_loop gunzip rest (Some (response, rest)) pieces = None"
proof (cases "transducer_loop gunzip rest (Some (response, rest)) pieces")
  case (Some y)
  from transducer_stuck_no_value [OF this] assms show ?thesis by blast
qed simp

lemma transducer_diverges:
  "after_responses gunzip s rest \<Longrightarrow> parse_response gunzip rest = Inl ValueError \<Longrightarrow> rest \<noteq> [] \<Longrightarrow>
    transducer_loop gunzip s (Some (response, s)) pieces = None"
proof (induction arbitrary: response pieces rule: after_responses.induct)
  case (after_refl s)
  then show ?case by (simp add: transducer_stuck)
next
  case (after_step s r t u)
  then have "s \<noteq> []" using parse_response_shorter by fastforce
  with after_step show ?case by (subst transducer_loop.simps) simp
qed

lemma transducer_ends:
  assumes "\<And>rest. after_responses gunzip s rest \<Longrightarrow> rest \<noteq> [] \<Longrightarrow> parse_response gunzip rest \<noteq> Inl ValueError"
  shows "transducer_loop gunzip s last_parsed pieces \<noteq> None"
  using assms
proof (induction s arbitrary: last_parsed pieces rule: measure_induct_rule [of length])
  case (less s)
  show ?case
  proof (cases "s = []")
    case True
    then show ?thesis by (simp add: transducer_loop.simps)
  next
    case False
    show ?thesis
    proof (cases "parse_response gunzip s")
      case (Inl e)
      with less.prems [OF after_refl False] False show ?thesis
        by (subst transducer_loop.simps) auto
    next
      case (Inr x)
      obtain r t where x: "x = (r, t)" by (cases x)
      have "transducer_loop gunzip t (Some (r, t)) p \<noteq> None" for p
      proof (rule less.IH)
        show "length t < length s" using Inr x parse_response_shorter by blast
        show "parse_response gunzip rest \<noteq> Inl ValueError" if "after_responses gunzip t rest" "rest \<noteq> []" for rest
          using less.prems [OF after_step] Inr x that by blast
      qed
      with Inr x False show ?thesis by (subst transducer_loop.simps) simp
    qed
  qed
qed

lemma transducer_loop_None_iff:
  "transducer_loop gunzip s None [] = None \<longleftrightarrow>
    (\<exists>r t rest. parse_response gunzip s = Inr (r, t) \<and> after_responses gunzip t rest \<and> rest \<noteq> [] \<and>
      parse_response gunzip rest = Inl ValueError)"
proof (cases "parse_response gunzip s")
  case (Inl e)
  then have "transducer_loop gunzip s None [] \<noteq> None"
    by (subst transducer_loop.simps) simp
  with Inl show ?thesis by simp
next
  case (Inr x)
  obtain r t where x: "x = (r, t)" by (cases x)
  with Inr have "s \<noteq> []" using parse_response_shorter by fastforce
  with Inr x have eq: "transducer_loop gunzip s None [] = transducer_loop gunzip t (Some (r, t)) [echoed_piece r s t]"
    by (subst transducer_loop.simps) simp
  show ?thesis
  proof
    assume "transducer_loop gunzip s None [] = None"
    with transducer_ends [of gunzip t "Some (r, t)" "[echoed_piece r s t]"] obtain rest where
      "after_responses gunzip t rest" "rest \<noteq> []" "parse_response gunzip rest = Inl ValueError"
      unfolding eq by blast
    with Inr x show "\<exists>r t rest. parse_response gunzip s = Inr (r, t) \<and> after_responses gunzip t rest \<and> rest \<noteq> [] \<and>
        parse_response gunzip rest = Inl ValueError" by blast
  next
    assume "\<exists>r t rest. parse_response gunzip s = Inr (r, t) \<and> after_responses gunzip t rest \<and> rest \<noteq> [] \<and>
        parse_response gunzip rest = Inl ValueError"
    with Inr x obtain rest where "after_responses gunzip t rest" "rest \<noteq> []" "parse_response gunzip rest = Inl ValueError"
      by auto
    then show "transducer_loop gunzip s None [] = None"
      unfolding eq by (intro transducer_diverges)
  qed
qed

section \<open>Streams of well-formed responses\<close>

text \<open>A rendered response that says where its body ends.\<close>

definition delimited :: "http_response \<Rightarrow> wire_body \<Rightarrow> bool" where
  "delimited r w \<longleftrightarrow> response_ok r \<and> list_all header_ok (res_headers r) \<and> framed (res_headers r) w \<and>
     res_body r = wire_data w \<and>
     (case body_headers (res_headers r) None [] [] of
        Inl e \<Rightarrow> False
      | Inr (cl, te, ce) \<Rightarrow> \<not> (cl = None \<and> ascii ''chunked'' \<notin> set te))"

definition render_reply :: "http_response \<times> wire_body \<Rightarrow> bytes" where
  "render_reply p = render_response (fst p) @ render_body (snd p)"

lemma parse_reply:
  assumes "delimited r w"
  shows "parse_response gunzip (render_reply (r, w) @ rest) = Inr (r, rest)"
proof (cases "body_headers (res_headers r) None [] []")
  case (Inl e)
  with assms show ?thesis by (simp add: delimited_def)
next
  case (Inr x)
  obtain cl te ce where x: "x = (cl, te, ce)" by (cases x)
  with assms Inr have "\<not> (cl = None \<and> ascii ''chunked'' \<notin> set te)"
    by (auto simp: delimited_def)
  with parse_rendered_response [of r cl te ce w gunzip rest] assms Inr x show ?thesis
    by (auto simp: delimited_def render_reply_def)
qed

lemma render_reply_nonempty [simp]: "render_reply p \<noteq> []"
  by (simp add: render_reply_def render_response_def)

text \<open>What the echo server sent through the proxy, piece by piece.\<close>

lemma transducer_loop_replies:
  "\<forall>(r, w) \<in> set rws. delimited r w \<Longrightarrow>
    transducer_loop gunzip (concat (map render_reply rws)) last_parsed pieces =
      Some (Inr (pieces @ map (\<lambda>p. if res_code (fst p) = ascii ''200'' then res_body (fst p) else render_reply p) rws))"
proof (induction rws arbitrary: last_parsed pieces)
  case Nil
  then show ?case by (simp add: transducer_loop.simps)
next
  case (Cons p rws)
  obtain r w where p: "p = (r, w)" by (cases p)
  let ?rest = "concat (map render_reply rws)"
  have "parse_response gunzip (render_reply p @ ?rest) = Inr (r, ?rest)"
    using Cons.prems p parse_reply by auto
  with Cons p show ?case
    by (subst transducer_loop.simps) (simp add: echoed_piece_def)
qed

lemma forwarded_requests:
  assumes "exchange s connection data = Inr pieces" and "concat pieces = concat (map render_reply rws)"
    and "\<forall>(r, w) \<in> set rws. delimited r w \<and> res_code r = ascii ''200''"
    and "concat (map (\<lambda>p. res_body (fst p)) rws) = concat (map (\<lambda>(r, w). render_request r w) qws)"
    and "\<forall>(r, w) \<in> set qws. request_ok r w"
  shows "transducer_parsed_roundtrip gunzip s connection data = Some (Inr (map (\<lambda>p. ParsedRequest (fst p)) qws))"
proof -
  have "\<forall>(r, w) \<in> set rws. delimited r w"
    using assms(3) by auto
  moreover have "map (\<lambda>p. if res_code (fst p) = ascii ''200'' then res_body (fst p) else render_reply p) rws =
      map (\<lambda>p. res_body (fst p)) rws"
    using assms(3) by auto
  ultimately have "transducer_unparsed_roundtrip gunzip s connection data = Some (Inr (map (\<lambda>p. res_body (fst p)) rws))"
    using transducer_loop_replies [of rws gunzip None "[]"] assms(1,2)
    by (simp add: transducer_unparsed_roundtrip_def)
  moreover have "parse_request_stream gunzip (concat (map (\<lambda>(r, w). render_request r w) qws)) = Inr (map fst qws, [])"
    using parse_rendered_stream [OF assms(5), of gunzip "[]" "[]" "[]"]
    by (simp add: parse_request_stream.simps [of _ "[]"])
  ultimately show ?thesis
    using assms(4) by (simp add: transducer_parsed_roundtrip_def)
qed

text \<open>The message an origin's answer stands for.\<close>

definition reported :: "http_response \<Rightarrow> http_request \<Rightarrow> parsed_message" where
  "reported r q =
     (if res_code r = ascii ''200''
      then ParsedRequest (q\<lparr>req_headers := map (\<lambda>(k, v). (lower k, v)) (req_headers q),
             req_version := strip_http (req_version q)\<rparr>)
      else ParsedResponse r)"

text \<open>A rejection, or a response with a request in JSON.\<close>

definition origin_answer :: "http_response \<Rightarrow> wire_body \<Rightarrow> http_request \<Rightarrow> bool" where
  "origin_answer r w q \<longleftrightarrow> delimited r w \<and>
     (res_code r \<noteq> ascii ''200'' \<or> res_body r = ascii_bytes (json_text (request_json q)))"

lemma h1_attempt_answer:
  assumes "origin_answer r w q"
  shows "h1_attempt gunzip (render_reply (r, w) @ rest) = Inr (Some (reported r q, rest))"
proof -
  have "delimited r w"
    using assms by (simp add: origin_answer_def)
  with assms parse_reply [OF this, of gunzip rest] show ?thesis
    by (auto simp: h1_attempt_def reported_def origin_answer_def parse_response_json_def json_loads_request
        request_of_request_json)
qed

lemma origin_loop_answers:
  "\<forall>(r, w, q) \<in> set xs. origin_answer r w q \<Longrightarrow>
    origin_loop gunzip s (concat (map (\<lambda>(r, w, q). render_reply (r, w)) xs)) = Inr (map (\<lambda>(r, w, q). reported r q) xs)"
proof (induction xs)
  case Nil
  then show ?case by (simp add: origin_loop.simps)
next
  case (Cons x xs)
  obtain r w q where x: "x = (r, w, q)" by (cases x)
  with Cons h1_attempt_answer [of r w q gunzip "concat (map (\<lambda>(r, w, q). render_reply (r, w)) xs)"] show ?case
    by (subst origin_loop.simps) (simp add: origin_turn_def)
qed

section \<open>The host header is found anywhere\<close>

text \<open>The expression is not anchored to the start of a line.\<close>

lemma adjust_host_header_not_anchored:
  "adjust_host_header [ascii ''X-Forwarded-Host: a'' @ [CR, LF] @ ascii ''Host: b'' @ [CR, LF]] (ascii ''c'') =
     [ascii ''X-Forwarded-host: c'' @ [CR, LF] @ ascii ''host: c'' @ [CR, LF]]"
  by code_simp

section \<open>Properties\<close>

text \<open>C15: when the loop over a transducer's answers ends. It goes on for ever exactly when, after one or more
  responses, something is left that is no response: \<open>parse_response\<close> raises, the values of the last turn are
  used again, and nothing is consumed. It ends on everything else, bytes that begin with no response
  included.\<close>

theorem transducer_loop_ends_iff:
  "transducer_loop gunzip data None [] = None \<longleftrightarrow>
    (\<exists>r t rest. parse_response gunzip data = Inr (r, t) \<and> after_responses gunzip t rest \<and> rest \<noteq> [] \<and>
      parse_response gunzip rest = Inl ValueError)"
  by (rule transducer_loop_None_iff)

text \<open>A transducer is seen through. When the connection gives the responses of an echo server, in whatever
  framing, and the bodies it echoed are, put together, rendered requests, then \<open>parsed_roundtrip\<close> ends and
  returns these requests, wherever the responses cut the stream of requests.\<close>

theorem transducer_sees_the_forwarded_requests:
  assumes "exchange s connection data = Inr pieces" and "concat pieces = concat (map render_reply rws)"
    and "\<forall>(r, w) \<in> set rws. delimited r w \<and> res_code r = ascii ''200''"
    and "concat (map (\<lambda>p. res_body (fst p)) rws) = concat (map (\<lambda>(r, w). render_request r w) qws)"
    and "\<forall>(r, w) \<in> set qws. request_ok r w"
  shows "transducer_parsed_roundtrip gunzip s connection data = Some (Inr (map (\<lambda>p. ParsedRequest (fst p)) qws))"
  using assms by (rule forwarded_requests)

definition example_reply :: "http_response \<times> wire_body" where
  "example_reply =
     (let b = render_request example_request example_body
      in (\<lparr>res_version = ascii ''1.1'', res_code = ascii ''200'', res_reason = ascii ''OK'',
            res_headers = [(ascii ''Content-Length'', ascii ''68'')], res_body = b\<rparr>, Sized b))"

theorem transducer_sees_the_forwarded_requests_witness:
  "transducer_parsed_roundtrip (\<lambda>_. Inl OSError) plain_server
     (Inr \<lparr>outgoing = [], incoming = [Received (render_reply example_reply)]\<rparr>) [ascii ''x''] =
   Some (Inr [ParsedRequest example_request])"
proof -
  have "delimited (fst example_reply) (snd example_reply)"
    by code_simp
  moreover have "exchange plain_server (Inr \<lparr>outgoing = [], incoming = [Received (render_reply example_reply)]\<rparr>) [ascii ''x''] =
      Inr [render_reply example_reply]"
    by (simp add: exchange_def plain_server_def sendall_def recvall_def)
  moreover have "res_code (fst example_reply) = ascii ''200''"
    "res_body (fst example_reply) = render_request example_request example_body"
    by (simp_all add: example_reply_def Let_def)
  ultimately show ?thesis
    using transducer_sees_the_forwarded_requests [of plain_server
        "Inr \<lparr>outgoing = [], incoming = [Received (render_reply example_reply)]\<rparr>" "[ascii ''x'']"
        "[render_reply example_reply]" "[example_reply]" "[(example_request, example_body)]" "\<lambda>_. Inl OSError"]
      example_ok
    by (simp add: case_prod_beta)
qed

text \<open>C16: an origin's reports are read. When the connection gives rejections and responses with requests in
  JSON, in any order and framing, \<open>parsed_roundtrip\<close> returns the rejections and the requests in that order.\<close>

theorem origin_reports_are_read:
  assumes "exchange s connection data = Inr pieces"
    and "concat pieces = concat (map (\<lambda>(r, w, q). render_reply (r, w)) xs)"
    and "\<forall>(r, w, q) \<in> set xs. origin_answer r w q"
  shows "origin_parsed_roundtrip gunzip s connection data = Inr (map (\<lambda>(r, w, q). reported r q) xs)"
  using origin_loop_answers [OF assms(3), of gunzip s] assms(1,2) by (simp add: origin_parsed_roundtrip_def)

definition example_report :: "http_response \<times> wire_body" where
  "example_report =
     (let b = ascii_bytes (json_text (request_json example_request))
      in (\<lparr>res_version = ascii ''1.1'', res_code = ascii ''200'', res_reason = ascii ''OK'',
            res_headers = [(ascii ''Content-Length'', ascii ''131'')], res_body = b\<rparr>, Sized b))"

theorem origin_reports_are_read_witness:
  "origin_parsed_roundtrip (\<lambda>_. Inl OSError) plain_server
     (Inr \<lparr>outgoing = [], incoming = [Received (render_reply example_report)]\<rparr>) [ascii ''x''] =
   Inr [reported (fst example_report) example_request]"
proof -
  have "delimited (fst example_report) (snd example_report)"
    by code_simp
  then have "origin_answer (fst example_report) (snd example_report) example_request"
    by (simp add: origin_answer_def example_report_def Let_def)
  moreover have "exchange plain_server (Inr \<lparr>outgoing = [], incoming = [Received (render_reply example_report)]\<rparr>) [ascii ''x''] =
      Inr [render_reply example_report]"
    by (simp add: exchange_def plain_server_def sendall_def recvall_def)
  ultimately show ?thesis
    using origin_reports_are_read [of plain_server
        "Inr \<lparr>outgoing = [], incoming = [Received (render_reply example_report)]\<rparr>" "[ascii ''x'']"
        "[render_reply example_report]" "[(fst example_report, snd example_report, example_request)]" "\<lambda>_. Inl OSError"]
    by simp
qed

text \<open>A report in an HTTP/0.9 answer is read and thrown away. The attempt that parses the JSON after the
  headers leaves the loop before the request is appended, so an origin that answers without a status line
  seems not to have answered.\<close>

theorem http_0_9_report_is_dropped:
  assumes "allows_http_0_9 s" and "h1_attempt gunzip data = Inr None"
    and "allows_http_2 s \<longrightarrow> h2_attempt data = Inr None"
    and "parse_response_json (strip_http_0_9_headers data) = Inr r"
  shows "origin_loop gunzip s data = Inr []"
  using assms by (subst origin_loop.simps) (simp add: origin_turn_def h0_attempt_def)

theorem http_0_9_report_is_dropped_witness:
  "origin_loop (\<lambda>_. Inl OSError) (plain_server\<lparr>allows_http_0_9 := True\<rparr>)
     (ascii_bytes (json_text (request_json example_request))) = Inr []"
proof (rule http_0_9_report_is_dropped)
  let ?d = "ascii_bytes (json_text (request_json example_request))"
  show "h1_attempt (\<lambda>_. Inl OSError) ?d = Inr None"
    by code_simp
  have "strip_http_0_9_headers ?d = ?d"
    by code_simp
  then show "parse_response_json (strip_http_0_9_headers ?d) =
      Inr (example_request\<lparr>req_headers := map (\<lambda>(k, v). (lower k, v)) (req_headers example_request),
        req_version := strip_http (req_version example_request)\<rparr>)"
    by (simp add: parse_response_json_def json_loads_request request_of_request_json)
qed (simp_all add: plain_server_def)

end
