(* ===== verification/Diff.thy ===== *)
theory Diff
  imports ServerConfig
begin

text \<open>
  \<open>tools/diff.py\<close>: how what two servers made of the same bytes is compared. A request is an object
  that the comparison may change: \<open>normalize_request\<close> ends with \<open>r1.headers.sort()\<close>, which sorts
  the headers of its argument itself when none of the steps before made a copy. So requests live in
  a store, a message is a response or the address of a request, and every function returns the
  store. The lemmas say when the category does not depend on the order of the arguments, when a
  stream agrees with itself, and what the sorting in place can and cannot change.
\<close>

section \<open>Messages\<close>

type_synonym store = "nat \<Rightarrow> http_request"

datatype message = Request nat | Response http_response

text \<open>\<open>isinstance(r, HTTPRequest) and P(r)\<close> and \<open>isinstance(r, HTTPResponse) and P(r)\<close>; the entry \<open>None\<close>
  is what \<open>zip_longest\<close> puts for a message that is not there.\<close>

fun request_and :: "store \<Rightarrow> message option \<Rightarrow> (http_request \<Rightarrow> bool) \<Rightarrow> bool" where
  "request_and h (Some (Request a)) P = P (h a)"
| "request_and h _ P = False"

fun response_and :: "message option \<Rightarrow> (http_response \<Rightarrow> bool) \<Rightarrow> bool" where
  "response_and (Some (Response r)) P = P r"
| "response_and _ P = False"

fun is_request :: "message option \<Rightarrow> bool" where
  "is_request (Some (Request a)) = True"
| "is_request _ = False"

fun is_response :: "message option \<Rightarrow> bool" where
  "is_response (Some (Response r)) = True"
| "is_response _ = False"

fun zip_longest :: "'a list \<Rightarrow> 'b list \<Rightarrow> ('a option \<times> 'b option) list" where
  "zip_longest [] [] = []"
| "zip_longest (x # xs) [] = (Some x, None) # zip_longest xs []"
| "zip_longest [] (y # ys) = (None, Some y) # zip_longest [] ys"
| "zip_longest (x # xs) (y # ys) = (Some x, Some y) # zip_longest xs ys"

section \<open>Normalizing a request\<close>

text \<open>The request on the way through \<open>normalize_request\<close>, with whether it is a copy.\<close>

definition remove_all :: "bytes list \<Rightarrow> http_request \<times> bool \<Rightarrow> http_request \<times> bool" where
  "remove_all ks r = foldl (\<lambda>r k. (remove_request_header (fst r) k, True)) r ks"

definition normalize_request :: "store \<Rightarrow> nat \<Rightarrow> server \<Rightarrow> server \<Rightarrow> store \<times> http_request" where
  "normalize_request h a s1 s2 =
     (let r1 = (h a, False);
          r1 = (if joins_duplicate_headers s2
                then (join_duplicate_headers (fst r1) (duplicate_header_joiner s2), True) else r1);
          r1 = remove_all (added_headers s1) r1;
          r1 = remove_all (map (\<lambda>k. translate k (header_name_translation s1)) (added_headers s2)) r1;
          r1 = remove_all (map (\<lambda>k. translate k (header_name_translation s1)) (removed_headers s2 @ trashed_headers s2) @
                 trashed_headers s1 @ removed_headers s1) r1;
          r1 = (if 0 < length (header_name_translation s2)
                then (translate_request_header_names (fst r1) (header_name_translation s2), True) else r1);
          r = (fst r1)\<lparr>req_headers := sort (req_headers (fst r1))\<rparr>
      in (if snd r1 then h else h(a := r), r))"

section \<open>Categories\<close>

datatype ErrorType =
    OK
  | TYPE_DISCREPANCY
  | RESPONSE_DISCREPANCY
  | REQUEST_DISCREPANCY
  | STREAM_DISCREPANCY
  | INVALID
  | DISCREPANCY

text \<open>The differences that are allowed for, when one server accepted and the other did not.\<close>

definition http_0_9_excuse :: "store \<Rightarrow> server \<Rightarrow> server \<Rightarrow> message option \<Rightarrow> message option \<Rightarrow> bool" where
  "http_0_9_excuse h s1 s2 r1 r2 \<longleftrightarrow>
     request_and h r1 (\<lambda>r. req_version r = ascii ''0.9'') \<and> is_response r2 \<and> \<not> allows_http_0_9 s2 \<or>
     request_and h r2 (\<lambda>r. req_version r = ascii ''0.9'') \<and> is_response r1 \<and> \<not> allows_http_0_9 s2"

definition length_excuse :: "store \<Rightarrow> server \<Rightarrow> server \<Rightarrow> message option \<Rightarrow> message option \<Rightarrow> bool" where
  "length_excuse h s1 s2 r1 r2 \<longleftrightarrow>
     response_and r1 (\<lambda>r. res_code r = ascii ''411'') \<and> requires_length_in_post s1 \<and>
       request_and h r2 (\<lambda>r. req_method r = ascii ''POST'') \<and> \<not> requires_length_in_post s2 \<or>
     response_and r2 (\<lambda>r. res_code r = ascii ''411'') \<and> requires_length_in_post s2 \<and>
       request_and h r1 (\<lambda>r. req_method r = ascii ''POST'') \<and> \<not> requires_length_in_post s1"

definition host_excuse :: "store \<Rightarrow> server \<Rightarrow> server \<Rightarrow> message option \<Rightarrow> message option \<Rightarrow> bool" where
  "host_excuse h s1 s2 r1 r2 \<longleftrightarrow>
     (r1 = None \<or> response_and r1 (\<lambda>r. res_code r = ascii ''400'')) \<and> \<not> allows_missing_host_header s1 \<and>
       is_request r2 \<and> allows_missing_host_header s2 \<and> request_and h r2 (\<lambda>r. \<not> has_header r (ascii ''host'') None) \<or>
     (r2 = None \<or> response_and r2 (\<lambda>r. res_code r = ascii ''400'')) \<and> \<not> allows_missing_host_header s2 \<and>
       is_request r1 \<and> allows_missing_host_header s1 \<and> request_and h r1 (\<lambda>r. \<not> has_header r (ascii ''host'') None)"

definition whitelist_excuse :: "store \<Rightarrow> server \<Rightarrow> server \<Rightarrow> message option \<Rightarrow> message option \<Rightarrow> bool" where
  "whitelist_excuse h s1 s2 r1 r2 \<longleftrightarrow>
     method_whitelist s1 \<noteq> None \<and> is_response r1 \<and>
       request_and h r2 (\<lambda>r. req_method r \<notin> set (the (method_whitelist s1))) \<or>
     method_whitelist s2 \<noteq> None \<and> is_response r2 \<and>
       request_and h r1 (\<lambda>r. req_method r \<notin> set (the (method_whitelist s2)))"

definition blacklist_excuse :: "store \<Rightarrow> server \<Rightarrow> server \<Rightarrow> message option \<Rightarrow> message option \<Rightarrow> bool" where
  "blacklist_excuse h s1 s2 r1 r2 \<longleftrightarrow>
     is_response r1 \<and> request_and h r2 (\<lambda>r. list_ex (\<lambda>b. b \<in> set (method_character_blacklist s1)) (req_method r)) \<or>
     is_response r2 \<and> request_and h r1 (\<lambda>r. list_ex (\<lambda>b. b \<in> set (method_character_blacklist s2)) (req_method r))"

text \<open>One round of the loop: \<open>break\<close>, \<open>return\<close>, or on to the next pair.\<close>

datatype verdict = Break | Return ErrorType | Continue

definition compare_requests ::
  "store \<Rightarrow> server \<Rightarrow> server \<Rightarrow> message option \<Rightarrow> message option \<Rightarrow> verdict \<times> store" where
  "compare_requests h s1 s2 r1 r2 =
     (case (r1, r2) of
        (Some (Request a), Some (Request b)) \<Rightarrow>
          (let (h1, new_r1) = normalize_request h a s1 s2;
               (h2, new_r2) = normalize_request h1 b s2 s1
           in (if \<not> req_eq new_r1 new_r2 then Return REQUEST_DISCREPANCY else Continue, h2))
      | _ \<Rightarrow> (Continue, h))"

definition categorize_pair ::
  "store \<Rightarrow> server \<Rightarrow> server \<Rightarrow> message option \<Rightarrow> message option \<Rightarrow> verdict \<times> store" where
  "categorize_pair h s1 s2 r1 r2 =
     (if request_and h r1 (\<lambda>r. \<not> is_valid r) \<or> request_and h r2 (\<lambda>r. \<not> is_valid r)
      then (Return INVALID, h)
      else if r1 = None \<and> response_and r2 (\<lambda>r. res_code r \<noteq> ascii ''200'') \<or>
              r2 = None \<and> response_and r1 (\<lambda>r. res_code r \<noteq> ascii ''200'')
      then (Break, h)
      else if (r1 = None \<or> r2 = None) \<and> r1 \<noteq> r2
      then (Return STREAM_DISCREPANCY, h)
      else if is_request r1 \<and> \<not> is_request r2 \<or> \<not> is_request r1 \<and> is_request r2
      then if http_0_9_excuse h s1 s2 r1 r2 then (Break, h)
           else if length_excuse h s1 s2 r1 r2 then (Break, h)
           else if host_excuse h s1 s2 r1 r2 then (Break, h)
           else if whitelist_excuse h s1 s2 r1 r2 then (Break, h)
           else if blacklist_excuse h s1 s2 r1 r2 then (Break, h)
           else (Return TYPE_DISCREPANCY, h)
      else if response_and r1 (\<lambda>p. response_and r2 (\<lambda>q. \<not> res_eq p q))
      then (Return RESPONSE_DISCREPANCY, h)
      else compare_requests h s1 s2 r1 r2)"

fun categorize_pairs ::
  "store \<Rightarrow> server \<Rightarrow> server \<Rightarrow> (message option \<times> message option) list \<Rightarrow> ErrorType \<times> store" where
  "categorize_pairs h s1 s2 [] = (OK, h)"
| "categorize_pairs h s1 s2 ((r1, r2) # ps) =
     (case categorize_pair h s1 s2 r1 r2 of
        (Return e, h') \<Rightarrow> (e, h')
      | (Break, h') \<Rightarrow> (OK, h')
      | (Continue, h') \<Rightarrow> categorize_pairs h' s1 s2 ps)"

definition categorize_discrepancy ::
  "store \<Rightarrow> message list \<Rightarrow> message list \<Rightarrow> server \<Rightarrow> server \<Rightarrow> ErrorType \<times> store" where
  "categorize_discrepancy h pts1 pts2 s1 s2 =
     (let single = doesnt_support_persistence s1 \<or> doesnt_support_persistence s2;
          pts1 = (if single then take 1 pts1 else pts1);
          pts2 = (if single then take 1 pts2 else pts2)
      in categorize_pairs h s1 s2 (zip_longest pts1 pts2))"

section \<open>What normalizing does\<close>

definition sort_headers :: "http_request \<Rightarrow> http_request" where
  "sort_headers r = r\<lparr>req_headers := sort (req_headers r)\<rparr>"

definition drop_headers :: "bytes list \<Rightarrow> http_request \<Rightarrow> http_request" where
  "drop_headers ks r = r\<lparr>req_headers := filter (\<lambda>h. lower (fst h) \<notin> lower ` set ks) (req_headers r)\<rparr>"

lemma drop_headers_simps [simp]:
  "drop_headers [] r = r"
  "drop_headers ks (remove_request_header r k) = drop_headers (k # ks) r"
  "drop_headers ls (drop_headers ks r) = drop_headers (ks @ ls) r"
  by (cases r; auto simp: drop_headers_def remove_request_header_def intro!: filter_cong)+

lemma remove_all_eq: "remove_all ks (r, c) = (drop_headers ks r, c \<or> ks \<noteq> [])"
  by (induction ks arbitrary: r c) (simp_all add: remove_all_def)

text \<open>The headers that do not count between two servers, and the request without them.\<close>

definition ignored_headers :: "server \<Rightarrow> server \<Rightarrow> bytes list" where
  "ignored_headers s1 s2 = added_headers s1 @
     map (\<lambda>k. translate k (header_name_translation s1)) (added_headers s2 @ removed_headers s2 @ trashed_headers s2) @
     trashed_headers s1 @ removed_headers s1"

definition copies :: "server \<Rightarrow> server \<Rightarrow> bool" where
  "copies s1 s2 \<longleftrightarrow> joins_duplicate_headers s2 \<or> ignored_headers s1 s2 \<noteq> [] \<or> header_name_translation s2 \<noteq> []"

definition normal_form :: "server \<Rightarrow> server \<Rightarrow> http_request \<Rightarrow> http_request" where
  "normal_form s1 s2 r =
     (let r = (if joins_duplicate_headers s2 then join_duplicate_headers r (duplicate_header_joiner s2) else r);
          r = drop_headers (ignored_headers s1 s2) r
      in sort_headers (if header_name_translation s2 \<noteq> []
                       then translate_request_header_names r (header_name_translation s2) else r))"

lemma normalize_request_eq:
  "normalize_request h a s1 s2 =
     (if copies s1 s2 then h else h(a := sort_headers (h a)), normal_form s1 s2 (h a))"
  by (simp add: normalize_request_def normal_form_def remove_all_eq copies_def ignored_headers_def
      sort_headers_def Let_def)

text \<open>Two requests that differ in the order of their headers only.\<close>

definition reordered :: "http_request \<Rightarrow> http_request \<Rightarrow> bool" where
  "reordered r r' \<longleftrightarrow> mset (req_headers r) = mset (req_headers r') \<and> req_method r = req_method r' \<and>
     req_uri r = req_uri r' \<and> req_body r = req_body r' \<and> req_version r = req_version r'"

lemma reordered_refl [simp]: "reordered r r"
  by (simp add: reordered_def)

lemma reordered_trans: "reordered r s \<Longrightarrow> reordered s t \<Longrightarrow> reordered r t"
  by (simp add: reordered_def)

lemma reordered_sort [simp]: "reordered r (sort_headers r)"
  by (simp add: reordered_def sort_headers_def)

lemma sort_reordered: "reordered r r' \<Longrightarrow> sort_headers r' = sort_headers r"
  by (cases r; cases r') (simp add: reordered_def sort_headers_def sort_eq_iff)

lemma sort_headers_twice [simp]: "sort_headers (sort_headers r) = sort_headers r"
  by (rule sort_reordered) simp

lemma reordered_tests:
  assumes "reordered r r'"
  shows "is_valid r' = is_valid r" "has_header r' k v = has_header r k v"
    "req_method r' = req_method r" "req_version r' = req_version r"
proof -
  from assms have "set (req_headers r') = set (req_headers r)"
    unfolding reordered_def by (metis mset_eq_setD)
  with assms show "is_valid r' = is_valid r" "has_header r' k v = has_header r k v"
    "req_method r' = req_method r" "req_version r' = req_version r"
    by (simp_all add: reordered_def is_valid_def has_header_def list_all_iff list_ex_iff)
qed

lemma reordered_drop: "reordered r r' \<Longrightarrow> reordered (drop_headers ks r) (drop_headers ks r')"
  by (simp add: reordered_def drop_headers_def mset_filter)

lemma reordered_translate:
  "reordered r r' \<Longrightarrow> reordered (translate_request_header_names r tr) (translate_request_header_names r' tr)"
  by (simp add: reordered_def translate_request_header_names_def mset_map)

lemma normal_form_reordered:
  assumes "reordered r r'" and "\<not> joins_duplicate_headers s2"
  shows "normal_form s1 s2 r' = normal_form s1 s2 r"
  using assms by (simp add: normal_form_def Let_def sort_reordered reordered_drop reordered_translate)

lemma normal_form_sorted: "\<not> copies s1 s2 \<Longrightarrow> normal_form s1 s2 r = sort_headers r"
  by (simp add: copies_def normal_form_def)

section \<open>What a comparison does to the store\<close>

definition store_reordered :: "store \<Rightarrow> store \<Rightarrow> bool" where
  "store_reordered h h' \<longleftrightarrow> (\<forall>a. reordered (h a) (h' a))"

lemma store_reordered_refl [simp]: "store_reordered h h"
  by (simp add: store_reordered_def)

lemma store_reordered_trans: "store_reordered h h' \<Longrightarrow> store_reordered h' h'' \<Longrightarrow> store_reordered h h''"
  unfolding store_reordered_def by (blast intro: reordered_trans)

lemma store_reordered_upd [simp]: "store_reordered h (h(a := sort_headers (h a)))"
  by (simp add: store_reordered_def)

lemma normalize_store: "store_reordered h (fst (normalize_request h a s1 s2))"
  by (simp add: normalize_request_eq)

lemma compare_requests_store: "store_reordered h (snd (compare_requests h s1 s2 r1 r2))"
proof -
  have "store_reordered h (fst (normalize_request (fst (normalize_request h a s1 s2)) b s2 s1))" for a b
    by (rule store_reordered_trans [OF normalize_store normalize_store])
  then show ?thesis
    by (simp add: compare_requests_def case_prod_unfold Let_def split: option.split message.split)
qed

lemma categorize_pair_store: "store_reordered h (snd (categorize_pair h s1 s2 r1 r2))"
  by (simp add: categorize_pair_def compare_requests_store)

lemma categorize_pairs_store: "store_reordered h (snd (categorize_pairs h s1 s2 ps))"
proof (induction h s1 s2 ps rule: categorize_pairs.induct)
  case (2 h s1 s2 r1 r2 ps)
  obtain v h' where vh: "categorize_pair h s1 s2 r1 r2 = (v, h')"
    by (cases "categorize_pair h s1 s2 r1 r2")
  then have "store_reordered h h'"
    using categorize_pair_store [of h s1 s2 r1 r2] by simp
  with 2 vh show ?case
    by (cases v) (auto intro: store_reordered_trans)
qed simp

lemma categorize_discrepancy_store: "store_reordered h (snd (categorize_discrepancy h pts1 pts2 s1 s2))"
  by (simp add: categorize_discrepancy_def Let_def categorize_pairs_store)

text \<open>The tests the comparison makes on a message do not see the order of its headers.\<close>

lemma request_and_reordered:
  assumes "store_reordered h h'" and "\<And>r r'. reordered r r' \<Longrightarrow> P r' = P r"
  shows "request_and h' m P = request_and h m P"
  using assms by (cases "(h, m, P)" rule: request_and.cases) (auto simp: store_reordered_def)

lemmas excuse_defs = http_0_9_excuse_def length_excuse_def host_excuse_def whitelist_excuse_def
  blacklist_excuse_def

lemma excuses_reordered:
  assumes "store_reordered h h'"
  shows "http_0_9_excuse h' s1 s2 r1 r2 = http_0_9_excuse h s1 s2 r1 r2"
    "length_excuse h' s1 s2 r1 r2 = length_excuse h s1 s2 r1 r2"
    "host_excuse h' s1 s2 r1 r2 = host_excuse h s1 s2 r1 r2"
    "whitelist_excuse h' s1 s2 r1 r2 = whitelist_excuse h s1 s2 r1 r2"
    "blacklist_excuse h' s1 s2 r1 r2 = blacklist_excuse h s1 s2 r1 r2"
  by (simp_all add: excuse_defs request_and_reordered [OF assms] reordered_tests)

lemma compare_requests_eq:
  "compare_requests h s1 s2 (Some (Request a)) (Some (Request b)) =
     (let h1 = fst (normalize_request h a s1 s2)
      in (if \<not> req_eq (normal_form s1 s2 (h a)) (normal_form s2 s1 (h1 b)) then Return REQUEST_DISCREPANCY else Continue,
          fst (normalize_request h1 b s2 s1)))"
  by (simp add: compare_requests_def Let_def case_prod_unfold normalize_request_eq)

lemma compare_requests_reordered:
  assumes "store_reordered h h'" and "\<not> joins_duplicate_headers s1" and "\<not> joins_duplicate_headers s2"
  shows "fst (compare_requests h' s1 s2 r1 r2) = fst (compare_requests h s1 s2 r1 r2)"
proof (cases "\<exists>a b. r1 = Some (Request a) \<and> r2 = Some (Request b)")
  case True
  then obtain a b where ab: "r1 = Some (Request a)" "r2 = Some (Request b)" by blast
  have norm: "store_reordered h (fst (normalize_request g a s1 s2))" if "store_reordered h g" for g
    using that normalize_store by (rule store_reordered_trans)
  have "reordered (h a) (h' a)" "reordered (h b) (fst (normalize_request h a s1 s2) b)"
    "reordered (h b) (fst (normalize_request h' a s1 s2) b)"
    using assms(1) norm [of h] norm [of h'] by (simp_all add: store_reordered_def)
  then have "normal_form s1 s2 (h' a) = normal_form s1 s2 (h a)"
    "normal_form s2 s1 (fst (normalize_request h a s1 s2) b) = normal_form s2 s1 (h b)"
    "normal_form s2 s1 (fst (normalize_request h' a s1 s2) b) = normal_form s2 s1 (h b)"
    using assms(2,3) by (simp_all add: normal_form_reordered)
  with ab show ?thesis
    by (simp add: compare_requests_eq Let_def)
next
  case False
  then show ?thesis
    by (auto simp: compare_requests_def split: option.split message.split)
qed

lemma categorize_pair_reordered:
  assumes "store_reordered h h'" and "\<not> joins_duplicate_headers s1" and "\<not> joins_duplicate_headers s2"
  shows "fst (categorize_pair h' s1 s2 r1 r2) = fst (categorize_pair h s1 s2 r1 r2)"
proof -
  have "request_and h' r (\<lambda>r. \<not> is_valid r) = request_and h r (\<lambda>r. \<not> is_valid r)" for r
    by (simp add: request_and_reordered [OF assms(1)] reordered_tests)
  then show ?thesis
    by (simp add: categorize_pair_def excuses_reordered [OF assms(1)] compare_requests_reordered [OF assms]
        if_distrib [of fst] cong: if_cong)
qed

lemma categorize_pairs_reordered:
  assumes "\<not> joins_duplicate_headers s1" and "\<not> joins_duplicate_headers s2"
  shows "store_reordered h h' \<Longrightarrow> fst (categorize_pairs h' s1 s2 ps) = fst (categorize_pairs h s1 s2 ps)"
proof (induction ps arbitrary: h h')
  case (Cons p ps)
  obtain r1 r2 where p: "p = (r1, r2)" by (cases p)
  obtain v g v' g' where vg: "categorize_pair h s1 s2 r1 r2 = (v, g)" "categorize_pair h' s1 s2 r1 r2 = (v', g')"
    by fastforce
  with categorize_pair_reordered [OF Cons.prems assms, of r1 r2] have "v' = v" by simp
  show ?case
  proof (cases v)
    case Continue
    \<comment> \<open>both runs go on with stores that are reorderings of the first one\<close>
    have "store_reordered h g" "store_reordered h g'"
      using categorize_pair_store [of h s1 s2 r1 r2] categorize_pair_store [of h' s1 s2 r1 r2]
        Cons.prems vg by (auto intro: store_reordered_trans)
    then have "fst (categorize_pairs g s1 s2 ps) = fst (categorize_pairs h s1 s2 ps)"
      "fst (categorize_pairs g' s1 s2 ps) = fst (categorize_pairs h s1 s2 ps)"
      by (auto intro: Cons.IH)
    with p vg \<open>v' = v\<close> Continue show ?thesis by simp
  qed (use p vg \<open>v' = v\<close> in simp_all)
qed simp

lemma categorize_discrepancy_reordered:
  assumes "store_reordered h h'" and "\<not> joins_duplicate_headers s1" and "\<not> joins_duplicate_headers s2"
  shows "fst (categorize_discrepancy h' pts1 pts2 s1 s2) = fst (categorize_discrepancy h pts1 pts2 s1 s2)"
  using categorize_pairs_reordered [OF assms(2,3,1)] by (simp add: categorize_discrepancy_def Let_def)

section \<open>Swapping the arguments\<close>

lemma zip_longest_swap: "zip_longest ys xs = map prod.swap (zip_longest xs ys)"
  by (induction xs ys rule: zip_longest.induct) auto

lemma zip_longest_same: "zip_longest xs xs = map (\<lambda>x. (Some x, Some x)) xs"
  by (induction xs) auto

lemma set_zip_longest:
  assumes "(p, q) \<in> set (zip_longest xs ys)"
  shows "\<forall>x. p = Some x \<longrightarrow> x \<in> set xs" and "\<forall>y. q = Some y \<longrightarrow> y \<in> set ys"
  using assms by (induction xs ys rule: zip_longest.induct) auto

lemma req_eq_sym: "req_eq r s = req_eq s r"
  by (auto simp: req_eq_def)

lemma res_eq_sym: "res_eq r s = res_eq s r"
  by (auto simp: res_eq_def)

lemma excuses_swap:
  "allows_http_0_9 s1 = allows_http_0_9 s2 \<Longrightarrow> http_0_9_excuse h s1 s2 r1 r2 = http_0_9_excuse h s2 s1 r2 r1"
  "length_excuse h s1 s2 r1 r2 = length_excuse h s2 s1 r2 r1"
  "host_excuse h s1 s2 r1 r2 = host_excuse h s2 s1 r2 r1"
  "whitelist_excuse h s1 s2 r1 r2 = whitelist_excuse h s2 s1 r2 r1"
  "blacklist_excuse h s1 s2 r1 r2 = blacklist_excuse h s2 s1 r2 r1"
  by (auto simp: excuse_defs)

text \<open>No request object is on both sides.\<close>

definition separate :: "message option \<Rightarrow> message option \<Rightarrow> bool" where
  "separate r1 r2 \<longleftrightarrow> (\<forall>a. r1 = Some (Request a) \<longrightarrow> r2 \<noteq> Some (Request a))"

lemma compare_requests_swap:
  assumes "separate r1 r2"
  shows "compare_requests h s1 s2 r1 r2 = compare_requests h s2 s1 r2 r1"
proof (cases "\<exists>a b. r1 = Some (Request a) \<and> r2 = Some (Request b)")
  case True
  then obtain a b where ab: "r1 = Some (Request a)" "r2 = Some (Request b)" by blast
  with assms have "a \<noteq> b" by (auto simp: separate_def)
  with ab show ?thesis
    by (simp add: compare_requests_eq normalize_request_eq Let_def req_eq_sym fun_upd_twist)
next
  case False
  then show ?thesis
    by (auto simp: compare_requests_def split: option.split message.split)
qed

lemma categorize_pair_swap:
  assumes "separate r1 r2" and "allows_http_0_9 s1 = allows_http_0_9 s2"
  shows "categorize_pair h s1 s2 r1 r2 = categorize_pair h s2 s1 r2 r1"
proof -
  have "response_and r1 (\<lambda>p. response_and r2 (\<lambda>q. \<not> res_eq p q)) =
      response_and r2 (\<lambda>p. response_and r1 (\<lambda>q. \<not> res_eq p q))"
    by (cases r1; cases r2; cases "the r1"; cases "the r2") (simp_all add: res_eq_sym)
  then show ?thesis
    unfolding categorize_pair_def compare_requests_swap [OF assms(1)] excuses_swap(1) [OF assms(2)]
      excuses_swap(2-5) [of h s1 s2]
    by (intro if_cong refl) (auto simp: eq_commute [of None])
qed

lemma categorize_pairs_swap:
  assumes "allows_http_0_9 s1 = allows_http_0_9 s2"
  shows "\<forall>(r1, r2) \<in> set ps. separate r1 r2 \<Longrightarrow>
    categorize_pairs h s1 s2 ps = categorize_pairs h s2 s1 (map prod.swap ps)"
proof (induction ps arbitrary: h)
  case (Cons p ps)
  obtain r1 r2 where p: "p = (r1, r2)" by (cases p)
  obtain v g where vg: "categorize_pair h s1 s2 r1 r2 = (v, g)" by fastforce
  moreover have "categorize_pair h s2 s1 r2 r1 = (v, g)"
    using categorize_pair_swap [OF _ assms, of r1 r2 h] Cons.prems p vg by simp
  ultimately show ?case
    using Cons p by (cases v) simp_all
qed simp

section \<open>A stream against itself\<close>

lemma req_eq_refl [simp]: "req_eq r r"
  by (simp add: req_eq_def)

lemma compare_request_itself:
  "fst (compare_requests h s s (Some (Request a)) (Some (Request a))) = Continue"
proof -
  have "normal_form s s (fst (normalize_request h a s s) a) = normal_form s s (h a)"
    by (auto simp: normalize_request_eq normal_form_sorted sort_reordered)
  then show ?thesis by (simp add: compare_requests_eq Let_def)
qed

lemma categorize_pair_itself:
  "fst (categorize_pair h s s (Some r) (Some r)) =
     (if request_and h (Some r) (\<lambda>r. \<not> is_valid r) then Return INVALID else Continue)"
proof (cases r)
  case (Request a)
  then show ?thesis
    using compare_request_itself [of h s a] by (simp add: categorize_pair_def)
next
  case (Response x)
  then show ?thesis
    by (simp add: categorize_pair_def compare_requests_def res_eq_def)
qed

lemma categorize_pairs_itself:
  "fst (categorize_pairs h s s (map (\<lambda>r. (Some r, Some r)) pts)) =
     (if \<forall>r \<in> set pts. \<not> request_and h (Some r) (\<lambda>r. \<not> is_valid r) then OK else INVALID)"
proof (induction pts arbitrary: h)
  case (Cons r pts)
  obtain v g where vg: "categorize_pair h s s (Some r) (Some r) = (v, g)" by fastforce
  then have "store_reordered h g"
    using categorize_pair_store [of h s s "Some r" "Some r"] by simp
  then have "request_and g (Some r) (\<lambda>r. \<not> is_valid r) = request_and h (Some r) (\<lambda>r. \<not> is_valid r)" for r
    by (simp add: request_and_reordered reordered_tests)
  with Cons vg categorize_pair_itself [of h s r] show ?case
    by (cases v) (auto split: if_splits)
qed simp

section \<open>Properties\<close>

text \<open>C14: comparing is symmetric, in the category and in what it does to the requests, when the two servers
  agree on HTTP/0.9 and no request object is on both sides.\<close>

theorem categorize_discrepancy_symmetric:
  assumes "allows_http_0_9 s1 = allows_http_0_9 s2"
    and "\<forall>a. Request a \<in> set pts1 \<longrightarrow> Request a \<notin> set pts2"
  shows "categorize_discrepancy h pts1 pts2 s1 s2 = categorize_discrepancy h pts2 pts1 s2 s1"
proof -
  define single where "single = (doesnt_support_persistence s1 \<or> doesnt_support_persistence s2)"
  define xs where "xs = (if single then take 1 pts1 else pts1)"
  define ys where "ys = (if single then take 1 pts2 else pts2)"
  have "set xs \<subseteq> set pts1" "set ys \<subseteq> set pts2"
    by (simp_all add: xs_def ys_def set_take_subset)
  with assms(2) have "separate r1 r2" if "(r1, r2) \<in> set (zip_longest xs ys)" for r1 r2
    using set_zip_longest [OF that] unfolding separate_def by (metis in_mono)
  then have "\<forall>(r1, r2) \<in> set (zip_longest xs ys). separate r1 r2"
    by blast
  from categorize_pairs_swap [OF assms(1) this, of h]
  have "categorize_pairs h s1 s2 (zip_longest xs ys) = categorize_pairs h s2 s1 (zip_longest ys xs)"
    by (simp add: zip_longest_swap [of ys xs])
  then show ?thesis
    unfolding categorize_discrepancy_def Let_def xs_def ys_def single_def
    by (simp only: disj_commute [of "doesnt_support_persistence s2"])
qed

definition example_message :: http_request where
  "example_message = \<lparr>req_method = ascii ''GET'', req_uri = ascii ''/'', req_headers = [(ascii ''x'', ascii ''2''), (ascii ''x'', ascii ''1'')],
     req_body = [], req_version = ascii ''1.1''\<rparr>"

definition example_rejection :: http_response where
  "example_rejection = \<lparr>res_version = ascii ''1.1'', res_code = ascii ''400'', res_reason = [], res_headers = [],
     res_body = []\<rparr>"

theorem categorize_discrepancy_symmetric_witness:
  "categorize_discrepancy (\<lambda>_. example_message) [Request 0, Request 1] [Request 2] plain_server plain_server =
   categorize_discrepancy (\<lambda>_. example_message) [Request 2] [Request 0, Request 1] plain_server plain_server"
  by (rule categorize_discrepancy_symmetric) simp_all

text \<open>The condition on HTTP/0.9 is needed. The test for a request that only one server took as HTTP/0.9
  looks at \<open>s2\<close> in both of its halves, so whether that difference is excused depends on which of the two
  servers is given first.\<close>

theorem http_0_9_excuse_is_one_sided:
  "fst (categorize_discrepancy (\<lambda>_. example_message\<lparr>req_version := ascii ''0.9''\<rparr>) [Request 0]
      [Response example_rejection] (plain_server\<lparr>allows_http_0_9 := True\<rparr>) plain_server) = OK \<and>
   fst (categorize_discrepancy (\<lambda>_. example_message\<lparr>req_version := ascii ''0.9''\<rparr>) [Response example_rejection]
      [Request 0] plain_server (plain_server\<lparr>allows_http_0_9 := True\<rparr>)) = TYPE_DISCREPANCY"
proof
  have v: "is_valid (example_message\<lparr>req_version := ascii ''0.9''\<rparr>)"
    by code_simp
  show "fst (categorize_discrepancy (\<lambda>_. example_message\<lparr>req_version := ascii ''0.9''\<rparr>) [Request 0]
      [Response example_rejection] (plain_server\<lparr>allows_http_0_9 := True\<rparr>) plain_server) = OK"
    using v by (simp add: categorize_discrepancy_def categorize_pair_def plain_server_def http_0_9_excuse_def)
  show "fst (categorize_discrepancy (\<lambda>_. example_message\<lparr>req_version := ascii ''0.9''\<rparr>) [Response example_rejection]
      [Request 0] plain_server (plain_server\<lparr>allows_http_0_9 := True\<rparr>)) = TYPE_DISCREPANCY"
    using v by (simp add: categorize_discrepancy_def categorize_pair_def plain_server_def excuse_defs
        example_message_def example_rejection_def has_header_def ascii_def)
qed

text \<open>A stream agrees with itself. Comparing what a server made of some bytes with the same objects on
  behalf of the same server gives \<open>OK\<close> when every request that is looked at is valid and \<open>INVALID\<close>
  otherwise, although the first normalization may have sorted the headers the second one reads.\<close>

theorem categorize_discrepancy_itself:
  "fst (categorize_discrepancy h pts pts s s) =
     (if list_all (\<lambda>r. \<not> request_and h (Some r) (\<lambda>r. \<not> is_valid r))
           (if doesnt_support_persistence s then take 1 pts else pts)
      then OK else INVALID)"
  using categorize_pairs_itself [of h s "if doesnt_support_persistence s then take 1 pts else pts"]
  by (simp add: categorize_discrepancy_def Let_def zip_longest_same list_all_iff)

text \<open>All a comparison does to the requests is to put their headers in another order: name by name and
  value by value they are the same afterwards. Unless one of the two servers joins duplicate headers,
  that does not matter: the category is the same on reordered headers.\<close>

theorem comparing_only_reorders_headers:
  "(\<forall>a. reordered (h a) (snd (categorize_discrepancy h pts1 pts2 s1 s2) a)) \<and>
   (joins_duplicate_headers s1 \<or> joins_duplicate_headers s2 \<or>
    fst (categorize_discrepancy (snd (categorize_discrepancy h pts pts' s s')) pts1 pts2 s1 s2) =
      fst (categorize_discrepancy h pts1 pts2 s1 s2))"
  using categorize_discrepancy_store [of h pts1 pts2 s1 s2]
    categorize_discrepancy_reordered [OF categorize_discrepancy_store [of h pts pts' s s'], of s1 s2 pts1 pts2]
  by (auto simp: store_reordered_def)

end
