(* ===== verification/Grid.thy ===== *)
theory Grid
  imports Diff
begin

text \<open>
  \<open>tools/grid.py\<close>: the comparison of every server with every other one, as a triangular grid, and the
  grouping of servers that agree. The loops call \<open>categorize_discrepancy\<close>, which changes the store of
  requests, so they thread the store in the order of the calls. What the grid and the clusters mean is
  proved in a locale for any comparison whose verdict survives its own effects; the comparison of
  servers that do not join duplicate headers is an instance, and an example shows that with a server
  that joins them the grid differs from the pairwise comparisons.
\<close>

section \<open>Loops that thread a state\<close>

fun traverse :: "('a \<Rightarrow> 's \<Rightarrow> 'b \<times> 's) \<Rightarrow> 'a list \<Rightarrow> 's \<Rightarrow> 'b list \<times> 's" where
  "traverse f [] s = ([], s)"
| "traverse f (x # xs) s =
     (let (y, s1) = f x s; (ys, s2) = traverse f xs s1 in (y # ys, s2))"

definition grid_of :: "('s \<Rightarrow> 'a \<Rightarrow> 'a \<Rightarrow> 'c \<times> 's) \<Rightarrow> 'a list \<Rightarrow> 's \<Rightarrow> 'c option list list \<times> 's" where
  "grid_of cat xs =
     traverse (\<lambda>(i, x).
       traverse (\<lambda>(j, y) s. if j < i then (None, s) else (let (c, s1) = cat s x y in (Some c, s1)))
         (enumerate 0 xs)) (enumerate 0 xs)"

text \<open>\<open>all(cat(x, y) == c for y in ys)\<close> stops at the first \<open>y\<close> that differs.\<close>

fun all_are :: "('s \<Rightarrow> 'a \<Rightarrow> 'a \<Rightarrow> 'c \<times> 's) \<Rightarrow> 'c \<Rightarrow> 'a \<Rightarrow> 'a list \<Rightarrow> 's \<Rightarrow> bool \<times> 's" where
  "all_are cat c x [] s = (True, s)"
| "all_are cat c x (y # ys) s =
     (let (d, s1) = cat s x y in if d = c then all_are cat c x ys s1 else (False, s1))"

text \<open>The \<open>for ... else\<close> over the groups: \<open>x\<close> joins the first group that fits, or starts a new one.\<close>

fun place :: "('s \<Rightarrow> 'a \<Rightarrow> 'a \<Rightarrow> 'c \<times> 's) \<Rightarrow> 'c \<Rightarrow> 'c \<Rightarrow> 'a \<Rightarrow> 'a list list \<Rightarrow> 's \<Rightarrow> 'a list list \<times> 's" where
  "place cat c d x [] s = ([[x]], s)"
| "place cat c d x (g # gs) s =
     (let (b1, s1) = all_are cat c x g s in
      if b1 then ((g @ [x]) # gs, s1)
      else (let (b2, s2) = all_are cat d x g s1 in
            if b2 then ((g @ [x]) # gs, s2)
            else (let (gs', s3) = place cat c d x gs s2 in (g # gs', s3))))"

fun groups_of :: "('s \<Rightarrow> 'a \<Rightarrow> 'a \<Rightarrow> 'c \<times> 's) \<Rightarrow> 'c \<Rightarrow> 'c \<Rightarrow> 'a list list \<Rightarrow> 'a list \<Rightarrow> 's \<Rightarrow> 'a list list \<times> 's" where
  "groups_of cat c d gs [] s = (gs, s)"
| "groups_of cat c d gs (x # xs) s =
     (let (gs', s1) = place cat c d x gs s in groups_of cat c d gs' xs s1)"

section \<open>Grids and clusters\<close>

type_synonym parsed = "server \<times> message list"

definition compare_parsed :: "store \<Rightarrow> parsed \<Rightarrow> parsed \<Rightarrow> ErrorType \<times> store" where
  "compare_parsed h x y = categorize_discrepancy h (snd x) (snd y) (fst x) (fst y)"

definition generate_grid ::
  "store \<Rightarrow> message list list \<Rightarrow> server list \<Rightarrow> ErrorType option list list \<times> store" where
  "generate_grid h pts servers = grid_of compare_parsed (zip servers pts) h"

text \<open>The list \<open>result\<close> of \<open>generate_clusters\<close>, and what is returned.\<close>

definition cluster_groups ::
  "store \<Rightarrow> message list list \<Rightarrow> server list \<Rightarrow> parsed list list \<times> store" where
  "cluster_groups h pts servers = groups_of compare_parsed OK INVALID [] (zip servers pts) h"

definition generate_clusters ::
  "store \<Rightarrow> message list list \<Rightarrow> server list \<Rightarrow> server list list \<times> store" where
  "generate_clusters h pts servers =
     (let (groups, h') = cluster_groups h pts servers in (map (map fst) groups, h'))"

definition normalize_grid :: "ErrorType option list list \<Rightarrow> ErrorType option list list" where
  "normalize_grid grid = map (map (\<lambda>entry.
     if entry \<in> {Some RESPONSE_DISCREPANCY} then Some OK
     else if entry \<in> {Some REQUEST_DISCREPANCY, Some TYPE_DISCREPANCY, Some STREAM_DISCREPANCY, Some INVALID}
     then Some DISCREPANCY
     else entry)) grid"

section \<open>Comparisons whose verdict survives their effects\<close>

text \<open>\<open>sim s t\<close>: the state \<open>t\<close> is \<open>s\<close> after some comparisons. On the values in \<open>good\<close> the verdict does
  not see the difference.\<close>

locale comparator =
  fixes cat :: "'s \<Rightarrow> 'a \<Rightarrow> 'a \<Rightarrow> 'c \<times> 's" and good :: "'a \<Rightarrow> bool" and sim :: "'s \<Rightarrow> 's \<Rightarrow> bool"
  assumes sim_refl: "sim s s"
    and sim_trans: "sim s t \<Longrightarrow> sim t u \<Longrightarrow> sim s u"
    and cat_sim: "sim s (snd (cat s x y))"
    and cat_cong: "good x \<Longrightarrow> good y \<Longrightarrow> sim s t \<Longrightarrow> fst (cat t x y) = fst (cat s x y)"
begin

lemma cat_after: "good x \<Longrightarrow> good y \<Longrightarrow> sim s t \<Longrightarrow> \<exists>u. cat t x y = (fst (cat s x y), u) \<and> sim s u"
  using cat_cong [of x y s t] cat_sim [of t x y] sim_trans [of s t]
  by (cases "cat t x y") auto

lemma traverse_after:
  assumes "\<And>x t. x \<in> set xs \<Longrightarrow> sim s t \<Longrightarrow> \<exists>u. f x t = (g x, u) \<and> sim s u"
  shows "sim s t \<Longrightarrow> \<exists>u. traverse f xs t = (map g xs, u) \<and> sim s u"
  using assms
proof (induction xs arbitrary: t)
  case (Cons x xs)
  then obtain u where "f x t = (g x, u)" "sim s u" by (meson list.set_intros(1))
  moreover from this Cons obtain v where "traverse f xs u = (map g xs, v)" "sim s v"
    by (meson list.set_intros(2))
  ultimately show ?case by simp
qed simp

lemma grid_of_after:
  assumes "\<forall>x \<in> set xs. good x"
  shows "\<exists>t. grid_of cat xs s =
    (map (\<lambda>(i, x). map (\<lambda>(j, y). if j < i then None else Some (fst (cat s x y))) (enumerate 0 xs)) (enumerate 0 xs), t)
      \<and> sim s t"
proof -
  have good: "good (snd p)" if "p \<in> set (enumerate 0 xs)" for p
  proof -
    from that have "snd p \<in> set (map snd (enumerate 0 xs))"
      unfolding set_map by (rule imageI)
    with assms show ?thesis by simp
  qed
  have entry: "\<exists>u. (case q of (j, y) \<Rightarrow> \<lambda>s. if j < i then (None, s) else (let (c, s1) = cat s x y in (Some c, s1))) t =
      ((case q of (j, y) \<Rightarrow> if j < i then None else Some (fst (cat s x y))), u) \<and> sim s u"
    if "good x" "q \<in> set (enumerate 0 xs)" "sim s t" for i x q t
    using cat_after [OF that(1) good [OF that(2)] that(3)] that(3) by (cases q) auto
  show ?thesis
    unfolding grid_of_def
  proof (rule traverse_after [OF _ sim_refl])
    fix p t
    assume p: "p \<in> set (enumerate 0 xs)" and "sim s t"
    obtain i x where px: "p = (i, x)" by (cases p)
    with good [OF p] have "good x" by simp
    from traverse_after [OF entry [OF this] \<open>sim s t\<close>] px
    show "\<exists>u. (case p of (i, x) \<Rightarrow> traverse (\<lambda>(j, y) s. if j < i then (None, s) else (let (c, s1) = cat s x y in (Some c, s1)))
        (enumerate 0 xs)) t = ((case p of (i, x) \<Rightarrow> map (\<lambda>(j, y). if j < i then None else Some (fst (cat s x y))) (enumerate 0 xs)), u)
      \<and> sim s u"
      by simp
  qed
qed

lemma all_are_after:
  assumes "good x"
  shows "\<forall>y \<in> set ys. good y \<Longrightarrow> sim s t \<Longrightarrow>
    \<exists>u. all_are cat c x ys t = ((\<forall>y \<in> set ys. fst (cat s x y) = c), u) \<and> sim s u"
proof (induction ys arbitrary: t)
  case (Cons y ys)
  then obtain u where u: "cat t x y = (fst (cat s x y), u)" "sim s u"
    using cat_after [OF assms, of y s t] by auto
  with Cons show ?case
    by (cases "fst (cat s x y) = c") auto
qed simp

end

text \<open>Nothing of the following depends on the comparison: a group only grows at its end, and every value is
  placed once.\<close>

lemma place_mset: "mset (concat (fst (place cat c d x gs s))) = add_mset x (mset (concat gs))"
  by (induction gs arbitrary: s) (simp_all add: Let_def case_prod_unfold)

lemma groups_of_mset: "mset (concat (fst (groups_of cat c d gs xs s))) = mset (concat gs) + mset xs"
  by (induction xs arbitrary: gs s) (simp_all add: Let_def case_prod_unfold place_mset)

lemma place_nonempty: "[] \<notin> set gs \<Longrightarrow> [] \<notin> set (fst (place cat c d x gs s))"
  by (induction gs arbitrary: s) (simp_all add: Let_def case_prod_unfold)

lemma groups_of_nonempty: "[] \<notin> set gs \<Longrightarrow> [] \<notin> set (fst (groups_of cat c d gs xs s))"
  by (induction xs arbitrary: gs s) (simp_all add: Let_def case_prod_unfold place_nonempty)

text \<open>The same grouping with the verdicts as a function.\<close>

fun place_by :: "('a \<Rightarrow> 'a \<Rightarrow> 'c) \<Rightarrow> 'c \<Rightarrow> 'c \<Rightarrow> 'a \<Rightarrow> 'a list list \<Rightarrow> 'a list list" where
  "place_by v c d x [] = [[x]]"
| "place_by v c d x (g # gs) =
     (if (\<forall>y \<in> set g. v x y = c) \<or> (\<forall>y \<in> set g. v x y = d) then (g @ [x]) # gs
      else g # place_by v c d x gs)"

definition groups_by :: "('a \<Rightarrow> 'a \<Rightarrow> 'c) \<Rightarrow> 'c \<Rightarrow> 'c \<Rightarrow> 'a list \<Rightarrow> 'a list list" where
  "groups_by v c d xs = foldl (\<lambda>gs x. place_by v c d x gs) [] xs"

text \<open>In a group, every value got one and the same verdict, \<open>c\<close> or \<open>d\<close>, against all members before it; and no
  value would have fitted into a group before its own.\<close>

definition uniform :: "('a \<Rightarrow> 'a \<Rightarrow> 'c) \<Rightarrow> 'c \<Rightarrow> 'c \<Rightarrow> 'a list \<Rightarrow> bool" where
  "uniform v c d g \<longleftrightarrow> (\<forall>i < length g. (\<forall>j < i. v (g ! i) (g ! j) = c) \<or> (\<forall>j < i. v (g ! i) (g ! j) = d))"

definition apart :: "('a \<Rightarrow> 'a \<Rightarrow> 'c) \<Rightarrow> 'c \<Rightarrow> 'c \<Rightarrow> 'a list \<Rightarrow> 'a list \<Rightarrow> bool" where
  "apart v c d g g' \<longleftrightarrow> (\<forall>x \<in> set g'. (\<exists>y \<in> set g. v x y \<noteq> c) \<and> (\<exists>y \<in> set g. v x y \<noteq> d))"

lemma uniform_snoc:
  "uniform v c d (g @ [x]) \<longleftrightarrow> uniform v c d g \<and> ((\<forall>y \<in> set g. v x y = c) \<or> (\<forall>y \<in> set g. v x y = d))"
  by (simp add: uniform_def nth_append All_less_Suc all_set_conv_all_nth conj_commute)

lemma apart_snoc:
  "apart v c d g g' \<Longrightarrow> apart v c d (g @ [x]) g'"
  "apart v c d g (g' @ [x]) \<longleftrightarrow> apart v c d g g' \<and> (\<exists>y \<in> set g. v x y \<noteq> c) \<and> (\<exists>y \<in> set g. v x y \<noteq> d)"
  by (auto simp: apart_def)

lemma place_by_apart:
  assumes "g' \<in> set (place_by v c d x gs)" and "\<forall>h \<in> set gs. apart v c d g h"
    and "\<not> ((\<forall>y \<in> set g. v x y = c) \<or> (\<forall>y \<in> set g. v x y = d))"
  shows "apart v c d g g'"
  using assms(1,2)
proof (induction gs)
  case Nil
  with assms(3) show ?case by (simp add: apart_def)
next
  case (Cons h gs)
  with assms(3) show ?case by (auto simp: apart_snoc(2) split: if_splits)
qed

lemma place_by_ok:
  "\<forall>g \<in> set gs. uniform v c d g \<Longrightarrow> sorted_wrt (apart v c d) gs \<Longrightarrow>
    (\<forall>g \<in> set (place_by v c d x gs). uniform v c d g) \<and> sorted_wrt (apart v c d) (place_by v c d x gs)"
proof (induction gs)
  case Nil
  then show ?case by (simp add: uniform_def)
next
  case (Cons g gs)
  show ?case
  proof (cases "(\<forall>y \<in> set g. v x y = c) \<or> (\<forall>y \<in> set g. v x y = d)")
    case True
    with Cons.prems show ?thesis by (auto simp: uniform_snoc apart_snoc(1))
  next
    case False
    then have "\<forall>g' \<in> set (place_by v c d x gs). apart v c d g g'"
      using place_by_apart [of _ v c d x gs g] Cons.prems by auto
    with False Cons show ?thesis by (auto simp del: not_all)
  qed
qed

lemma groups_by_snoc: "groups_by v c d (xs @ [x]) = place_by v c d x (groups_by v c d xs)"
  by (simp add: groups_by_def)

lemma groups_by_ok:
  "(\<forall>g \<in> set (groups_by v c d xs). uniform v c d g) \<and> sorted_wrt (apart v c d) (groups_by v c d xs)"
proof (induction xs rule: rev_induct)
  case Nil
  then show ?case by (simp add: groups_by_def)
next
  case (snoc x xs)
  then show ?case unfolding groups_by_snoc by (intro place_by_ok) simp_all
qed

lemma place_by_all:
  "\<forall>g \<in> set gs. \<forall>y \<in> set g. P y \<Longrightarrow> P x \<Longrightarrow> \<forall>g \<in> set (place_by v c d x gs). \<forall>y \<in> set g. P y"
  by (induction gs) auto

context comparator begin

lemma place_after:
  assumes "good x"
  shows "\<forall>g \<in> set gs. \<forall>y \<in> set g. good y \<Longrightarrow> sim s t \<Longrightarrow>
    \<exists>u. place cat c d x gs t = (place_by (\<lambda>x y. fst (cat s x y)) c d x gs, u) \<and> sim s u"
proof (induction gs arbitrary: t)
  case (Cons g gs)
  then obtain u1 where 1: "all_are cat c x g t = ((\<forall>y \<in> set g. fst (cat s x y) = c), u1)" "sim s u1"
    using all_are_after [OF assms, of g s t c] by auto
  with Cons.prems obtain u2 where 2: "all_are cat d x g u1 = ((\<forall>y \<in> set g. fst (cat s x y) = d), u2)" "sim s u2"
    using all_are_after [OF assms, of g s u1 d] by auto
  from Cons.IH [of u2] Cons.prems 2(2) obtain u3 where
    3: "place cat c d x gs u2 = (place_by (\<lambda>x y. fst (cat s x y)) c d x gs, u3)" "sim s u3"
    by auto
  define b1 where "b1 = (\<forall>y \<in> set g. fst (cat s x y) = c)"
  define b2 where "b2 = (\<forall>y \<in> set g. fst (cat s x y) = d)"
  have "place cat c d x (g # gs) t =
      (if b1 then ((g @ [x]) # gs, u1) else if b2 then ((g @ [x]) # gs, u2)
       else (g # place_by (\<lambda>x y. fst (cat s x y)) c d x gs, u3))"
    using 1(1) 2(1) 3(1) by (simp add: b1_def [symmetric] b2_def [symmetric] Let_def case_prod_unfold)
  with 1(2) 2(2) 3(2) show ?case
    by (simp add: b1_def [symmetric] b2_def [symmetric])
qed simp

lemma groups_of_after:
  "\<forall>x \<in> set xs. good x \<Longrightarrow> \<forall>g \<in> set gs. \<forall>y \<in> set g. good y \<Longrightarrow> sim s t \<Longrightarrow>
    \<exists>u. groups_of cat c d gs xs t = (foldl (\<lambda>gs x. place_by (\<lambda>x y. fst (cat s x y)) c d x gs) gs xs, u) \<and> sim s u"
proof (induction xs arbitrary: gs t)
  case (Cons x xs)
  let ?v = "\<lambda>x y. fst (cat s x y)"
  from Cons.prems have "good x" by simp
  from place_after [OF this Cons.prems(2,3)] obtain u where
    u: "place cat c d x gs t = (place_by ?v c d x gs, u)" "sim s u"
    by blast
  have "\<forall>g \<in> set (place_by ?v c d x gs). \<forall>y \<in> set g. good y"
    using Cons.prems(2) \<open>good x\<close> by (rule place_by_all)
  from Cons.IH [OF _ this u(2)] Cons.prems(1) u(1) show ?case by simp
qed simp

lemma groups_after:
  "\<forall>x \<in> set xs. good x \<Longrightarrow> \<exists>t. groups_of cat c d [] xs s = (groups_by (\<lambda>x y. fst (cat s x y)) c d xs, t) \<and> sim s t"
  using groups_of_after [of xs "[]" s s c d] sim_refl by (simp add: groups_by_def)

end

lemma map_enumerate: "map (\<lambda>(i, x). f i x) (enumerate 0 xs) = map (\<lambda>i. f i (xs ! i)) [0..<length xs]"
  by (intro nth_equalityI) (simp_all add: nth_enumerate_eq)

interpretation diff: comparator compare_parsed "\<lambda>x. \<not> joins_duplicate_headers (fst x)" store_reordered
proof
  show "store_reordered s u" if "store_reordered s t" "store_reordered t u" for s t u
    using that by (rule store_reordered_trans)
qed (simp_all add: compare_parsed_def categorize_discrepancy_store categorize_discrepancy_reordered)

lemma generate_grid_table:
  assumes "\<forall>s \<in> set servers. \<not> joins_duplicate_headers s" and "length pts = length servers"
  shows "fst (generate_grid h pts servers) =
    map (\<lambda>i. map (\<lambda>j. if j < i then None
        else Some (fst (categorize_discrepancy h (pts ! i) (pts ! j) (servers ! i) (servers ! j)))) [0..<length servers])
      [0..<length servers]"
proof -
  let ?xs = "zip servers pts"
  have good: "\<forall>x \<in> set ?xs. \<not> joins_duplicate_headers (fst x)"
    using assms(1) by (auto dest: set_zip_leftD)
  obtain t where "generate_grid h pts servers = (map (\<lambda>(i, x). map (\<lambda>(j, y). if j < i then None
      else Some (fst (compare_parsed h x y))) (enumerate 0 ?xs)) (enumerate 0 ?xs), t)"
    using diff.grid_of_after [OF good, of h] by (auto simp: generate_grid_def)
  then show ?thesis
    using assms(2) by (auto simp: compare_parsed_def map_enumerate intro!: map_cong)
qed

section \<open>Properties\<close>

text \<open>C12: the grid is the table of pairwise comparisons. When no server joins duplicate headers, the entry in
  row \<open>i\<close> and column \<open>j\<close> is \<open>None\<close> below the diagonal and otherwise the category of comparing server \<open>i\<close> with
  server \<open>j\<close> on the requests as they were at the start, whatever was compared in between.\<close>

theorem grid_is_the_pairwise_table:
  assumes "\<forall>s \<in> set servers. \<not> joins_duplicate_headers s" and "length pts = length servers"
  shows "fst (generate_grid h pts servers) =
    map (\<lambda>i. map (\<lambda>j. if j < i then None
        else Some (fst (categorize_discrepancy h (pts ! i) (pts ! j) (servers ! i) (servers ! j)))) [0..<length servers])
      [0..<length servers]"
  using assms by (rule generate_grid_table)

theorem grid_is_the_pairwise_table_witness:
  "fst (generate_grid (\<lambda>_. example_message) [[Request 0], [Response example_rejection]] [plain_server, plain_server]) =
    [[Some OK, Some TYPE_DISCREPANCY], [None, Some OK]]"
proof -
  have "fst (generate_grid (\<lambda>_. example_message) [[Request 0], [Response example_rejection]] [plain_server, plain_server]) =
    map (\<lambda>i. map (\<lambda>j. if j < i then None
        else Some (fst (categorize_discrepancy (\<lambda>_. example_message) ([[Request 0], [Response example_rejection]] ! i)
          ([[Request 0], [Response example_rejection]] ! j) ([plain_server, plain_server] ! i) ([plain_server, plain_server] ! j))))
        [0..<length [plain_server, plain_server]]) [0..<length [plain_server, plain_server]]"
    by (rule grid_is_the_pairwise_table) (simp_all add: plain_server_def)
  also have "\<dots> = [[Some OK, Some TYPE_DISCREPANCY], [None, Some OK]]"
    by code_simp
  finally show ?thesis .
qed

text \<open>With a server that joins duplicate headers the grid is not that table. The comparison of the first
  server with itself sorts the headers of its request in place, and the joined value is then put together in
  another order: two servers that agree are reported to differ.\<close>

theorem sorting_in_place_changes_the_grid:
  "let h = (\<lambda>_. example_message)(1 := example_message\<lparr>req_headers := [(ascii ''x'', ascii ''2, 1'')]\<rparr>);
       joins = plain_server\<lparr>joins_duplicate_headers := True, duplicate_header_joiner := ascii '', ''\<rparr>
   in fst (categorize_discrepancy h [Request 0] [Request 1] plain_server joins) = OK \<and>
      fst (generate_grid h [[Request 0], [Request 1]] [plain_server, joins]) =
        [[Some OK, Some REQUEST_DISCREPANCY], [None, Some OK]]"
  by code_simp



end
