(* ===== verification/Fanout.thy ===== *)
theory Fanout
  imports Targets Grid
begin

text \<open>
  \<open>tools/fanout.py\<close>: the same bytes sent to many servers at once, and the way from there to the grid the
  user sees. The call of \<open>parsed_roundtrip\<close> goes to the method of the server's class. How each server is
  reached is the argument \<open>connect\<close>. \<open>None\<close> is a call that never returns: then the pool's \<open>map\<close> does not
  return either.
\<close>

section \<open>Fanning out\<close>

definition parsed_roundtrip ::
  "(bytes \<Rightarrow> bytes result) \<Rightarrow> server \<Rightarrow> sock result \<Rightarrow> bytes list \<Rightarrow> parsed_message list result option" where
  "parsed_roundtrip gunzip s connection data =
     (case role s of
        BaseServer \<Rightarrow> Some (Inl AssertionError)
      | Origin \<Rightarrow> Some (origin_parsed_roundtrip gunzip s connection data)
      | Transducer \<Rightarrow> transducer_parsed_roundtrip gunzip s connection data)"

definition unparsed_roundtrip ::
  "(bytes \<Rightarrow> bytes result) \<Rightarrow> server \<Rightarrow> sock result \<Rightarrow> bytes list \<Rightarrow> bytes list result option" where
  "unparsed_roundtrip gunzip s connection data =
     (case role s of
        BaseServer \<Rightarrow> Some (Inl AssertionError)
      | Origin \<Rightarrow> Some (exchange s connection data)
      | Transducer \<Rightarrow> transducer_unparsed_roundtrip gunzip s connection data)"

text \<open>The pool's \<open>map\<close> of calls that may not return.\<close>

definition pmap_option :: "('a \<Rightarrow> 'b result option) \<Rightarrow> 'a list \<Rightarrow> 'b list result option" where
  "pmap_option f xs = (if list_ex (\<lambda>x. f x = None) xs then None else Some (eager_pmap (\<lambda>x. the (f x)) xs))"

definition fanout ::
  "(bytes \<Rightarrow> bytes result) \<Rightarrow> (server \<Rightarrow> sock result) \<Rightarrow> bytes list \<Rightarrow> server list \<Rightarrow>
    parsed_message list list result option" where
  "fanout gunzip connect data servers =
     pmap_option (\<lambda>server. parsed_roundtrip gunzip server (connect server) data) servers"

definition unparsed_fanout ::
  "(bytes \<Rightarrow> bytes result) \<Rightarrow> (server \<Rightarrow> sock result) \<Rightarrow> bytes list \<Rightarrow> server list \<Rightarrow>
    bytes list list result option" where
  "unparsed_fanout gunzip connect data servers =
     pmap_option (\<lambda>t. unparsed_roundtrip gunzip (fst t) (connect (fst t)) (snd t))
       (zip servers (map (\<lambda>_. data) [0..<length servers]))"

section \<open>The parsed requests as objects\<close>

text \<open>Every parsed request is an object of its own: the messages of a server, and those of all servers, get
  fresh addresses.\<close>

fun allocate :: "parsed_message list \<Rightarrow> nat \<times> store \<Rightarrow> message list \<times> nat \<times> store" where
  "allocate [] ns = ([], ns)"
| "allocate (ParsedRequest r # ms) (n, h) = (let (xs, ns) = allocate ms (Suc n, h(n := r)) in (Request n # xs, ns))"
| "allocate (ParsedResponse r # ms) (n, h) = (let (xs, ns) = allocate ms (n, h) in (Response r # xs, ns))"

fun allocate_all :: "parsed_message list list \<Rightarrow> nat \<times> store \<Rightarrow> message list list \<times> nat \<times> store" where
  "allocate_all [] ns = ([], ns)"
| "allocate_all (ms # mss) ns =
     (let (xs, ns1) = allocate ms ns; (xss, ns2) = allocate_all mss ns1 in (xs # xss, ns2))"

text \<open>The value a message has in a store.\<close>

fun denote :: "store \<Rightarrow> message \<Rightarrow> parsed_message" where
  "denote h (Request a) = ParsedRequest (h a)"
| "denote h (Response r) = ParsedResponse r"

definition below :: "nat \<Rightarrow> message list \<Rightarrow> bool" where
  "below n xs \<longleftrightarrow> (\<forall>a. Request a \<in> set xs \<longrightarrow> a < n)"

lemma denote_cong: "below n xs \<Longrightarrow> (\<And>a. a < n \<Longrightarrow> h' a = h a) \<Longrightarrow> map (denote h') xs = map (denote h) xs"
proof -
  assume "below n xs" and "\<And>a. a < n \<Longrightarrow> h' a = h a"
  then have "denote h' m = denote h m" if "m \<in> set xs" for m
    using that by (cases m) (auto simp: below_def)
  then show ?thesis by simp
qed

lemma allocate_denotes:
  "allocate ms (n, h) = (xs, n', h') \<Longrightarrow> n \<le> n' \<and> below n' xs \<and> map (denote h') xs = ms \<and> (\<forall>a < n. h' a = h a)"
proof (induction ms "(n, h)" arbitrary: n h xs rule: allocate.induct)
  case (2 r ms n h)
  obtain ys where ys: "allocate ms (Suc n, h(n := r)) = (ys, n', h')" "xs = Request n # ys"
    using "2.prems" by (auto split: prod.splits)
  from "2.hyps" [OF ys(1)] have IH: "Suc n \<le> n'" "below n' ys" "map (denote h') ys = ms" "\<forall>a < Suc n. h' a = (h(n := r)) a"
    by auto
  then have "h' n = r" "\<forall>a < n. h' a = h a" by auto
  with IH ys(2) show ?case by (auto simp: below_def)
next
  case (3 r ms n h)
  then show ?case by (auto simp: below_def split: prod.splits)
qed (simp add: below_def)

lemma allocate_all_denotes:
  "allocate_all mss (n, h) = (xss, n', h') \<Longrightarrow>
    n \<le> n' \<and> map (map (denote h')) xss = mss \<and> (\<forall>a < n. h' a = h a)"
proof (induction mss arbitrary: n h xss n' h')
  case (Cons ms mss)
  obtain xs n1 h1 where xs: "allocate ms (n, h) = (xs, n1, h1)" by (cases "allocate ms (n, h)") auto
  obtain ys n2 h2 where ys: "allocate_all mss (n1, h1) = (ys, n2, h2)" by (cases "allocate_all mss (n1, h1)") auto
  have "xss = xs # ys" "n2 = n'" "h2 = h'" using Cons.prems xs ys by simp_all
  with Cons.IH [OF ys] ys allocate_denotes [OF xs] denote_cong [of n1 xs h' h1] show ?case by auto
qed simp

section \<open>Servers that agree\<close>

text \<open>A server whose headers are taken as they are.\<close>

definition plain_headers :: "server \<Rightarrow> bool" where
  "plain_headers s \<longleftrightarrow> added_headers s = [] \<and> removed_headers s = [] \<and> trashed_headers s = [] \<and>
     header_name_translation s = [] \<and> \<not> joins_duplicate_headers s"

lemma plain_headers_no_copy: "plain_headers s1 \<Longrightarrow> plain_headers s2 \<Longrightarrow> \<not> copies s1 s2"
  by (simp add: plain_headers_def copies_def ignored_headers_def)

lemma compare_equal_requests:
  assumes "plain_headers s1" and "plain_headers s2" and "denote h x = denote h y"
  shows "fst (compare_requests h s1 s2 (Some x) (Some y)) = Continue"
proof (cases x)
  case (Request a)
  with assms(3) obtain b where b: "y = Request b" "h b = h a"
    by (cases y) auto
  have "\<not> copies s1 s2" "\<not> copies s2 s1"
    using assms(1,2) by (simp_all add: plain_headers_no_copy)
  then show ?thesis
    using Request b by (simp add: compare_requests_eq normalize_request_eq normal_form_sorted Let_def)
next
  case (Response r)
  then show ?thesis by (simp add: compare_requests_def)
qed

lemma categorize_equal_messages:
  assumes "plain_headers s1" and "plain_headers s2" and "denote h x = denote h y"
    and "\<And>r. denote h x = ParsedRequest r \<Longrightarrow> is_valid r"
  shows "fst (categorize_pair h s1 s2 (Some x) (Some y)) = Continue"
proof -
  have "\<not> request_and h (Some x) (\<lambda>r. \<not> is_valid r)" "\<not> request_and h (Some y) (\<lambda>r. \<not> is_valid r)"
    using assms(3,4) by (cases x; cases y; simp)+
  moreover have "is_request (Some x) = is_request (Some y)"
    "\<not> response_and (Some x) (\<lambda>p. response_and (Some y) (\<lambda>q. \<not> res_eq p q))"
    using assms(3) by (cases x; cases y; simp add: res_eq_def)+
  ultimately show ?thesis
    using compare_equal_requests [OF assms(1-3)] by (simp add: categorize_pair_def)
qed

lemma categorize_equal_streams:
  assumes "plain_headers s1" and "plain_headers s2"
  shows "map (denote h) xs = map (denote h) ys \<Longrightarrow> (\<forall>r. ParsedRequest r \<in> denote h ` set xs \<longrightarrow> is_valid r) \<Longrightarrow>
    fst (categorize_pairs h s1 s2 (zip_longest xs ys)) = OK"
proof (induction xs ys rule: zip_longest.induct)
  case (4 x xs y ys)
  obtain v g where vg: "categorize_pair h s1 s2 (Some x) (Some y) = (v, g)" by fastforce
  have "fst (categorize_pair h s1 s2 (Some x) (Some y)) = Continue"
  proof (rule categorize_equal_messages [OF assms])
    show "denote h x = denote h y" using 4 by simp
    show "is_valid r" if "denote h x = ParsedRequest r" for r
      using "4.prems"(2) that by (metis image_eqI list.set_intros(1))
  qed
  moreover have "store_reordered h g"
    using categorize_pair_store [of h s1 s2 "Some x" "Some y"] vg by simp
  ultimately show ?case
    using 4 vg categorize_pairs_reordered [of s1 s2 h g "zip_longest xs ys"] assms
    by (simp add: plain_headers_def)
qed simp_all

section \<open>Properties\<close>

text \<open>Servers that agree give a green grid. When the fan-out returns, all servers reported the same messages,
  every request among them is valid, and no server has quirks about headers, then every entry on and above
  the diagonal of the grid made from the result is \<open>OK\<close>.\<close>

theorem agreeing_servers_give_a_green_grid:
  assumes "fanout gunzip connect data servers = Some (Inr results)"
    and "\<forall>ms \<in> set results. ms = msgs" and "\<forall>r. ParsedRequest r \<in> set msgs \<longrightarrow> is_valid r"
    and "\<forall>s \<in> set servers. plain_headers s" and "allocate_all results (n, h) = (pts, n', h')"
  shows "fst (generate_grid h' pts servers) =
    map (\<lambda>i. map (\<lambda>j. if j < i then None else Some OK) [0..<length servers]) [0..<length servers]"
proof -
  have results: "map (map (denote h')) pts = results"
    using allocate_all_denotes [OF assms(5)] by simp
  have len: "length pts = length servers"
    using assms(1) mapE_length [of _ servers results] results
    by (auto simp: fanout_def pmap_option_def eager_pmap_def split: if_splits)
  have same: "map (denote h') (pts ! i) = msgs" if "i < length servers" for i
    using that assms(2) results len by (metis length_map nth_map nth_mem)
  have "fst (categorize_discrepancy h' (pts ! i) (pts ! j) (servers ! i) (servers ! j)) = OK"
    if ij: "i < length servers" "j < length servers" for i j
  proof -
    have plain: "plain_headers (servers ! i)" "plain_headers (servers ! j)"
      using assms(4) ij by simp_all
    have take: "map (denote h') (take 1 (pts ! i)) = map (denote h') (take 1 (pts ! j))"
      using same ij by (metis take_map)
    have valid: "\<forall>r. ParsedRequest r \<in> denote h' ` set (pts ! i) \<longrightarrow> is_valid r"
      using same [OF ij(1)] assms(3) by (metis image_set)
    then have "\<forall>r. ParsedRequest r \<in> denote h' ` set (take 1 (pts ! i)) \<longrightarrow> is_valid r"
      by (meson image_mono set_take_subset subsetD)
    with valid take same [OF ij(1)] same [OF ij(2)] show ?thesis
      using categorize_equal_streams [OF plain, of h'] by (simp add: categorize_discrepancy_def Let_def)
  qed
  with generate_grid_table [of servers pts h'] assms(4) len show ?thesis
    by (auto simp: plain_headers_def intro!: map_cong)
qed

definition example_reported :: http_request where
  "example_reported = example_request\<lparr>req_headers := map (\<lambda>(k, v). (lower k, v)) (req_headers example_request),
     req_version := strip_http (req_version example_request)\<rparr>"

lemma example_fanout:
  "fanout (\<lambda>_. Inl OSError) (\<lambda>_. Inr \<lparr>outgoing = [], incoming = [Received (render_reply example_report)]\<rparr>)
     [ascii ''x''] [plain_server, plain_server] =
   Some (Inr [[reported (fst example_report) example_request], [reported (fst example_report) example_request]])"
proof -
  have "delimited (fst example_report) (snd example_report)"
    by code_simp
  then have "origin_answer (fst example_report) (snd example_report) example_request"
    by (simp add: origin_answer_def example_report_def Let_def)
  then have "origin_loop (\<lambda>_. Inl OSError) plain_server (render_reply example_report) =
      Inr [reported (fst example_report) example_request]"
    using origin_loop_answers [of "[(fst example_report, snd example_report, example_request)]"] by simp
  then show ?thesis
    by (simp add: fanout_def pmap_option_def eager_pmap_def parsed_roundtrip_def origin_parsed_roundtrip_def
        exchange_def plain_server_def sendall_def recvall_def)
qed

theorem agreeing_servers_give_a_green_grid_witness:
  "fst (generate_grid ((\<lambda>_. example_message)(0 := example_reported, 1 := example_reported))
      [[Request 0], [Request 1]] [plain_server, plain_server]) = [[Some OK, Some OK], [None, Some OK]]"
proof -
  have r: "reported (fst example_report) example_request = ParsedRequest example_reported"
    by (simp add: reported_def example_report_def example_reported_def Let_def)
  have "is_valid example_reported"
    by code_simp
  moreover have "plain_headers plain_server"
    by (simp add: plain_headers_def plain_server_def)
  ultimately show ?thesis
    using agreeing_servers_give_a_green_grid [OF example_fanout, of "[ParsedRequest example_reported]" 0
        "\<lambda>_. example_message" "[[Request 0], [Request 1]]" 2
        "(\<lambda>_. example_message)(0 := example_reported, 1 := example_reported)"]
    by (simp add: r upt_rec)
qed

end
