(* ===== verification/Decimal.thy ===== *)
theory Decimal
  imports Http1Parse
begin

text \<open>
  Natural numbers in decimal, as f-strings and \<open>str\<close> write them and as the parsers read them.
\<close>

text \<open>\<open>f"{n}"\<close> on a natural number.\<close>

fun decimal :: "nat \<Rightarrow> bytes" where
  "decimal n = (if n < 10 then [] else decimal (n div 10)) @ [word_of_nat (n mod 10) + 0x30]"

declare decimal.simps [simp del]

lemma decimal_digit: "m < 10 \<Longrightarrow> is_digit (word_of_nat m + 0x30)" "m < 10 \<Longrightarrow> unat (word_of_nat m + 0x30 :: byte) - 0x30 = m"
proof -
  assume "m < 10"
  then have "unat (word_of_nat m + 0x30 :: byte) = m + 0x30"
    by (simp add: unat_word_ariths unat_of_nat)
  with \<open>m < 10\<close> show "is_digit (word_of_nat m + 0x30)" "unat (word_of_nat m + 0x30 :: byte) - 0x30 = m"
    by (simp_all add: is_digit_def word_le_nat_alt)
qed

lemma all_digits_decimal: "all_digits (decimal n)"
proof (induction n rule: decimal.induct)
  case (1 n)
  then show ?case
    using decimal_digit(1) [of "n mod 10"] by (simp add: decimal.simps [of n] all_digits_def)
qed

lemma digits_value_decimal: "digits_value (decimal n) = n"
proof (induction n rule: decimal.induct)
  case (1 n)
  then show ?case
    using decimal_digit(2) [of "n mod 10"] by (simp add: decimal.simps [of n] digits_value_def)
qed

lemma length_decimal: "n < 10 ^ Suc k \<Longrightarrow> length (decimal n) \<le> Suc k"
proof (induction k arbitrary: n)
  case 0
  then show ?case by (simp add: decimal.simps [of n])
next
  case (Suc k)
  then have "n div 10 < 10 ^ Suc k" by (simp add: less_mult_imp_div_less)
  from Suc.IH [OF this] show ?case by (simp add: decimal.simps [of n])
qed

lemma int_of_digits_decimal: "int n \<le> sys_maxsize \<Longrightarrow> int_of_digits (decimal n) = Inr n"
proof -
  assume "int n \<le> sys_maxsize"
  then have "n < 10 ^ Suc 18"
    by (simp add: sys_maxsize_def)
  from length_decimal [OF this] show ?thesis
    by (simp add: int_of_digits_def digits_value_decimal)
qed

lemma digits_header:
  assumes "all_digits v"
  shows "LF \<notin> set v" and "strip_blank v = v"
proof -
  have digits: "is_digit b" if "b \<in> set v" for b
    using assms that by (simp add: all_digits_def list_all_iff)
  have "\<not> is_digit LF" by (simp add: is_digit_def)
  with digits show "LF \<notin> set v" by blast
  have solid: "\<not> is_blank b" if "b \<in> set v" for b
    using digits [OF that] by (auto simp: is_blank_def is_digit_def)
  have "dropWhile is_blank w = w" if "set w \<subseteq> set v" for w
    using that solid by (cases w) auto
  then show "strip_blank v = v"
    by (simp add: strip_blank_def)
qed

end
