(* ===== verification/EchoServer.thy ===== *)
theory EchoServer
  imports HpackField Http2Typed Targets PyState Decimal
begin

text \<open>
  \<open>tools/echo_server.py\<close>: the server at the end of a transducer. It sends the bytes of an HTTP/1
  connection back as bodies, and the frames of an HTTP/2 stream as the data of a response on that
  stream. A connection is the scripted socket, what was sent on it, and the variables of the handler; the
  counter of the frames is the module's, and other connections add to it. The loop of the HTTP/2 handler
  may not end, so it is a partial function.
\<close>

section \<open>A connection\<close>

record connection =
  client :: sock
  sent :: "bytes list"
  closed :: bool

record h2_connection = connection +
  streams_ending :: "int set"
  collected_frames :: "int \<rightharpoonup> (int \<times> h2_generic_frame) list"
  frame_counter :: int

definition send_bytes :: "bytes \<Rightarrow> ('x connection_scheme, unit) action" where
  "send_bytes b c =
     (case sendall (client c) of
        (Inl e, s) \<Rightarrow> (Inl e, c\<lparr>client := s\<rparr>)
      | (Inr _, s) \<Rightarrow> (Inr (), c\<lparr>client := s, sent := sent c @ [b]\<rparr>))"

definition recv_bytes :: "('x connection_scheme, bytes) action" where
  "recv_bytes c = (case recvall (client c) of (r, s) \<Rightarrow> (r, c\<lparr>client := s\<rparr>))"

definition close_socket :: "('x connection_scheme, unit) action" where
  "close_socket = modifyS (\<lambda>c. c\<lparr>closed := True\<rparr>)"

text \<open>\<open>try: m except (SSLEOFError, ..., OSError, ...): handler\<close>\<close>

definition on_OSError :: "('s, 'a) action \<Rightarrow> ('s, 'a) action \<Rightarrow> ('s, 'a) action" where
  "on_OSError m handler s =
     (case m s of (Inl e, t) \<Rightarrow> if e = OSError then handler t else (Inl e, t) | (Inr x, t) \<Rightarrow> (Inr x, t))"

section \<open>HTTP/1\<close>

definition echo_response :: "bytes \<Rightarrow> bytes" where
  "echo_response bytes_recved =
     ascii ''HTTP/1.1 200 OK'' @ [CR, LF] @ ascii ''Cache-Control: public, max-age=2592000'' @ [CR, LF] @
     ascii ''Server: echo-python'' @ [CR, LF] @
     ascii ''Content-Length: '' @ decimal (length bytes_recved) @ [CR, LF, CR, LF] @ bytes_recved"

lemma send_bytes_fields:
  "send_bytes b c = (r, c') \<Longrightarrow> incoming (client c') = incoming (client c) \<and> connection.more c' = connection.more c \<and>
    closed c' = closed c \<and> (r = Inr () \<and> sent c' = sent c @ [b] \<or> r = Inl OSError \<and> sent c' = sent c)"
  by (auto simp: send_bytes_def sendall_def split: list.splits send_event.splits)

lemma send_bytes_works:
  assumes "SendFailed \<notin> set (outgoing (client c))"
  shows "\<exists>c'. send_bytes b c = (Inr (), c') \<and> SendFailed \<notin> set (outgoing (client c'))"
proof (cases "outgoing (client c)")
  case (Cons e es)
  with assms show ?thesis by (cases e) (simp_all add: send_bytes_def sendall_def)
qed (simp add: send_bytes_def sendall_def)

lemma recv_bytes_fields:
  assumes "recv_bytes c = (r, c')"
  obtains used where "incoming (client c) = used @ incoming (client c')" and "c' = c\<lparr>client := client c'\<rparr>"
    and "r = Inl OSError \<and> RecvFailed \<in> set used \<or> r = Inr (arrived used) \<and> RecvFailed \<notin> set used"
proof -
  obtain r' s where rs: "recvall (client c) = (r', s)" by fastforce
  with assms have "r' = r" "c' = c\<lparr>client := s\<rparr>" by (simp_all add: recv_bytes_def)
  moreover obtain used where "incoming (client c) = used @ incoming s"
    "r' = Inl OSError \<and> RecvFailed \<in> set used \<or> r' = Inr (arrived used) \<and> RecvFailed \<notin> set used"
    using rs by (rule recvall_used)
  ultimately show ?thesis using that by simp
qed

lemma recv_bytes_shorter:
  assumes "recv_bytes c = (Inr b, c')" and "b \<noteq> []"
  shows "length (incoming (client c')) < length (incoming (client c))"
proof -
  obtain used where "incoming (client c) = used @ incoming (client c')" "b = arrived used"
    using assms(1) by (rule recv_bytes_fields) (use that in simp)
  with assms(2) show ?thesis by (cases used) auto
qed

lemma send_then_recv_shorter:
  assumes "bindS (send_bytes d) (\<lambda>_. recv_bytes) c = (Inr b, c')" and "b \<noteq> []"
  shows "length (incoming (client c')) < length (incoming (client c))"
proof -
  obtain x c1 where "send_bytes d c = (Inr x, c1)" and "recv_bytes c1 = (Inr b, c')"
    using assms(1) by (auto simp: bindS_Inr)
  with recv_bytes_shorter [OF this(2) assms(2)] send_bytes_fields show ?thesis by metis
qed

text \<open>The loop, which an error of the socket and an empty \<open>bytes_recved\<close> break.\<close>

function h1_loop :: "bytes \<Rightarrow> ('x connection_scheme, unit) action" where
  "h1_loop bytes_recved c =
     (case bindS (send_bytes (echo_response bytes_recved)) (\<lambda>_. recv_bytes) c of
        (Inl e, c') \<Rightarrow> if e = OSError then (Inr (), c') else (Inl e, c')
      | (Inr b, c') \<Rightarrow> if b = [] then (Inr (), c') else h1_loop b c')"
  by pat_completeness auto
termination
  by (relation "measure (\<lambda>(b, c). length (incoming (client c)))")
    (auto dest: send_then_recv_shorter [OF sym])

declare h1_loop.simps [simp del]

definition handle_h1_connection :: "bytes \<Rightarrow> ('x connection_scheme, unit) action" where
  "handle_h1_connection bytes_recved = bindS (h1_loop bytes_recved) (\<lambda>_. close_socket)"

section \<open>HTTP/2\<close>

text \<open>The frame is stored under its stream, with the value of the counter.\<close>

definition collect_frame :: "h2_generic_frame \<Rightarrow> (h2_connection, unit) action" where
  "collect_frame frame = modifyS (\<lambda>c.
     let frames = (if stream_id frame \<notin> dom (collected_frames c)
                   then (collected_frames c)(stream_id frame \<mapsto> []) else collected_frames c)
     in c\<lparr>collected_frames := frames(stream_id frame \<mapsto> the (frames (stream_id frame)) @ [(frame_counter c, frame)]),
          frame_counter := frame_counter c + 1\<rparr>)"

definition close_stream :: "int \<Rightarrow> (h2_connection, unit) action" where
  "close_stream sid c =
     (if collected_frames c sid = None then (Inl KeyError, c)
      else (Inr (), c\<lparr>collected_frames := (collected_frames c)(sid := None),
              streams_ending := (if sid \<in> streams_ending c then streams_ending c - {sid} else streams_ending c)\<rparr>))"

text \<open>The bytes \<open>respond_and_close_stream\<close> sends, from the frames in the order of their numbers.\<close>

definition response_bytes :: "int \<Rightarrow> h2_generic_frame list \<Rightarrow> bytes result" where
  "response_bytes sid frames =
     bindE (hpack_field_to_bytes
         (HPACKLiteralHeaderField (HPACKString (ascii '':status'')) (HPACKString (ascii ''200'')) UNCACHED)) (\<lambda>block.
     bindE (H2HeadersFrame True False sid None None None block None) (\<lambda>headers.
     bindE (mapE H2GenericFrame_to_bytes frames) (\<lambda>pieces.
     bindE (H2DataFrame True sid (concat pieces) None) (\<lambda>data.
     bindE (mapE h2_to_bytes [headers, data]) (\<lambda>bs. Inr (concat bs))))))"

definition respond_and_close_stream :: "int \<Rightarrow> (h2_connection, unit) action" where
  "respond_and_close_stream sid c =
     (case collected_frames c sid of
        None \<Rightarrow> (Inl AssertionError, c)
      | Some frames \<Rightarrow>
          let relevant = (case collected_frames c 0 of None \<Rightarrow> frames | Some control \<Rightarrow> frames @ control);
              relevant = sort_key fst relevant
          in bindS (on_OSError (bindS (readS (\<lambda>_. response_bytes sid (map snd relevant))) send_bytes) (returnS ()))
               (\<lambda>_. close_stream sid) c)"

text \<open>The \<open>match\<close> on the type of a frame; the result says whether the handler returns.\<close>

definition handle_frame :: "h2_generic_frame \<Rightarrow> (h2_connection, bool) action" where
  "handle_frame frame =
     (let sid = stream_id frame; fl = flags frame; go_on = (\<lambda>_. returnS False) in
      if ftyp frame = 0 then
        bindS (collect_frame frame) (\<lambda>_.
        bindS (if end_stream_or_ack fl then respond_and_close_stream sid else returnS ()) go_on)
      else if ftyp frame = 1 then
        bindS (collect_frame frame) (\<lambda>_.
        bindS (if end_headers fl \<and> end_stream_or_ack fl then respond_and_close_stream sid
               else if end_stream_or_ack fl then modifyS (\<lambda>c. c\<lparr>streams_ending := insert sid (streams_ending c)\<rparr>)
               else returnS ()) go_on)
      else if ftyp frame = 2 \<or> ftyp frame = 8 then returnS False
      else if ftyp frame = 3 then bindS (close_stream sid) go_on
      else if ftyp frame = 4 then
        bindS (collect_frame frame) (\<lambda>_.
        bindS (if \<not> end_stream_or_ack fl
               then bindS (readS (\<lambda>_. bindE (H2SettingsFrame True []) h2_to_bytes)) send_bytes
               else returnS ()) go_on)
      else if ftyp frame = 6 then
        bindS (if \<not> end_stream_or_ack fl
               then bindS (readS (\<lambda>_. bindE (H2PingFrame True (take 8 (payload frame))) h2_to_bytes)) send_bytes
               else returnS ()) go_on
      else if ftyp frame = 7 then returnS True
      else bindS (collect_frame frame) go_on)"

text \<open>The inner loop, over the frames of one \<open>recvall\<close>, and the outer one.\<close>

fun handle_frames :: "h2_generic_frame list \<Rightarrow> (h2_connection, bool) action" where
  "handle_frames [] = returnS False"
| "handle_frames (frame # frames) =
     bindS (handle_frame frame) (\<lambda>returned. if returned then returnS True else handle_frames frames)"

partial_function (option) h2_loop :: "bytes \<Rightarrow> h2_connection \<Rightarrow> (unit result \<times> h2_connection) option" where
  "h2_loop bytes_recved c =
     (case bindS (readS (\<lambda>_. parse_generic_frames bytes_recved)) handle_frames c of
        (Inl e, c1) \<Rightarrow> Some (Inl e, c1)
      | (Inr returned, c1) \<Rightarrow>
          if returned then Some (Inr (), c1)
          else case recv_bytes c1 of
            (Inl e, c2) \<Rightarrow> Some (Inl e, c2)
          | (Inr b, c2) \<Rightarrow> h2_loop b c2)"

text \<open>The handler's variables start empty; the counter goes on.\<close>

definition open_h2 :: "connection \<Rightarrow> int \<Rightarrow> h2_connection" where
  "open_h2 c counter = connection.extend c \<lparr>streams_ending = {}, collected_frames = (\<lambda>_. None), frame_counter = counter\<rparr>"

definition send_settings :: "(h2_connection, unit) action" where
  "send_settings =
     on_OSError (bindS (readS (\<lambda>_. bindE (H2SettingsFrame False []) h2_to_bytes)) send_bytes) (returnS ())"

definition handle_h2_connection :: "bytes \<Rightarrow> h2_connection \<Rightarrow> (unit result \<times> h2_connection) option" where
  "handle_h2_connection bytes_recved c =
     (case send_settings c of
        (Inl e, c1) \<Rightarrow> Some (Inl e, c1)
      | (Inr _, c1) \<Rightarrow> h2_loop bytes_recved c1)"

definition H2_PREFACE :: bytes where
  "H2_PREFACE = ascii ''PRI * HTTP/2.0'' @ [CR, LF, CR, LF] @ ascii ''SM'' @ [CR, LF, CR, LF]"

definition handle_connection :: "connection \<Rightarrow> int \<Rightarrow> (unit result \<times> h2_connection) option" where
  "handle_connection c counter =
     (case recv_bytes c of
        (Inl e, c1) \<Rightarrow> Some (Inl e, open_h2 c1 counter)
      | (Inr preamble, c1) \<Rightarrow>
          if take (length H2_PREFACE) preamble = H2_PREFACE
          then handle_h2_connection (drop (length H2_PREFACE) preamble) (open_h2 c1 counter)
          else (case handle_h1_connection preamble c1 of (r, c2) \<Rightarrow> Some (r, open_h2 c2 counter)))"

section \<open>The HTTP/1 responses\<close>

text \<open>The response as a message.\<close>

definition echo_reply :: "bytes \<Rightarrow> http_response \<times> wire_body" where
  "echo_reply b =
     (\<lparr>res_version = ascii ''1.1'', res_code = ascii ''200'', res_reason = ascii ''OK'',
        res_headers = [(ascii ''Cache-Control'', ascii ''public, max-age=2592000''),
          (ascii ''Server'', ascii ''echo-python''), (ascii ''Content-Length'', decimal (length b))], res_body = b\<rparr>,
      Sized b)"

lemma echo_response_is_reply: "echo_response b = render_reply (echo_reply b)"
  by (simp add: echo_response_def echo_reply_def render_reply_def render_response_def render_headers_def
      crlf_lines_def ascii_def)

lemma echo_reply_delimited:
  assumes "int (length b) \<le> sys_maxsize"
  shows "delimited (fst (echo_reply b)) (snd (echo_reply b))"
proof -
  let ?d = "decimal (length b)"
  have fixed: "response_ok \<lparr>res_version = ascii ''1.1'', res_code = ascii ''200'', res_reason = ascii ''OK'',
      res_headers = hs, res_body = b\<rparr>" for hs
    by (simp add: response_ok_def token_def ascii_def not_space_def is_space_not_newline_def is_digit_def
        is_space_def)
  have plain: "list_all header_ok [(ascii ''Cache-Control'', ascii ''public, max-age=2592000''),
      (ascii ''Server'', ascii ''echo-python'')]" "header_ok (ascii ''Content-Length'', ascii ''0'')"
    by code_simp+
  then have headers: "list_all header_ok (res_headers (fst (echo_reply b)))"
    using digits_header [OF all_digits_decimal] by (simp add: echo_reply_def header_ok_def)
  have names: "lower (ascii ''Cache-Control'') \<notin> set [ascii ''content-length'', ascii ''transfer-encoding'', ascii ''content-encoding'']"
    "lower (ascii ''Server'') \<notin> set [ascii ''content-length'', ascii ''transfer-encoding'', ascii ''content-encoding'']"
    "lower (ascii ''Content-Length'') = ascii ''content-length''"
    "ascii ''content-length'' \<notin> set [ascii ''transfer-encoding'', ascii ''content-encoding'']"
    by code_simp+
  have "body_headers (res_headers (fst (echo_reply b))) None [] [] = Inr (Some (length b), [], [])"
    using names int_of_digits_decimal [OF assms] all_digits_decimal by (simp add: echo_reply_def)
  with fixed headers show ?thesis
    by (simp add: delimited_def echo_reply_def framed_def)
qed

text \<open>The loop echoes what it receives, piece by piece.\<close>

lemma h1_loop_echoes:
  "h1_loop b c = (r, c') \<Longrightarrow> SendFailed \<notin> set (outgoing (client c)) \<Longrightarrow>
    \<exists>pieces used. r = Inr () \<and> incoming (client c) = used @ incoming (client c') \<and>
      sent c' = sent c @ map echo_response pieces \<and> (RecvFailed \<in> set used \<or> concat pieces = b @ arrived used)"
proof (induction b c arbitrary: r c' rule: h1_loop.induct)
  case (1 b c)
  obtain c1 where c1: "send_bytes (echo_response b) c = (Inr (), c1)" and out: "SendFailed \<notin> set (outgoing (client c1))"
    using send_bytes_works [OF "1.prems"(2)] by blast
  then have sent: "sent c1 = sent c @ [echo_response b]" "incoming (client c1) = incoming (client c)"
    using send_bytes_fields [OF c1] by auto
  obtain r2 c2 where c2: "recv_bytes c1 = (r2, c2)" by fastforce
  then obtain used where used: "incoming (client c1) = used @ incoming (client c2)" "c2 = c1\<lparr>client := client c2\<rparr>"
    and r2: "r2 = Inl OSError \<and> RecvFailed \<in> set used \<or> r2 = Inr (arrived used) \<and> RecvFailed \<notin> set used"
    by (rule recv_bytes_fields)
  have sent2: "sent c2 = sent c1"
    using used(2) by (metis connection.select_convs(2) connection.surjective connection.update_convs(1))
  have both: "bindS (send_bytes (echo_response b)) (\<lambda>_. recv_bytes) c = (r2, c2)"
    using c1 c2 by (simp add: bindS_def)
  show ?case
  proof (cases "r2 = Inr (arrived used) \<and> arrived used \<noteq> []")
    case True
    have "outgoing (client c2) = outgoing (client c1)"
      using c2 by (auto simp: recv_bytes_def recvall_def split: prod.splits)
    with out have out2: "SendFailed \<notin> set (outgoing (client c2))" by simp
    have loop: "h1_loop (arrived used) c2 = (r, c')"
      using "1.prems"(1) True both by (simp add: h1_loop.simps [of b c])
    obtain pieces used' where "r = Inr ()" "incoming (client c2) = used' @ incoming (client c')"
      "sent c' = sent c2 @ map echo_response pieces" "RecvFailed \<in> set used' \<or> concat pieces = arrived used @ arrived used'"
      using "1.IH" [OF both [symmetric] _ _ loop out2] True by auto
    with used r2 sent sent2 True show ?thesis
      by (intro exI [of _ "b # pieces"] exI [of _ "used @ used'"]) auto
  next
    case False
    with r2 have "h1_loop b c = (Inr (), c2)"
      using both by (auto simp: h1_loop.simps [of b c])
    with "1.prems"(1) have "r = Inr ()" "c' = c2" by simp_all
    with used r2 sent sent2 False show ?thesis
      by (intro exI [of _ "[b]"] exI [of _ used]) auto
  qed
qed

section \<open>What an HTTP/2 connection remembers\<close>

text \<open>The collected frames as one log: the frames in the order they arrived, without those of closed streams.
  A connection stores the log stream by stream.\<close>

type_synonym frame_log = "(int \<times> h2_generic_frame) list"

definition of_stream :: "int \<Rightarrow> int \<times> h2_generic_frame \<Rightarrow> bool" where
  "of_stream sid e \<longleftrightarrow> stream_id (snd e) = sid"

definition some_if_any :: "'a list \<Rightarrow> 'a list option" where
  "some_if_any xs = (if xs = [] then None else Some xs)"

definition tracks :: "h2_connection \<Rightarrow> frame_log \<Rightarrow> bool" where
  "tracks c log \<longleftrightarrow>
     sorted_wrt (<) (map fst log) \<and> (\<forall>n \<in> fst ` set log. n < frame_counter c) \<and> (\<forall>f \<in> snd ` set log. wire_frame f) \<and>
     (\<forall>sid. collected_frames c sid = some_if_any (filter (of_stream sid) log)) \<and>
     streams_ending c \<subseteq> stream_id ` snd ` set log"

lemma tracks_cong:
  "tracks c log \<Longrightarrow> collected_frames c' = collected_frames c \<Longrightarrow> streams_ending c' \<subseteq> streams_ending c \<Longrightarrow>
    frame_counter c \<le> frame_counter c' \<Longrightarrow> tracks c' log"
  unfolding tracks_def by (auto intro: less_le_trans)

lemma some_if_any_None [simp]: "some_if_any xs = None \<longleftrightarrow> xs = []"
  by (simp add: some_if_any_def)

lemma tracks_collect:
  assumes "tracks c log" and "wire_frame f" and "collect_frame f c = (r, c')"
  shows "r = Inr ()" and "tracks c' (log @ [(frame_counter c, f)])" and "connection.truncate c' = connection.truncate c"
    and "streams_ending c' = streams_ending c"
proof -
  let ?log = "log @ [(frame_counter c, f)]"
  let ?frames = "(collected_frames c)(stream_id f \<mapsto> filter (of_stream (stream_id f)) ?log)"
  have same: "collected_frames c sid = some_if_any (filter (of_stream sid) log)" for sid
    using assms(1) by (simp add: tracks_def)
  have old: "(case collected_frames c (stream_id f) of None \<Rightarrow> [] | Some l \<Rightarrow> l) = filter (of_stream (stream_id f)) log"
    by (simp add: same some_if_any_def)
  then have step: "r = Inr ()" "c' = c\<lparr>collected_frames := ?frames, frame_counter := frame_counter c + 1\<rparr>"
    using assms(3) by (auto simp: collect_frame_def Let_def of_stream_def domIff split: option.splits)
  then show "r = Inr ()" "connection.truncate c' = connection.truncate c" "streams_ending c' = streams_ending c"
    by (simp_all add: connection.truncate_def)
  have "collected_frames c' sid = some_if_any (filter (of_stream sid) ?log)" for sid
    using same step by (simp add: some_if_any_def of_stream_def)
  with assms(1,2) step show "tracks c' ?log"
    by (auto simp: tracks_def sorted_wrt_append)
qed

lemma filter_other_streams: "filter (of_stream a) (filter (\<lambda>e. \<not> of_stream b e) log) =
    (if a = b then [] else filter (of_stream a) log)"
  by (auto simp: of_stream_def intro!: filter_cong)

lemma tracks_close:
  assumes "tracks c log" and "close_stream sid c = (r, c')"
  shows "r = (if \<exists>e \<in> set log. of_stream sid e then Inr () else Inl KeyError)"
    and "tracks c' (filter (\<lambda>e. \<not> of_stream sid e) log)" and "connection.truncate c' = connection.truncate c"
proof -
  have same: "collected_frames c a = some_if_any (filter (of_stream a) log)" for a
    using assms(1) by (simp add: tracks_def)
  let ?log = "filter (\<lambda>e. \<not> of_stream sid e) log"
  have sorted: "sorted_wrt (<) (map fst ?log)"
    using assms(1) by (auto simp: tracks_def sorted_wrt_map intro: sorted_wrt_filter)
  show "r = (if \<exists>e \<in> set log. of_stream sid e then Inr () else Inl KeyError)"
    using assms(2) by (auto simp: close_stream_def same filter_empty_conv split: if_splits)
  show "connection.truncate c' = connection.truncate c"
    using assms(2) by (auto simp: close_stream_def connection.truncate_def split: if_splits)
  show "tracks c' ?log"
  proof (cases "filter (of_stream sid) log = []")
    case True
    then have "?log = log"
      by (auto simp: filter_id_conv filter_empty_conv)
    with assms True show ?thesis
      by (simp add: close_stream_def same)
  next
    case False
    then have c': "c' = c\<lparr>collected_frames := (collected_frames c)(sid := None), streams_ending := streams_ending c - {sid}\<rparr>"
      using assms(2) by (auto simp: close_stream_def same split: if_splits)
    have "collected_frames c' a = some_if_any (filter (of_stream a) ?log)" for a
      unfolding filter_other_streams by (simp add: c' same some_if_any_def)
    moreover have "streams_ending c' \<subseteq> stream_id ` snd ` set ?log"
    proof
      fix a assume "a \<in> streams_ending c'"
      then have "a \<noteq> sid" "a \<in> streams_ending c" by (simp_all add: c')
      with assms(1) obtain e where "e \<in> set log" "stream_id (snd e) = a"
        by (fastforce simp: tracks_def)
      with \<open>a \<noteq> sid\<close> show "a \<in> stream_id ` snd ` set ?log"
        by (force simp: of_stream_def)
    qed
    ultimately show ?thesis
      using assms(1) sorted by (auto simp: tracks_def c')
  qed
qed

section \<open>The bytes of a response\<close>

definition wire :: "h2_generic_frame \<Rightarrow> bytes" where
  "wire f = projr (H2GenericFrame_to_bytes f)"

definition status_200 :: bytes where
  "status_200 = [0x00, 7] @ ascii '':status'' @ [3] @ ascii ''200''"

text \<open>A HEADERS frame with status 200, and a DATA frame with the frames as they were on the wire. There is none
  on stream 0, and none with more data than a frame can hold.\<close>

definition response_spec :: "int \<Rightarrow> h2_generic_frame list \<Rightarrow> bytes result" where
  "response_spec sid frames =
     (let data = concat (map wire frames) in
      if sid = 0 \<or> 2 ^ 24 \<le> int (length data) then Inl H2Error
      else Inr ([0, 0, 13, 1, 4] @ be_bytes 4 sid @ status_200 @
                be_bytes 3 (int (length data)) @ [0, 1] @ be_bytes 4 sid @ data))"

lemma wire_prints:
  assumes "wire_frame f"
  shows "H2GenericFrame_to_bytes f = Inr (wire f)"
proof -
  obtain bs where "H2GenericFrame_to_bytes f = Inr bs"
    using assms wire_frame_prints [of f] by (auto simp: wire_frame_def)
  then show ?thesis by (simp add: wire_def)
qed

lemma wire_frames_print: "\<forall>f \<in> set frames. wire_frame f \<Longrightarrow> mapE H2GenericFrame_to_bytes frames = Inr (map wire frames)"
  by (rule mapE_Inr_map) (simp add: wire_prints)

lemma status_field [simp]: "hpack_field_to_bytes
    (HPACKLiteralHeaderField (HPACKString (ascii '':status'')) (HPACKString (ascii ''200'')) UNCACHED) = Inr status_200"
  by code_simp

lemma plain_flags:
  "H2Flags_to_bytes (H2Flags\<lparr>end_stream_or_ack := True, padded := False\<rparr>) = Inr [1]"
  "H2Flags_to_bytes (H2Flags\<lparr>priority := False, padded := False, end_stream_or_ack := False, end_headers := True\<rparr>) = Inr [4]"
  "H2Flags_to_bytes (H2Flags\<lparr>end_stream_or_ack := True\<rparr>) = Inr [1]"
  by code_simp+

text \<open>A frame on a stream that is in range, with its reserved bit clear.\<close>

lemma plain_frame_bytes:
  assumes "0 \<le> sid" and "sid < 2 ^ 31" and "H2Flags_to_bytes fl = Inr fs" and "0 \<le> ty" and "ty < 256"
  shows "bindE (H2GenericFrame ty fl False sid pl) H2GenericFrame_to_bytes =
    (if 2 ^ 24 \<le> int (length pl) then Inl H2Error
     else Inr (be_bytes 3 (int (length pl)) @ [word_of_int ty] @ fs @ be_bytes 4 sid @ pl))"
proof -
  have "check_stream_id sid True False = Inr ()" and "join31 False sid = sid"
    using assms(1,2) by (simp_all add: join31_eq)
  note checked = this
  show ?thesis
    using assms by (simp add: checked H2GenericFrame_def push_bit_of_1 H2GenericFrame_to_bytes_def int_to_bytes_def)
qed

lemma response_bytes_spec:
  assumes "\<forall>f \<in> set frames. wire_frame f" and "0 \<le> sid" and "sid < 2 ^ 31"
  shows "response_bytes sid frames = response_spec sid frames"
proof (cases "sid = 0")
  case True
  then show ?thesis
    by (simp add: response_bytes_def status_field [simplified] H2HeadersFrame_def response_spec_def check_stream_id_def)
next
  case False
  let ?data = "concat (map wire frames)"
  have sid: "check_stream_id sid False False = Inr ()"
    using False assms(2,3) by simp
  have "be_bytes 3 13 = [0, 0, 13]" "length status_200 = 13"
    by (simp_all add: status_200_def eval_nat_numeral)
  then have headers: "h2_to_bytes (HeadersFrame True False sid None None None status_200 None) =
      Inr ([0, 0, 13, 1, 4] @ be_bytes 4 sid @ status_200)"
    using plain_frame_bytes [OF assms(2,3) plain_flags(2), of 1 status_200]
    by (simp add: h2_to_bytes_def H2HeadersFrame_to_generic_def add_padding_def headers_priority_def)
  have data: "h2_to_bytes (DataFrame True sid ?data None) =
      (if 2 ^ 24 \<le> int (length ?data) then Inl H2Error
       else Inr (be_bytes 3 (int (length ?data)) @ [0, 1] @ be_bytes 4 sid @ ?data))"
    using plain_frame_bytes [OF assms(2,3) plain_flags(1), of 0 ?data]
    by (simp add: h2_to_bytes_def H2DataFrame_to_generic_def add_padding_def)
  have checked: "check_priority None None None = Inr ()" "check_pad_length None = Inr ()"
    by (simp_all add: check_priority_def check_pad_length_def)
  have "response_bytes sid frames =
      bindE (mapE h2_to_bytes [HeadersFrame True False sid None None None status_200 None, DataFrame True sid ?data None])
        (\<lambda>bs. Inr (concat bs))"
    unfolding response_bytes_def status_field wire_frames_print [OF assms(1)]
    by (simp add: sid checked H2HeadersFrame_def H2DataFrame_def del: mapE.simps)
  then show ?thesis
    using False headers data by (simp add: response_spec_def Let_def)
qed

section \<open>The abstract echo server\<close>

text \<open>What the server does on a frame, as a function of the live frames: those that arrived, without the frames of
  streams that are closed. It does nothing, ends with an error, sends a response whatever comes of it, sends
  an acknowledgement, or leaves.\<close>

datatype reaction = Quiet | Raise exn | Reply bytes | Ack bytes | Leave

definition drop_stream :: "int \<Rightarrow> h2_generic_frame list \<Rightarrow> h2_generic_frame list" where
  "drop_stream sid live = filter (\<lambda>f. stream_id f \<noteq> sid) live"

definition answer :: "int \<Rightarrow> h2_generic_frame list \<Rightarrow> reaction \<times> h2_generic_frame list" where
  "answer sid live =
     (case response_spec sid (filter (\<lambda>f. stream_id f = sid \<or> stream_id f = 0) live) of
        Inl e \<Rightarrow> (Raise e, live)
      | Inr b \<Rightarrow> (Reply b, drop_stream sid live))"

definition react :: "h2_generic_frame \<Rightarrow> h2_generic_frame list \<Rightarrow> reaction \<times> h2_generic_frame list" where
  "react f live =
     (let sid = stream_id f; more = live @ [f]; ends = end_stream_or_ack (flags f) in
      if ftyp f = 0 then (if ends then answer sid more else (Quiet, more))
      else if ftyp f = 1 then (if end_headers (flags f) \<and> ends then answer sid more else (Quiet, more))
      else if ftyp f = 2 \<or> ftyp f = 8 then (Quiet, live)
      else if ftyp f = 3 then
        (if \<exists>g \<in> set live. stream_id g = sid then (Quiet, drop_stream sid live) else (Raise KeyError, live))
      else if ftyp f = 4 then (if ends then Quiet else Ack [0, 0, 0, 4, 1, 0, 0, 0, 0], more)
      else if ftyp f = 6 then
        (if ends then Quiet else if length (payload f) < 8 then Raise H2Error
         else Ack ([0, 0, 8, 6, 1, 0, 0, 0, 0] @ take 8 (payload f)), live)
      else if ftyp f = 7 then (Leave, live)
      else (Quiet, more))"

fun perform :: "reaction \<Rightarrow> (connection, bool) action" where
  "perform Quiet = returnS False"
| "perform (Raise e) = raiseS e"
| "perform (Reply b) = bindS (on_OSError (send_bytes b) (returnS ())) (\<lambda>_. returnS False)"
| "perform (Ack b) = bindS (send_bytes b) (\<lambda>_. returnS False)"
| "perform Leave = returnS True"

section \<open>The echo server does what the abstract one does\<close>

lemma relevant_frames:
  assumes "sorted_wrt (<) (map fst log)" and "sid \<noteq> 0"
  shows "sort_key fst (filter (of_stream sid) log @ filter (of_stream 0) log) =
    filter (\<lambda>e. of_stream sid e \<or> of_stream 0 e) log"
proof (rule sort_key_inj_key_eq)
  have "distinct (map fst log)"
    using assms(1) strict_sorted_iff by blast
  then show "inj_on fst (set (filter (of_stream sid) log @ filter (of_stream 0) log))"
    by (auto simp: distinct_map inj_on_def)
  have "mset (filter P log) + mset (filter Q log) = mset (filter (\<lambda>e. P e \<or> Q e) log)"
    if "\<And>e. \<not> (P e \<and> Q e)" for P Q :: "int \<times> h2_generic_frame \<Rightarrow> bool" and log
    using that by (induction log) auto
  with assms(2) show "mset (filter (of_stream sid) log @ filter (of_stream 0) log) =
      mset (filter (\<lambda>e. of_stream sid e \<or> of_stream 0 e) log)"
    by (simp add: of_stream_def)
  have "sorted_wrt (<) (map fst (filter (\<lambda>e. of_stream sid e \<or> of_stream 0 e) log))"
    using assms(1) by (auto simp: sorted_wrt_map intro: sorted_wrt_filter)
  then show "sorted (map fst (filter (\<lambda>e. of_stream sid e \<or> of_stream 0 e) log))"
    using strict_sorted_iff by blast
qed

lemma truncate_send:
  "send_bytes b (connection.truncate c) = (case send_bytes b c of (r, c') \<Rightarrow> (r, connection.truncate c'))"
  by (auto simp: send_bytes_def connection.truncate_def split: sum.splits prod.splits)

lemma send_keeps_tracks: "send_bytes b c = (r, c') \<Longrightarrow> tracks c log \<Longrightarrow> tracks c' log"
  by (auto simp: send_bytes_def tracks_def split: sum.splits prod.splits)

lemma map_snd_filter: "map snd (filter (\<lambda>e. P (snd e)) log) = filter P (map snd log)"
  by (simp add: filter_map comp_def)

lemma drop_stream_log: "map snd (filter (\<lambda>e. \<not> of_stream sid e) log) = drop_stream sid (map snd log)"
  using map_snd_filter [of "\<lambda>f. stream_id f \<noteq> sid" log] by (simp add: of_stream_def drop_stream_def)

definition matches :: "(h2_connection, bool) action \<Rightarrow> h2_connection \<Rightarrow> reaction \<times> h2_generic_frame list \<Rightarrow> bool" where
  "matches m c rl \<longleftrightarrow>
     (case m c of (r, c') \<Rightarrow>
        perform (fst rl) (connection.truncate c) = (r, connection.truncate c') \<and>
        (\<exists>log. tracks c' log \<and> map snd log = snd rl))"

lemma matchesI:
  assumes "m c = (r, c')" and "perform re (connection.truncate c) = (r, connection.truncate c')"
    and "tracks c' log" and "map snd log = live"
  shows "matches m c (re, live)"
  using assms by (auto simp: matches_def)

lemma tracks_wire: "tracks c log \<Longrightarrow> \<forall>f \<in> set (map snd log). wire_frame f"
  by (simp add: tracks_def)

lemma response_of_log:
  assumes "tracks c log" and "0 \<le> sid" and "sid < 2 ^ 31"
  shows "response_bytes sid (map snd (sort_key fst
      (case collected_frames c 0 of None \<Rightarrow> filter (of_stream sid) log
       | Some control \<Rightarrow> filter (of_stream sid) log @ control))) =
    response_spec sid (filter (\<lambda>f. stream_id f = sid \<or> stream_id f = 0) (map snd log))" (is "?lhs = ?rhs")
proof -
  let ?frames = "filter (of_stream sid) log @ filter (of_stream 0) log"
  have "collected_frames c 0 = some_if_any (filter (of_stream 0) log)"
    using assms(1) by (simp add: tracks_def)
  then have "?lhs = response_bytes sid (map snd (sort_key fst ?frames))"
    by (simp add: some_if_any_def)
  also have "\<dots> = response_spec sid (map snd (sort_key fst ?frames))"
    using assms tracks_wire [OF assms(1)] by (intro response_bytes_spec) auto
  also have "\<dots> = ?rhs"
  proof (cases "sid = 0")
    case True
    then show ?thesis by (simp add: response_spec_def)
  next
    case False
    then have "sort_key fst ?frames = filter (\<lambda>e. of_stream sid e \<or> of_stream 0 e) log"
      using assms(1) by (intro relevant_frames) (simp_all add: tracks_def)
    then show ?thesis
      using map_snd_filter [of "\<lambda>f. stream_id f = sid \<or> stream_id f = 0" log] by (simp add: of_stream_def)
  qed
  finally show ?thesis .
qed

lemma respond_matches:
  assumes "tracks c log" and "0 \<le> sid" and "sid < 2 ^ 31" and "\<exists>e \<in> set log. of_stream sid e"
  shows "matches (bindS (respond_and_close_stream sid) (\<lambda>_. returnS False)) c (answer sid (map snd log))"
proof -
  have "collected_frames c sid = some_if_any (filter (of_stream sid) log)"
    using assms(1) by (simp add: tracks_def)
  then have frames: "collected_frames c sid = Some (filter (of_stream sid) log)"
    using assms(4) by (auto simp: some_if_any_def filter_empty_conv)
  let ?spec = "response_spec sid (filter (\<lambda>f. stream_id f = sid \<or> stream_id f = 0) (map snd log))"
  have respond: "respond_and_close_stream sid c =
      bindS (on_OSError (bindS (readS (\<lambda>_. ?spec)) send_bytes) (returnS ())) (\<lambda>_. close_stream sid) c"
    using response_of_log [OF assms(1-3)] by (simp add: respond_and_close_stream_def frames Let_def)
  show ?thesis
  proof (cases ?spec)
    case (Inl e)
    then have "e = H2Error"
      by (auto simp: response_spec_def Let_def split: if_splits)
    with Inl have "bindS (respond_and_close_stream sid) (\<lambda>_. returnS False) c = (Inl e, c)"
      by (simp add: bindS_def respond on_OSError_def)
    then have "matches (bindS (respond_and_close_stream sid) (\<lambda>_. returnS False)) c (Raise e, map snd log)"
      using assms(1) by (intro matchesI [where log = log]) simp_all
    then show ?thesis
      by (simp add: answer_def Inl)
  next
    case (Inr b)
    obtain r1 c1 where send: "send_bytes b c = (r1, c1)" by fastforce
    then have r1: "r1 = Inr () \<or> r1 = Inl OSError"
      using send_bytes_fields by blast
    have tracks1: "tracks c1 log"
      using send_keeps_tracks [OF send assms(1)] .
    obtain r2 c2 where close: "close_stream sid c1 = (r2, c2)" by fastforce
    have r2: "r2 = Inr ()"
      using tracks_close(1) [OF tracks1 close] assms(4) by simp
    have "bindS (respond_and_close_stream sid) (\<lambda>_. returnS False) c = (Inr False, c2)"
      using r1 Inr send close r2 by (auto simp: bindS_def respond on_OSError_def)
    moreover have "perform (Reply b) (connection.truncate c) = (Inr False, connection.truncate c2)"
      using r1 send tracks_close(3) [OF tracks1 close] by (auto simp: bindS_def on_OSError_def truncate_send)
    moreover have "map snd (filter (\<lambda>e. \<not> of_stream sid e) log) = drop_stream sid (map snd log)"
      by (rule drop_stream_log)
    ultimately have "matches (bindS (respond_and_close_stream sid) (\<lambda>_. returnS False)) c
        (Reply b, drop_stream sid (map snd log))"
      using tracks_close(2) [OF tracks1 close] by (intro matchesI)
    then show ?thesis
      by (simp add: answer_def Inr)
  qed
qed

lemma quiet_matches: "tracks c log \<Longrightarrow> matches (returnS False) c (Quiet, map snd log)"
  by (auto simp: matches_def)

lemma ack_matches:
  assumes "tracks c log" and "acknowledgement = Inr b"
  shows "matches (bindS (bindS (readS (\<lambda>_. acknowledgement)) send_bytes) (\<lambda>_. returnS False)) c (Ack b, map snd log)"
proof -
  obtain r c1 where send: "send_bytes b c = (r, c1)" by fastforce
  then have r: "r = Inr () \<or> r = Inl OSError"
    using send_bytes_fields by blast
  then have "bindS (bindS (readS (\<lambda>_. acknowledgement)) send_bytes) (\<lambda>_. returnS False) c =
      ((case r of Inl e \<Rightarrow> Inl e | Inr _ \<Rightarrow> Inr False), c1)"
    "perform (Ack b) (connection.truncate c) =
      ((case r of Inl e \<Rightarrow> Inl e | Inr _ \<Rightarrow> Inr False), connection.truncate c1)"
    using send assms(2) by (auto simp: bindS_def truncate_send)
  then show ?thesis
    using send_keeps_tracks [OF send assms(1)] by (intro matchesI) simp_all
qed

lemma collect_then:
  assumes "tracks c log" and "wire_frame f"
    and "\<And>c1 log1. tracks c1 log1 \<Longrightarrow> map snd log1 = map snd log @ [f] \<Longrightarrow> matches m c1 rl"
  shows "matches (bindS (collect_frame f) (\<lambda>_. m)) c rl"
proof -
  obtain r c1 where collect: "collect_frame f c = (r, c1)" by fastforce
  note after = tracks_collect [OF assms(1,2) collect]
  have "matches m c1 rl"
    using assms(3) [OF after(2)] by simp
  then show ?thesis
    using after(1,3) collect by (simp add: matches_def bindS_def)
qed

lemma acknowledgements:
  "bindE (H2SettingsFrame True []) h2_to_bytes = Inr [0, 0, 0, 4, 1, 0, 0, 0, 0]"
  "length (payload f) < 8 \<Longrightarrow> bindE (H2PingFrame True (take 8 (payload f))) h2_to_bytes = Inl H2Error"
  "8 \<le> length (payload f) \<Longrightarrow> bindE (H2PingFrame True (take 8 (payload f))) h2_to_bytes =
     Inr ([0, 0, 8, 6, 1, 0, 0, 0, 0] @ take 8 (payload f))"
proof -
  show "bindE (H2SettingsFrame True []) h2_to_bytes = Inr [0, 0, 0, 4, 1, 0, 0, 0, 0]"
    by code_simp
  show "length (payload f) < 8 \<Longrightarrow> bindE (H2PingFrame True (take 8 (payload f))) h2_to_bytes = Inl H2Error"
    by (simp add: H2PingFrame_def raise_if_def)
  show "bindE (H2PingFrame True (take 8 (payload f))) h2_to_bytes =
     Inr ([0, 0, 8, 6, 1, 0, 0, 0, 0] @ take 8 (payload f))" if "8 \<le> length (payload f)"
  proof -
    have "be_bytes 3 8 = [0, 0, 8]" "be_bytes 4 0 = [0, 0, 0, 0]"
      by (simp_all add: eval_nat_numeral)
    then show ?thesis
      using that plain_frame_bytes [of 0 "H2Flags\<lparr>end_stream_or_ack := True\<rparr>" "[1]" 6 "take 8 (payload f)"]
      by (simp add: H2PingFrame_def h2_to_bytes_def H2PingFrame_to_generic_def plain_flags)
  qed
qed

lemma more_has_frame:
  "map snd log1 = map snd log @ [f] \<Longrightarrow> \<exists>e \<in> set log1. of_stream (stream_id f) e"
proof -
  assume "map snd log1 = map snd log @ [f]"
  then have "f \<in> set (map snd log1)" by simp
  then show ?thesis by (auto simp: of_stream_def)
qed

lemma kept_matches:
  assumes "tracks c log" and "wire_frame f"
  shows "matches (bindS (collect_frame f) (\<lambda>_. returnS False)) c (Quiet, map snd log @ [f])"
  by (rule collect_then [OF assms]) (metis quiet_matches)

lemma answered_matches:
  assumes "tracks c log" and "wire_frame f"
  shows "matches (bindS (collect_frame f) (\<lambda>_. bindS (respond_and_close_stream (stream_id f)) (\<lambda>_. returnS False))) c
    (answer (stream_id f) (map snd log @ [f]))"
proof (rule collect_then [OF assms])
  fix c1 log1 assume 1: "tracks c1 log1" "map snd log1 = map snd log @ [f]"
  have "0 \<le> stream_id f" "stream_id f < 2 ^ 31"
    using assms(2) by (simp_all add: wire_frame_def)
  from respond_matches [OF 1(1) this more_has_frame [OF 1(2)]] 1(2)
  show "matches (bindS (respond_and_close_stream (stream_id f)) (\<lambda>_. returnS False)) c1
      (answer (stream_id f) (map snd log @ [f]))"
    by simp
qed

lemma ending_matches:
  assumes "tracks c log" and "wire_frame f"
  shows "matches (bindS (collect_frame f) (\<lambda>_. bindS
      (modifyS (\<lambda>c. c\<lparr>streams_ending := insert (stream_id f) (streams_ending c)\<rparr>)) (\<lambda>_. returnS False))) c
    (Quiet, map snd log @ [f])"
proof (rule collect_then [OF assms])
  fix c1 log1 assume 1: "tracks c1 log1" "map snd log1 = map snd log @ [f]"
  obtain e where "e \<in> set log1" "stream_id (snd e) = stream_id f"
    using more_has_frame [OF 1(2)] by (auto simp: of_stream_def)
  then have "stream_id f \<in> stream_id ` snd ` set log1"
    by (metis image_eqI)
  with 1(1) have "tracks (c1\<lparr>streams_ending := insert (stream_id f) (streams_ending c1)\<rparr>) log1"
    by (simp add: tracks_def)
  then show "matches (bindS (modifyS (\<lambda>c. c\<lparr>streams_ending := insert (stream_id f) (streams_ending c)\<rparr>)) (\<lambda>_. returnS False))
      c1 (Quiet, map snd log @ [f])"
    using 1(2) by (auto simp: matches_def bindS_def connection.truncate_def)
qed

lemma closing_matches:
  assumes "tracks c log"
  shows "matches (bindS (close_stream sid) (\<lambda>_. returnS False)) c
    (if \<exists>g \<in> set (map snd log). stream_id g = sid then (Quiet, drop_stream sid (map snd log)) else (Raise KeyError, map snd log))"
proof -
  obtain r c1 where close: "close_stream sid c = (r, c1)" by fastforce
  have "(\<exists>e \<in> set log. of_stream sid e) = (\<exists>g \<in> set (map snd log). stream_id g = sid)"
    by (auto simp: of_stream_def)
  moreover have "c1 = c" if "r = Inl KeyError"
    using close that by (auto simp: close_stream_def split: if_splits)
  ultimately show ?thesis
    using tracks_close [OF assms close] close assms drop_stream_log [of sid log] by (auto simp: matches_def bindS_def)
qed

lemma settings_matches:
  assumes "tracks c log" and "wire_frame f"
  shows "matches (bindS (collect_frame f) (\<lambda>_. bindS (bindS (readS (\<lambda>_. bindE (H2SettingsFrame True []) h2_to_bytes))
      send_bytes) (\<lambda>_. returnS False))) c (Ack [0, 0, 0, 4, 1, 0, 0, 0, 0], map snd log @ [f])"
  by (rule collect_then [OF assms]) (metis ack_matches acknowledgements(1))

lemma ping_matches:
  assumes "tracks c log"
  shows "matches (bindS (bindS (readS (\<lambda>_. bindE (H2PingFrame True (take 8 (payload f))) h2_to_bytes)) send_bytes)
      (\<lambda>_. returnS False)) c
    (if length (payload f) < 8 then Raise H2Error else Ack ([0, 0, 8, 6, 1, 0, 0, 0, 0] @ take 8 (payload f)), map snd log)"
proof (cases "length (payload f) < 8")
  case True
  then show ?thesis
    unfolding acknowledgements(2) [OF True] using assms by (auto simp: matches_def bindS_def)
next
  case False
  then show ?thesis using ack_matches [OF assms acknowledgements(3) [of f]] by (simp del: take_all)
qed

lemma handle_frame_matches:
  assumes c: "tracks c log" and f: "wire_frame f"
  shows "matches (handle_frame f) c (react f (map snd log))"
proof -
  have return: "bindS (returnS ()) (\<lambda>_. m) = m" for m :: "(h2_connection, bool) action"
    by (simp add: bindS_def fun_eq_iff)
  note unfolded = handle_frame_def react_def return Let_def
  note kept = kept_matches [OF c f] and answered = answered_matches [OF c f]
  consider "ftyp f = 0" | "ftyp f = 1" | "ftyp f = 2 \<or> ftyp f = 8" | "ftyp f = 3" | "ftyp f = 4" | "ftyp f = 6"
    | "ftyp f = 7" | "ftyp f \<notin> {0, 1, 2, 3, 4, 6, 7, 8}"
    by auto
  then show ?thesis
  proof cases
    case 1
    then show ?thesis using answered kept by (simp add: unfolded)
  next
    case 2
    then show ?thesis
      using answered kept ending_matches [OF c f]
      by (cases "end_stream_or_ack (flags f)"; cases "end_headers (flags f)") (simp_all add: unfolded)
  next
    case 3
    then show ?thesis using quiet_matches [OF c] by (auto simp: unfolded)
  next
    case 4
    then show ?thesis using closing_matches [OF c, of "stream_id f"] by (simp add: unfolded)
  next
    case 5
    then show ?thesis using kept settings_matches [OF c f] by (simp add: unfolded)
  next
    case 6
    then show ?thesis
      using quiet_matches [OF c] ping_matches [OF c, of f]
      by (cases "end_stream_or_ack (flags f)") (simp_all add: unfolded del: take_all)
  next
    case 7
    then show ?thesis using c by (auto simp: unfolded matches_def)
  next
    case 8
    then show ?thesis using kept by (simp add: unfolded)
  qed
qed

end
