(* ===== verification/EchoLoop.thy ===== *)
theory EchoLoop
  imports EchoServer
begin

text \<open>
  \<open>tools/echo_server.py\<close> over a whole connection: the handler does what the abstract server does, frame by
  frame and until it returns, if it returns; when it does not; what its responses mean to a client; and how
  the HTTP/1 side of it works together with a transducer of \<open>tools/targets.py\<close>.
\<close>

section \<open>The abstract server over a connection\<close>

type_synonym abstract_h2 = "connection \<times> h2_generic_frame list"

definition spec_frame :: "h2_generic_frame \<Rightarrow> (abstract_h2, bool) action" where
  "spec_frame f a =
     (let (reaction, live) = react f (snd a); (r, c) = perform reaction (fst a) in (r, (c, live)))"

fun spec_frames :: "h2_generic_frame list \<Rightarrow> (abstract_h2, bool) action" where
  "spec_frames [] = returnS False"
| "spec_frames (f # fs) = bindS (spec_frame f) (\<lambda>returned. if returned then returnS True else spec_frames fs)"

partial_function (option) spec_loop :: "bytes \<Rightarrow> abstract_h2 \<Rightarrow> (unit result \<times> abstract_h2) option" where
  "spec_loop received a =
     (case bindS (readS (\<lambda>_. parse_generic_frames received)) spec_frames a of
        (Inl e, a1) \<Rightarrow> Some (Inl e, a1)
      | (Inr returned, a1) \<Rightarrow>
          if returned then Some (Inr (), a1)
          else case recv_bytes (fst a1) of
            (Inl e, c) \<Rightarrow> Some (Inl e, (c, snd a1))
          | (Inr b, c) \<Rightarrow> spec_loop b (c, snd a1))"

text \<open>The client sees an empty SETTINGS frame first.\<close>

definition spec_h2 :: "bytes \<Rightarrow> connection \<Rightarrow> (unit result \<times> connection) option" where
  "spec_h2 received c =
     (let c1 = snd (send_bytes [0, 0, 0, 4, 0, 0, 0, 0, 0] c)
      in map_option (\<lambda>(r, a). (r, fst a)) (spec_loop received (c1, [])))"

definition spec_connection :: "connection \<Rightarrow> (unit result \<times> connection) option" where
  "spec_connection c =
     (case recv_bytes c of
        (Inl e, c1) \<Rightarrow> Some (Inl e, c1)
      | (Inr b, c1) \<Rightarrow>
          if take 24 b = H2_PREFACE then spec_h2 (drop 24 b) c1 else Some (handle_h1_connection b c1))"

section \<open>Simulation\<close>

definition sim :: "h2_connection \<Rightarrow> abstract_h2 \<Rightarrow> bool" where
  "sim c a \<longleftrightarrow> connection.truncate c = fst a \<and> (\<exists>log. tracks c log \<and> map snd log = snd a)"

lemma handle_frame_sim:
  assumes "handle_frame f c = (r, c')" and "wire_frame f" and "sim c a"
  shows "\<exists>a'. spec_frame f a = (r, a') \<and> sim c' a'"
proof -
  obtain log where log: "tracks c log" "map snd log = snd a" and c: "connection.truncate c = fst a"
    using assms(3) by (auto simp: sim_def)
  obtain reaction live where re: "react f (snd a) = (reaction, live)" by fastforce
  have "matches (handle_frame f) c (reaction, live)"
    using handle_frame_matches [OF log(1) assms(2)] log(2) re by simp
  with assms(1) c re show ?thesis
    by (auto simp: matches_def spec_frame_def sim_def)
qed

lemma handle_frames_sim:
  "handle_frames fs c = (r, c') \<Longrightarrow> \<forall>f \<in> set fs. wire_frame f \<Longrightarrow> sim c a \<Longrightarrow>
    \<exists>a'. spec_frames fs a = (r, a') \<and> sim c' a'"
proof (induction fs arbitrary: c a)
  case (Cons f fs)
  obtain r1 c1 where first: "handle_frame f c = (r1, c1)" by fastforce
  then obtain a1 where a1: "spec_frame f a = (r1, a1)" "sim c1 a1"
    using handle_frame_sim [OF first _ Cons.prems(3)] Cons.prems(2) by auto
  show ?case
  proof (cases "r1 = Inr False")
    case True
    with Cons first a1 show ?thesis by (simp add: bindS_def)
  next
    case False
    with Cons.prems(1) first a1 show ?thesis
      by (cases r1) (auto simp: bindS_def simp del: split_paired_Ex split: if_splits)
  qed
qed simp

lemma turn_sim:
  assumes "bindS (readS (\<lambda>_. parse_generic_frames b)) handle_frames c = (r, c')" and "sim c a"
  shows "\<exists>a'. bindS (readS (\<lambda>_. parse_generic_frames b)) spec_frames a = (r, a') \<and> sim c' a'"
proof (cases "parse_generic_frames b")
  case (Inl e)
  with assms show ?thesis by (simp add: bindS_def)
next
  case (Inr fs)
  then have "\<forall>f \<in> set fs. wire_frame f"
    using parsed_frames_wire by blast
  with handle_frames_sim [of fs c r c' a] assms Inr show ?thesis by (simp add: bindS_def)
qed

lemma recv_sim:
  assumes "recv_bytes c = (r, c')" and "sim c a"
  shows "\<exists>d. recv_bytes (fst a) = (r, d) \<and> sim c' (d, snd a)"
proof -
  obtain s where c': "recvall (client c) = (r, s)" "c' = c\<lparr>client := s\<rparr>"
    using assms(1) by (auto simp: recv_bytes_def split: prod.splits)
  obtain log where log: "tracks c log" "map snd log = snd a" "connection.truncate c = fst a"
    using assms(2) by (auto simp: sim_def)
  then have "client (fst a) = client c"
    by (simp add: connection.truncate_def flip: log(3))
  moreover have "tracks c' log"
    using tracks_cong [OF log(1)] c'(2) by simp
  moreover have "connection.truncate c' = (fst a)\<lparr>client := s\<rparr>"
    by (simp add: c'(2) connection.truncate_def flip: log(3))
  ultimately show ?thesis
    using c' log by (auto simp: recv_bytes_def sim_def)
qed

text \<open>One turn of both loops, and from it the loops, each way by induction on the calls of one.\<close>

lemma loop_sim:
  assumes "h2_loop b c = Some y" and "sim c a"
  shows "\<exists>a'. spec_loop b a = Some (fst y, a') \<and> sim (snd y) a'"
  using assms(1)
proof (rule h2_loop.raw_induct [rotated, where P = "\<lambda>b c y. \<forall>a. sim c a \<longrightarrow> (\<exists>a'. spec_loop b a = Some (fst y, a') \<and> sim (snd y) a')",
      THEN spec, THEN mp])
  show "sim c a" by (rule assms(2))
  fix loop b c and y :: "unit result \<times> h2_connection"
  assume IH: "\<And>b c y. loop b c = Some y \<Longrightarrow> \<forall>a. sim c a \<longrightarrow> (\<exists>a'. spec_loop b a = Some (fst y, a') \<and> sim (snd y) a')"
    and body: "(case bindS (readS (\<lambda>_. parse_generic_frames b)) handle_frames c of
        (Inl e, c1) \<Rightarrow> Some (Inl e, c1)
      | (Inr returned, c1) \<Rightarrow>
          if returned then Some (Inr (), c1)
          else case recv_bytes c1 of
            (Inl e, c2) \<Rightarrow> Some (Inl e, c2)
          | (Inr b, c2) \<Rightarrow> loop b c2) = Some y"
  show "\<forall>a. sim c a \<longrightarrow> (\<exists>a'. spec_loop b a = Some (fst y, a') \<and> sim (snd y) a')"
  proof (intro allI impI)
    fix a assume "sim c a"
    obtain r c1 where turn: "bindS (readS (\<lambda>_. parse_generic_frames b)) handle_frames c = (r, c1)" by fastforce
    from turn_sim [OF this \<open>sim c a\<close>] obtain a1 where
      a1: "bindS (readS (\<lambda>_. parse_generic_frames b)) spec_frames a = (r, a1)" "sim c1 a1" by blast
    obtain r2 c2 where recv: "recv_bytes c1 = (r2, c2)" by fastforce
    from recv_sim [OF this a1(2)] obtain d where d: "recv_bytes (fst a1) = (r2, d)" "sim c2 (d, snd a1)" by blast
    show "\<exists>a'. spec_loop b a = Some (fst y, a') \<and> sim (snd y) a'"
    proof (cases "r = Inr False \<and> (\<exists>b'. r2 = Inr b')")
      case True
      then obtain b' where "r2 = Inr b'" by blast
      with IH [of b' c2 y] body turn recv True d(2) have "\<exists>a'. spec_loop b' (d, snd a1) = Some (fst y, a') \<and> sim (snd y) a'"
        by simp
      with True \<open>r2 = Inr b'\<close> a1(1) d(1) show ?thesis by (subst spec_loop.simps) simp
    next
      case False
      with body turn recv a1 d show ?thesis
        by (subst spec_loop.simps) (cases r; cases r2; auto simp del: split_paired_Ex split: if_splits)
    qed
  qed
qed

lemma loop_sim_returns:
  assumes "spec_loop b a = Some y" and "sim c a"
  shows "h2_loop b c \<noteq> None"
  using assms(1)
proof (rule spec_loop.raw_induct [rotated, where P = "\<lambda>b a y. \<forall>c. sim c a \<longrightarrow> h2_loop b c \<noteq> None", THEN spec, THEN mp])
  show "sim c a" by (rule assms(2))
  fix loop b a and y :: "unit result \<times> abstract_h2"
  assume IH: "\<And>b a y. loop b a = Some y \<Longrightarrow> \<forall>c. sim c a \<longrightarrow> h2_loop b c \<noteq> None"
    and body: "(case bindS (readS (\<lambda>_. parse_generic_frames b)) spec_frames a of
        (Inl e, a1) \<Rightarrow> Some (Inl e, a1)
      | (Inr returned, a1) \<Rightarrow>
          if returned then Some (Inr (), a1)
          else case recv_bytes (fst a1) of
            (Inl e, c) \<Rightarrow> Some (Inl e, (c, snd a1))
          | (Inr b, c) \<Rightarrow> loop b (c, snd a1)) = Some y"
  show "\<forall>c. sim c a \<longrightarrow> h2_loop b c \<noteq> None"
  proof (intro allI impI)
    fix c assume "sim c a"
    obtain r c1 where turn: "bindS (readS (\<lambda>_. parse_generic_frames b)) handle_frames c = (r, c1)" by fastforce
    from turn_sim [OF this \<open>sim c a\<close>] obtain a1 where
      a1: "bindS (readS (\<lambda>_. parse_generic_frames b)) spec_frames a = (r, a1)" "sim c1 a1" by blast
    obtain r2 c2 where recv: "recv_bytes c1 = (r2, c2)" by fastforce
    from recv_sim [OF this a1(2)] obtain d where d: "recv_bytes (fst a1) = (r2, d)" "sim c2 (d, snd a1)" by blast
    show "h2_loop b c \<noteq> None"
    proof (cases "r = Inr False \<and> (\<exists>b'. r2 = Inr b')")
      case True
      then obtain b' where "r2 = Inr b'" by blast
      with IH [of b' "(d, snd a1)" y] body a1 d True have "h2_loop b' c2 \<noteq> None" by simp
      with True \<open>r2 = Inr b'\<close> turn recv show ?thesis by (subst h2_loop.simps) simp
    next
      case False
      with turn recv show ?thesis
        by (subst h2_loop.simps) (cases r; cases r2; auto split: if_splits)
    qed
  qed
qed

lemma sim_loops:
  assumes "sim c a"
  shows "map_option (\<lambda>(r, c'). (r, connection.truncate c')) (h2_loop b c) = map_option (\<lambda>(r, a'). (r, fst a')) (spec_loop b a)"
proof (cases "h2_loop b c")
  case None
  with loop_sim_returns [OF _ assms, of b] have "spec_loop b a = None"
    by (cases "spec_loop b a") blast+
  with None show ?thesis by simp
next
  case (Some y)
  with loop_sim [OF Some assms] show ?thesis by (auto simp: sim_def case_prod_beta)
qed

lemma sim_open: "sim (open_h2 c n) (c, [])"
  by (auto simp: sim_def tracks_def open_h2_def connection.extend_def connection.truncate_def some_if_any_def)

lemma sim_send:
  assumes "sim c a" and "send_bytes b c = (r, c')"
  shows "sim c' (snd (send_bytes b (fst a)), snd a)"
proof -
  have "connection.truncate c = fst a"
    using assms(1) by (simp add: sim_def)
  then have "snd (send_bytes b (fst a)) = connection.truncate c'"
    using truncate_send [of b c] assms(2) by simp
  with assms send_keeps_tracks [OF assms(2)] show ?thesis
    by (auto simp: sim_def)
qed

lemma handle_h2_connection_spec:
  "map_option (\<lambda>(r, c'). (r, connection.truncate c')) (handle_h2_connection b (open_h2 c n)) = spec_h2 b c"
proof -
  let ?settings = "[0, 0, 0, 4, 0, 0, 0, 0, 0] :: bytes"
  have settings: "bindE (H2SettingsFrame False []) h2_to_bytes = Inr ?settings"
    by code_simp
  obtain r c1 where send: "send_bytes ?settings (open_h2 c n) = (r, c1)" by fastforce
  then have "r = Inr () \<or> r = Inl OSError"
    using send_bytes_fields by blast
  then have "send_settings (open_h2 c n) = (Inr (), c1)"
    using send by (auto simp: send_settings_def settings on_OSError_def bindS_def)
  then have "map_option (\<lambda>(r, c'). (r, connection.truncate c')) (handle_h2_connection b (open_h2 c n)) =
      map_option (\<lambda>(r, c'). (r, connection.truncate c')) (h2_loop b c1)"
    by (simp add: handle_h2_connection_def)
  also have "\<dots> = spec_h2 b c"
    using sim_loops [OF sim_send [OF sim_open send]] by (simp add: spec_h2_def)
  finally show ?thesis .
qed

lemma truncate_open: "connection.truncate (open_h2 c n) = c"
  by (simp add: open_h2_def connection.extend_def connection.truncate_def)

lemma handle_connection_spec:
  "map_option (\<lambda>(r, c'). (r, connection.truncate c')) (handle_connection c n) = spec_connection c"
proof -
  have "length H2_PREFACE = 24"
    by code_simp
  then show ?thesis
    by (simp add: handle_connection_def spec_connection_def handle_h2_connection_spec truncate_open
        split: sum.splits prod.splits)
qed

section \<open>Running for ever\<close>

text \<open>A turn of the loop after which it goes on.\<close>

inductive goes_on :: "bytes \<times> h2_connection \<Rightarrow> bytes \<times> h2_connection \<Rightarrow> bool" where
  "bindS (readS (\<lambda>_. parse_generic_frames b)) handle_frames c = (Inr False, c1) \<Longrightarrow> recv_bytes c1 = (Inr b', c2) \<Longrightarrow>
    goes_on (b, c) (b', c2)"

inductive_simps goes_on_iff: "goes_on (b, c) s"

text \<open>Nothing is left to receive: the peer has closed, and every \<open>recvall\<close> gives nothing at once.\<close>

definition at_eof :: "bytes \<times> h2_connection \<Rightarrow> bool" where
  "at_eof s \<longleftrightarrow> fst s = [] \<and> incoming (client (snd s)) = []"

lemma eof_goes_on: "at_eof (b, c) \<Longrightarrow> goes_on (b, c) (b, c)"
  by (simp add: at_eof_def goes_on_iff bindS_def parse_generic_frames.simps [of "[]"] H2GenericFrame_parse_def
      recv_bytes_def recvall_def)

text \<open>The handlers of frames do not touch what is to come.\<close>

definition to_come :: "recv_event list \<Rightarrow> 'x connection_scheme \<Rightarrow> bool" where
  "to_come es c \<longleftrightarrow> incoming (client c) = es"

lemma to_come_kept:
  "always_keeps (to_come es) (send_bytes b)" "always_keeps (to_come es) (collect_frame f)"
  "always_keeps (to_come es) (close_stream sid)"
  "always_keeps (to_come es) (modifyS (\<lambda>c. c\<lparr>streams_ending := g c\<rparr>))"
proof -
  show "always_keeps (to_come es) (send_bytes b)"
    unfolding always_keeps_def to_come_def by (metis prod.collapse send_bytes_fields)
qed (auto simp: always_keeps_def to_come_def collect_frame_def close_stream_def Let_def)

lemma always_keeps_on_OSError: "always_keeps I m \<Longrightarrow> always_keeps I h \<Longrightarrow> always_keeps I (on_OSError m h)"
  by (fastforce simp: always_keeps_def on_OSError_def split: sum.splits prod.splits)

lemma always_keeps_if: "(b \<Longrightarrow> always_keeps I m) \<Longrightarrow> (\<not> b \<Longrightarrow> always_keeps I n) \<Longrightarrow> always_keeps I (if b then m else n)"
  by simp

lemma to_come_respond: "always_keeps (to_come es) (respond_and_close_stream sid)"
proof -
  have "always_keeps (to_come es)
      (bindS (on_OSError (bindS (readS g) send_bytes) (returnS ())) (\<lambda>_. close_stream sid))" for g
    by (intro always_keeps_bindS always_keeps_on_OSError to_come_kept always_keeps_simps)
  then show ?thesis
    by (auto simp: always_keeps_def respond_and_close_stream_def Let_def split: option.splits)
qed

lemma to_come_handle_frame: "always_keeps (to_come es) (handle_frame f)"
  unfolding handle_frame_def Let_def
  by (intro always_keeps_if always_keeps_bindS to_come_kept to_come_respond always_keeps_simps)

lemma to_come_handle_frames: "always_keeps (to_come es) (handle_frames fs)"
proof (induction fs)
  case Nil
  show ?case unfolding handle_frames.simps by (rule always_keeps_simps)
next
  case (Cons f fs)
  then show ?case
    unfolding handle_frames.simps
    by (intro always_keeps_bindS always_keeps_if to_come_handle_frame always_keeps_simps)
qed

lemma recv_loop_shorter: "recv_loop acc es = (r, es') \<Longrightarrow> es \<noteq> [] \<Longrightarrow> length es' < length es"
proof (induction acc es rule: recv_loop.induct)
  case (2 acc b es)
  then show ?case by (cases "es = []") (auto split: if_splits)
qed auto

lemma goes_on_shorter:
  assumes "goes_on (b, c) (b', c')"
  shows "at_eof (b', c') \<or> length (incoming (client c')) < length (incoming (client c))"
proof -
  obtain c1 where turn: "bindS (readS (\<lambda>_. parse_generic_frames b)) handle_frames c = (Inr False, c1)"
    and recv: "recv_bytes c1 = (Inr b', c')"
    using assms by (auto simp: goes_on_iff)
  have "always_keeps (to_come (incoming (client c))) (bindS (readS (\<lambda>_. parse_generic_frames b)) handle_frames)"
    by (intro always_keeps_bindS to_come_handle_frames always_keeps_simps)
  from this [unfolded always_keeps_def to_come_def, rule_format, OF refl] turn
  have same: "incoming (client c1) = incoming (client c)" by simp
  obtain l where l: "recv_loop [] (incoming (client c1)) = (Inr b', l)" "incoming (client c') = l"
    using recv by (auto simp: recv_bytes_def recvall_def split: prod.splits)
  show ?thesis
    using l same recv_loop_shorter [OF l(1)] by (cases "incoming (client c1) = []") (auto simp: at_eof_def)
qed

text \<open>The loop never returns exactly when it comes to the end of the input.\<close>

lemma eof_stuck:
  assumes "h2_loop b c = Some y"
  shows "\<not> at_eof (b, c)"
  using assms
proof (rule h2_loop.raw_induct [rotated])
  fix loop b c and y :: "unit result \<times> h2_connection"
  assume IH: "\<And>b c y. loop b c = Some y \<Longrightarrow> \<not> at_eof (b, c)"
    and body: "(case bindS (readS (\<lambda>_. parse_generic_frames b)) handle_frames c of
        (Inl e, c1) \<Rightarrow> Some (Inl e, c1)
      | (Inr returned, c1) \<Rightarrow>
          if returned then Some (Inr (), c1)
          else case recv_bytes c1 of
            (Inl e, c2) \<Rightarrow> Some (Inl e, c2)
          | (Inr b, c2) \<Rightarrow> loop b c2) = Some y"
  show "\<not> at_eof (b, c)"
  proof
    assume eof: "at_eof (b, c)"
    with eof_goes_on [OF this] body have "loop b c = Some y" by (auto simp: goes_on_iff)
    with IH eof show False by blast
  qed
qed

lemma goes_on_loop: "goes_on (b, c) (b', c') \<Longrightarrow> h2_loop b c = h2_loop b' c'"
  by (subst h2_loop.simps) (auto simp: goes_on_iff)

lemma goes_on_loops: "goes_on\<^sup>*\<^sup>* s t \<Longrightarrow> h2_loop (fst s) (snd s) = h2_loop (fst t) (snd t)"
proof (induction rule: rtranclp_induct)
  case (step t u)
  then show ?case by (cases t; cases u) (simp add: goes_on_loop)
qed simp

lemma loop_reaches_eof:
  "h2_loop b c = None \<Longrightarrow> \<exists>t. goes_on\<^sup>*\<^sup>* (b, c) t \<and> at_eof t"
proof (induction "length (incoming (client c))" arbitrary: b c rule: less_induct)
  case less
  obtain r c1 where turn: "bindS (readS (\<lambda>_. parse_generic_frames b)) handle_frames c = (r, c1)" by fastforce
  obtain r2 c2 where recv: "recv_bytes c1 = (r2, c2)" by fastforce
  have "r = Inr False"
    using less.prems turn by (subst (asm) h2_loop.simps) (cases r; auto split: if_splits)
  moreover from this obtain b' where "r2 = Inr b'"
    using less.prems turn recv by (subst (asm) h2_loop.simps) (cases r2; auto)
  ultimately have step: "goes_on (b, c) (b', c2)"
    using turn recv by (simp add: goes_on_iff)
  then have again: "h2_loop b' c2 = None"
    using goes_on_loop less.prems by simp
  show ?case
  proof (cases "at_eof (b', c2)")
    case True
    with step show ?thesis by blast
  next
    case False
    with goes_on_shorter [OF step] less.hyps [of c2 b'] again obtain t where "goes_on\<^sup>*\<^sup>* (b', c2) t" "at_eof t"
      by blast
    with step show ?thesis by (blast intro: converse_rtranclp_into_rtranclp)
  qed
qed

lemma h2_loop_None_iff: "h2_loop b c = None \<longleftrightarrow> (\<exists>t. goes_on\<^sup>*\<^sup>* (b, c) t \<and> at_eof t)"
proof
  assume "\<exists>t. goes_on\<^sup>*\<^sup>* (b, c) t \<and> at_eof t"
  then obtain t where t: "goes_on\<^sup>*\<^sup>* (b, c) t" "at_eof t" by blast
  then have "h2_loop (fst t) (snd t) = None"
    using eof_stuck [of "fst t" "snd t"] by (cases "h2_loop (fst t) (snd t)") auto
  with goes_on_loops [OF t(1)] show "h2_loop b c = None" by simp
qed (rule loop_reaches_eof)

section \<open>Connections among others\<close>

text \<open>What a connection can come to be, whatever the frames and the socket do, while other connections count
  their frames with the same counter.\<close>

inductive reachable :: "h2_connection \<Rightarrow> bool" where
  reachable_open: "reachable (open_h2 c n)"
| reachable_settings: "reachable c \<Longrightarrow> send_settings c = (r, c') \<Longrightarrow> reachable c'"
| reachable_frame: "reachable c \<Longrightarrow> wire_frame f \<Longrightarrow> handle_frame f c = (x, c') \<Longrightarrow> reachable c'"
| reachable_recv: "reachable c \<Longrightarrow> recv_bytes c = (b, c') \<Longrightarrow> reachable c'"
| reachable_others: "reachable c \<Longrightarrow> frame_counter c \<le> n \<Longrightarrow> reachable (c\<lparr>frame_counter := n\<rparr>)"

lemma send_settings_tracks:
  assumes "send_settings c = (r, c')" and "tracks c log"
  shows "tracks c' log"
proof -
  have "bindE (H2SettingsFrame False []) h2_to_bytes = Inr [0, 0, 0, 4, 0, 0, 0, 0, 0]"
    by code_simp
  moreover obtain r1 c1 where "send_bytes [0, 0, 0, 4, 0, 0, 0, 0, 0] c = (r1, c1)" by fastforce
  ultimately have "c' = c1" and "tracks c1 log"
    using assms send_keeps_tracks by (auto simp: send_settings_def on_OSError_def bindS_def split: sum.splits if_splits)
  then show ?thesis by simp
qed

lemma reachable_tracks: "reachable c \<Longrightarrow> \<exists>log. tracks c log"
proof (induction rule: reachable.induct)
  case (reachable_open c n)
  then show ?case using sim_open by (auto simp: sim_def)
next
  case (reachable_settings c r c')
  then show ?case using send_settings_tracks by blast
next
  case (reachable_frame c f x c')
  then obtain log where "tracks c log" by blast
  with handle_frame_matches [OF this reachable_frame.hyps(2)] reachable_frame.hyps(3) show ?case
    by (auto simp: matches_def)
next
  case (reachable_recv c b c')
  then obtain log where log: "tracks c log" by blast
  have "c' = c\<lparr>client := client c'\<rparr>"
    using reachable_recv.hyps(2) by (auto elim: recv_bytes_fields)
  then have "collected_frames c' = collected_frames c" "streams_ending c' = streams_ending c" "frame_counter c' = frame_counter c"
    by (metis h2_connection.select_convs h2_connection.surjective connection.update_convs(1))+
  with tracks_cong [OF log, of c'] show ?case by auto
next
  case (reachable_others c n)
  then obtain log where log: "tracks c log" by blast
  show ?case
    by (rule exI [of _ log], rule tracks_cong [OF log]) (use reachable_others.hyps in simp_all)
qed

lemma tracks_stored:
  assumes "tracks c log" and "collected_frames c sid = Some l"
  shows "l = filter (of_stream sid) log"
proof -
  have "collected_frames c sid = some_if_any (filter (of_stream sid) log)"
    using assms(1) by (simp add: tracks_def)
  with assms(2) show ?thesis by (simp add: some_if_any_def split: if_splits)
qed

lemma status_block: "parse_field_block status_200 =
    Inr [HPACKLiteralHeaderField (HPACKString (ascii '':status'')) (HPACKString (ascii ''200'')) UNCACHED]"
  by code_simp

section \<open>The errors of the HTTP/2 handler\<close>

lemma answer_errors:
  assumes "answer sid live = (reaction, live')"
  shows "(\<exists>b. reaction = Reply b) \<or> reaction = Raise H2Error \<and>
    (sid = 0 \<or> 2 ^ 24 \<le> int (length (concat (map wire (filter (\<lambda>f. stream_id f = sid \<or> stream_id f = 0) live)))))"
  using assms by (auto simp: answer_def response_spec_def Let_def split: if_splits)

text \<open>A frame that asks for a response, and one that asks for an acknowledgement.\<close>

definition wants_answer :: "h2_generic_frame \<Rightarrow> bool" where
  "wants_answer f \<longleftrightarrow> end_stream_or_ack (flags f) \<and> (ftyp f = 0 \<or> ftyp f = 1 \<and> end_headers (flags f))"

definition wants_ack :: "h2_generic_frame \<Rightarrow> bool" where
  "wants_ack f \<longleftrightarrow> \<not> end_stream_or_ack (flags f) \<and> (ftyp f = 4 \<or> ftyp f = 6)"

lemma react_cases:
  assumes "react f live = (reaction, live')"
  shows "wants_answer f \<and> answer (stream_id f) (live @ [f]) = (reaction, live') \<or>
    wants_ack f \<and> (\<exists>b. reaction = Ack b) \<or>
    wants_ack f \<and> ftyp f = 6 \<and> length (payload f) < 8 \<and> reaction = Raise H2Error \<or>
    ftyp f = 3 \<and> (\<forall>g \<in> set live. stream_id g \<noteq> stream_id f) \<and> reaction = Raise KeyError \<or>
    reaction = Quiet \<or> ftyp f = 7 \<and> reaction = Leave"
  using assms by (auto simp: react_def wants_answer_def wants_ack_def Let_def split: if_splits)

lemma handle_frame_errors:
  assumes "reachable c" and "wire_frame f" and "handle_frame f c = (Inl e, c')"
  shows "wants_ack f \<and> e = OSError \<or> wants_ack f \<and> ftyp f = 6 \<and> length (payload f) < 8 \<and> e = H2Error \<or>
    ftyp f = 3 \<and> collected_frames c (stream_id f) = None \<and> e = KeyError \<or> wants_answer f \<and> e = H2Error"
proof -
  obtain log where log: "tracks c log"
    using reachable_tracks [OF assms(1)] by blast
  obtain reaction live where re: "react f (map snd log) = (reaction, live)" by fastforce
  have performed: "perform reaction (connection.truncate c) = (Inl e, connection.truncate c')"
    using handle_frame_matches [OF log assms(2)] assms(3) re by (simp add: matches_def)
  have none: "collected_frames c sid = None" if "\<forall>g \<in> set (map snd log). stream_id g \<noteq> sid" for sid
    using log that by (auto simp: tracks_def some_if_any_def of_stream_def filter_empty_conv)
  have sends: "e = OSError" if "send_bytes b (connection.truncate c) = (Inl e, d)" for b d
    using send_bytes_fields [OF that] by simp
  have raised: "x = e" if "reaction = Raise x" for x
    using performed that by simp
  consider (answered) "wants_answer f" "answer (stream_id f) (map snd log @ [f]) = (reaction, live)"
    | (acked) b where "wants_ack f" "reaction = Ack b"
    | (short) "wants_ack f" "ftyp f = 6" "length (payload f) < 8" "reaction = Raise H2Error"
    | (unknown) "ftyp f = 3" "\<forall>g \<in> set (map snd log). stream_id g \<noteq> stream_id f" "reaction = Raise KeyError"
    | (silent) "reaction = Quiet \<or> reaction = Leave"
    using react_cases [OF re] by blast
  then show ?thesis
  proof cases
    case answered
    have "reaction \<noteq> Reply b" for b
      using performed sends by (auto simp: on_OSError_def bindS_def split: sum.splits prod.splits if_splits)
    with answer_errors [OF answered(2)] answered(1) raised show ?thesis by blast
  next
    case acked
    with performed sends show ?thesis by (simp add: bindS_Inl)
  next
    case short
    with raised show ?thesis by simp
  next
    case unknown
    with raised none show ?thesis by simp
  next
    case silent
    with performed show ?thesis by (elim disjE) simp_all
  qed
qed

section \<open>Properties\<close>

text \<open>C19: the echo server over a whole connection does what the abstract server does. Whatever the preamble and
  the frames, in whatever pieces they come and however the socket fails, it sends the same bytes, leaves the
  socket in the same state, and returns, with the same exception or with none, or runs for ever, just as the
  server that keeps one list of live frames in the order of arrival. The tables of the streams and the
  numbers of the frames do not show, nor does the value the counter starts with.\<close>

theorem echo_server_refines_the_abstract_one:
  "map_option (\<lambda>(r, c'). (r, connection.truncate c')) (handle_connection c counter) = spec_connection c"
  by (rule handle_connection_spec)

text \<open>C20: the handler of an HTTP/2 connection that is not told to leave never returns. Its loop goes on for ever
  exactly when it comes, turn by turn, to the end of the input: at that point \<open>recvall\<close> gives no bytes
  at once, again and again, and nothing in the loop looks at that. So every client that closes its
  connection without a GOAWAY frame and without causing an error leaves a thread that spins.\<close>

theorem h2_loop_spins_at_eof:
  "h2_loop b c = None \<longleftrightarrow> (\<exists>t. goes_on\<^sup>*\<^sup>* (b, c) t \<and> at_eof t)"
  by (rule h2_loop_None_iff)

text \<open>C21: what is stored about a connection, also while other connections count frames with the same counter: a
  stored list is never empty, holds frames of its own stream only, as they can be on the wire, numbered in the
  order of arrival with numbers the counter has passed; no number is used twice; and a stream that is marked as
  ending has frames.\<close>

theorem stored_frames_invariant:
  assumes "reachable c"
  shows "streams_ending c \<subseteq> dom (collected_frames c) \<and>
    (\<forall>sid l. collected_frames c sid = Some l \<longrightarrow>
       l \<noteq> [] \<and> sorted_wrt (<) (map fst l) \<and> (\<forall>(n, f) \<in> set l. n < frame_counter c \<and> stream_id f = sid \<and> wire_frame f)) \<and>
    (\<forall>sid sid' l l'. collected_frames c sid = Some l \<longrightarrow> collected_frames c sid' = Some l' \<longrightarrow> sid \<noteq> sid' \<longrightarrow>
       fst ` set l \<inter> fst ` set l' = {})"
proof -
  obtain log where log: "tracks c log"
    using reachable_tracks [OF assms] by blast
  note stored = tracks_stored [OF log]
  have same: "collected_frames c sid = some_if_any (filter (of_stream sid) log)" for sid
    using log by (simp add: tracks_def)
  have sorted: "sorted_wrt (<) (map fst log)" and bounded: "\<forall>n \<in> fst ` set log. n < frame_counter c"
    and wire: "\<forall>f \<in> snd ` set log. wire_frame f" and ending: "streams_ending c \<subseteq> stream_id ` snd ` set log"
    using log by (simp_all add: tracks_def)
  have "streams_ending c \<subseteq> dom (collected_frames c)"
  proof
    fix sid assume "sid \<in> streams_ending c"
    with ending obtain e where "e \<in> set log" "of_stream sid e" by (auto simp: of_stream_def)
    then have "filter (of_stream sid) log \<noteq> []" by (auto simp: filter_empty_conv)
    then show "sid \<in> dom (collected_frames c)" by (simp add: same some_if_any_def domIff)
  qed
  moreover have "l \<noteq> [] \<and> sorted_wrt (<) (map fst l) \<and>
      (\<forall>(n, f) \<in> set l. n < frame_counter c \<and> stream_id f = sid \<and> wire_frame f)" if "collected_frames c sid = Some l" for sid l
    using stored [OF that] that sorted bounded wire
    by (auto simp: same some_if_any_def of_stream_def sorted_wrt_map split: if_splits intro!: sorted_wrt_filter)
  moreover have "fst ` set l \<inter> fst ` set l' = {}"
    if "collected_frames c sid = Some l" "collected_frames c sid' = Some l'" "sid \<noteq> sid'" for sid sid' l l'
  proof -
    have "inj_on fst (set log)"
      using sorted strict_sorted_iff distinct_map by blast
    then show ?thesis
      using stored [OF that(1)] stored [OF that(2)] that(3) by (auto simp: of_stream_def inj_on_def)
  qed
  ultimately show ?thesis by blast
qed

definition quiet_connection :: connection where
  "quiet_connection = \<lparr>client = \<lparr>outgoing = [], incoming = []\<rparr>, sent = [], closed = False\<rparr>"

definition example_frame :: "int \<Rightarrow> h2_flags \<Rightarrow> int \<Rightarrow> bytes \<Rightarrow> h2_generic_frame" where
  "example_frame ty fl sid pl = \<lparr>ftyp = ty, flags = fl, reserved = False, stream_id = sid, payload = pl\<rparr>"

lemma example_frame_wire: "0 \<le> ty \<Longrightarrow> ty < 256 \<Longrightarrow> 0 \<le> sid \<Longrightarrow> sid < 2 ^ 31 \<Longrightarrow> int (length pl) < 2 ^ 24 \<Longrightarrow>
    wire_frame (example_frame ty fl sid pl)"
  by (simp add: example_frame_def wire_frame_def)

theorem stored_frames_invariant_witness:
  "\<exists>c :: h2_connection. collected_frames c 3 = Some [(7, example_frame 1 (H2Flags\<lparr>end_stream_or_ack := True\<rparr>) 3 [0x82])] \<and>
     streams_ending c = {3} \<and> streams_ending c \<subseteq> dom (collected_frames c)"
proof -
  let ?f = "example_frame 1 (H2Flags\<lparr>end_stream_or_ack := True\<rparr>) 3 [0x82]"
  let ?c = "snd (handle_frame ?f (open_h2 quiet_connection 7))"
  have "wire_frame ?f"
    by (rule example_frame_wire) simp_all
  then have reach: "reachable ?c"
    by (rule reachable_frame [OF reachable_open _ prod.collapse [symmetric]])
  have "ftyp ?f = 1" "stream_id ?f = 3" "end_stream_or_ack (flags ?f)" "\<not> end_headers (flags ?f)"
    by (simp_all add: example_frame_def H2Flags_def)
  then have f: "stream_id ?f = 3" "handle_frame ?f = bindS (collect_frame ?f) (\<lambda>_.
      bindS (modifyS (\<lambda>c. c\<lparr>streams_ending := insert 3 (streams_ending c)\<rparr>)) (\<lambda>_. returnS False))"
    unfolding handle_frame_def Let_def by simp_all
  have c: "collected_frames ?c 3 = Some [(7, ?f)]" "streams_ending ?c = {3}"
    unfolding f(2) by (simp_all add: collect_frame_def f(1) bindS_def open_h2_def connection.extend_def)
  show ?thesis
    by (rule exI [of _ ?c], intro conjI c) (rule stored_frames_invariant [OF reach, THEN conjunct1])
qed

text \<open>C22: which errors a frame can cause, on any connection. RST_STREAM for a stream that has none stored
  is a \<open>KeyError\<close>. A PING that wants an acknowledgement and is shorter than eight bytes is an
  \<open>H2Error\<close>, and so is a frame that wants a response on stream 0 or a response that does not fit a frame. A
  failing socket is felt when an acknowledgement is sent, and not when a response is. The assertion in
  \<open>respond_and_close_stream\<close> never fails.\<close>

theorem h2_frame_errors:
  assumes "reachable c" and "wire_frame f" and "handle_frame f c = (Inl e, c')"
  shows "wants_ack f \<and> e = OSError \<or> wants_ack f \<and> ftyp f = 6 \<and> length (payload f) < 8 \<and> e = H2Error \<or>
    ftyp f = 3 \<and> collected_frames c (stream_id f) = None \<and> e = KeyError \<or> wants_answer f \<and> e = H2Error"
  by (rule handle_frame_errors [OF assms])

theorem h2_frame_errors_witness:
  "\<exists>c'. handle_frame (example_frame 3 H2Flags 5 [0, 0, 0, 8]) (open_h2 quiet_connection 0) = (Inl KeyError, c') \<and>
     collected_frames (open_h2 quiet_connection 0) 5 = None"
proof -
  let ?f = "example_frame 3 H2Flags 5 [0, 0, 0, 8]" and ?c = "open_h2 quiet_connection 0"
  have step: "handle_frame ?f ?c = (Inl KeyError, ?c)"
    by (simp add: handle_frame_def example_frame_def bindS_def close_stream_def open_h2_def connection.extend_def Let_def)
  have wire: "wire_frame ?f"
    by (rule example_frame_wire) simp_all
  have "\<not> wants_ack ?f" "\<not> wants_answer ?f"
    by (simp_all add: wants_ack_def wants_answer_def example_frame_def)
  with h2_frame_errors [OF reachable_open wire step] have "collected_frames ?c (stream_id ?f) = None"
    by blast
  then have "collected_frames ?c 5 = None"
    by (simp add: example_frame_def)
  with step show ?thesis by blast
qed

text \<open>What a client makes of a response. When \<open>respond_and_close_stream\<close> has one to send, it parses as a
  HEADERS frame that ends the headers, whose block is the field \<open>:status: 200\<close>, and a DATA frame that ends
  the stream, both on that stream; and the data parses as the frames that were collected, in order, with
  every flag and byte as they came.\<close>

theorem h2_response_carries_the_frames:
  assumes "\<forall>f \<in> set frames. wire_frame f" and "0 < sid" and "sid < 2 ^ 31"
    and "int (length (concat (map wire frames))) < 2 ^ 24"
  shows "\<exists>b. response_bytes sid frames = Inr b \<and>
    parse_frames b = Inr [HeadersFrame True False sid None None None status_200 None,
      DataFrame True sid (concat (map wire frames)) None] \<and>
    parse_field_block status_200 =
      Inr [HPACKLiteralHeaderField (HPACKString (ascii '':status'')) (HPACKString (ascii ''200'')) UNCACHED] \<and>
    parse_generic_frames (concat (map wire frames)) = Inr frames"
proof -
  let ?data = "concat (map wire frames)"
  let ?fs = "[HeadersFrame True False sid None None None status_200 None, DataFrame True sid ?data None]"
  have ok: "\<forall>f \<in> set ?fs. frame_ok f"
    using assms(2,3) by (simp add: H2HeadersFrame_def H2DataFrame_def is_ok_iff bindE_eq_Inr)
  obtain b where b: "response_bytes sid frames = Inr b"
    using response_bytes_spec [OF assms(1), of sid] assms(2-4) by (simp add: response_spec_def Let_def)
  then obtain bss where "mapE h2_to_bytes ?fs = Inr bss" "b = concat bss"
    unfolding response_bytes_def status_field wire_frames_print [OF assms(1)]
    by (auto simp: H2HeadersFrame_def H2DataFrame_def bindE_eq_Inr)
  with parse_frames_prints [OF ok] have "parse_frames b = Inr ?fs" by simp
  moreover have "parse_generic_frames ?data = Inr frames"
    using h2_stream.parse_all_concat [OF assms(1) wire_frames_print [OF assms(1)]] by simp
  ultimately show ?thesis
    using b status_block by blast
qed

theorem h2_response_carries_the_frames_witness:
  "let f = example_frame 1 (H2Flags\<lparr>end_stream_or_ack := True, end_headers := True\<rparr>) 1 [0x82] in
     \<exists>b. response_bytes 1 [f] = Inr b \<and>
       parse_frames b = Inr [HeadersFrame True False 1 None None None status_200 None, DataFrame True 1 (wire f) None] \<and>
       parse_generic_frames (wire f) = Inr [f]"
proof -
  let ?f = "example_frame 1 (H2Flags\<lparr>end_stream_or_ack := True, end_headers := True\<rparr>) 1 [0x82]"
  have "wire_frame ?f"
    by (rule example_frame_wire) simp_all
  moreover have "int (length (wire ?f)) < 2 ^ 24"
    by code_simp
  ultimately show ?thesis
    using h2_response_carries_the_frames [of "[?f]" 1] by (auto simp: Let_def)
qed


lemma h1_two_pieces:
  assumes "b \<noteq> []"
  shows "handle_h1_connection a \<lparr>client = \<lparr>outgoing = [], incoming = [Received b]\<rparr>, sent = [], closed = False\<rparr> =
    (Inr (), \<lparr>client = \<lparr>outgoing = [], incoming = []\<rparr>, sent = [echo_response a, echo_response b], closed = True\<rparr>)"
proof -
  have "h1_loop b \<lparr>client = \<lparr>outgoing = [], incoming = []\<rparr>, sent = l, closed = False\<rparr> =
      (Inr (), \<lparr>client = \<lparr>outgoing = [], incoming = []\<rparr>, sent = l @ [echo_response b], closed = False\<rparr>)" for l
    by (subst h1_loop.simps) (simp add: bindS_def send_bytes_def sendall_def recv_bytes_def recvall_def)
  with assms have "h1_loop a \<lparr>client = \<lparr>outgoing = [], incoming = [Received b]\<rparr>, sent = [], closed = False\<rparr> =
      (Inr (), \<lparr>client = \<lparr>outgoing = [], incoming = []\<rparr>, sent = [echo_response a, echo_response b], closed = False\<rparr>)"
    by (subst h1_loop.simps) (simp add: bindS_def send_bytes_def sendall_def recv_bytes_def recvall_def)
  then show ?thesis
    by (simp add: handle_h1_connection_def bindS_def close_socket_def)
qed


section \<open>Requests that are not answered\<close>

text \<open>A header block that goes on in a CONTINUATION frame is never answered, though its HEADERS frame ends the
  stream: the handler remembers the stream in \<open>streams_ending\<close>, and looks at that nowhere.\<close>

lemma continued_headers_get_no_answer:
  assumes "reachable c" and "wire_frame f" and "wire_frame g"
    and "ftyp f = 1" and "\<not> end_headers (flags f)" and "ftyp g = 9" and "handle_frames [f, g] c = (r, c')"
  shows "r = Inr False" and "sent c' = sent c"
proof -
  obtain log where log: "tracks c log"
    using reachable_tracks [OF assms(1)] by blast
  let ?a = "(connection.truncate c, map snd log)"
  have "sim c ?a"
    using log by (auto simp: sim_def)
  then obtain a' where a': "spec_frames [f, g] ?a = (r, a')" "sim c' a'"
    using handle_frames_sim [OF assms(7), of ?a] assms(2,3) by (auto simp del: split_paired_Ex spec_frames.simps)
  then have "r = Inr False" "fst a' = connection.truncate c"
    using assms(4-6) by (auto simp: spec_frame_def react_def bindS_def Let_def)
  then show "r = Inr False" "sent c' = sent c"
    using a'(2) by (simp_all add: sim_def connection.truncate_def)
qed

end
