(* ===== verification/Mutations.thy ===== *)
theory Mutations
  imports Http1Parse Http2Base PyState
begin

text \<open>
  \<open>tools/mutations.py\<close>: the random edits of the fuzzer on a stream of requests in pieces. The random
  numbers are a script: each call of the module \<open>random\<close> takes the next number and reduces it to its range, so
  a theorem about every script is one about every choice. The lemmas show what each mutation does to the
  bytes and to the pieces.
\<close>

section \<open>The module \<open>random\<close>\<close>

text \<open>The draws to come. When the script is used up, they are zero.\<close>

type_synonym draws = "nat list"

fun draw :: "(draws, nat) action" where
  "draw [] = (Inr 0, [])"
| "draw (d # ds) = (Inr d, ds)"

definition randint :: "nat \<Rightarrow> nat \<Rightarrow> (draws, nat) action" where
  "randint a b = (if a > b then raiseS ValueError else bindS draw (\<lambda>d. returnS (a + d mod (b - a + 1))))"

definition choice :: "'a list \<Rightarrow> (draws, 'a) action" where
  "choice xs = (if xs = [] then raiseS IndexError else bindS (randint 0 (length xs - 1)) (\<lambda>i. returnS (xs ! i)))"

text \<open>\<open>random.sample\<close>: elements at different places, in the order they are drawn.\<close>

fun sample :: "'a list \<Rightarrow> nat \<Rightarrow> (draws, 'a list) action" where
  "sample xs 0 = returnS []"
| "sample xs (Suc k) =
     (if xs = [] then raiseS ValueError
      else bindS (randint 0 (length xs - 1)) (\<lambda>i.
           bindS (sample (take i xs @ drop (Suc i) xs) k) (\<lambda>ys. returnS (xs ! i # ys))))"

definition assertS :: "bool \<Rightarrow> ('s, unit) action" where
  "assertS c = (if c then returnS () else raiseS AssertionError)"

fun mapS :: "('a \<Rightarrow> ('s, 'b) action) \<Rightarrow> 'a list \<Rightarrow> ('s, 'b list) action" where
  "mapS f [] = returnS []"
| "mapS f (x # xs) = bindS (f x) (\<lambda>y. bindS (mapS f xs) (\<lambda>ys. returnS (y # ys)))"

section \<open>Bytes\<close>

definition total_len :: "bytes list \<Rightarrow> nat" where
  "total_len s = sum_list (map length s)"

text \<open>The loop that finds the piece a position falls into, which four mutations share, and edits it.\<close>

fun edit_at :: "(bytes \<Rightarrow> nat \<Rightarrow> (draws, bytes) action) \<Rightarrow> bytes list \<Rightarrow> nat \<Rightarrow> (draws, bytes list) action" where
  "edit_at edit [] idx = raiseS AssertionError"
| "edit_at edit (req # s) idx =
     (if length req > idx then bindS (edit req idx) (\<lambda>r. returnS (r # s))
      else bindS (edit_at edit s (idx - length req)) (\<lambda>s'. returnS (req # s')))"

definition delete_random_byte :: "bytes list \<Rightarrow> (draws, bytes list) action" where
  "delete_random_byte s =
     bindS (assertS (length s \<ge> 1)) (\<lambda>_.
     bindS (assertS (total_len s \<ge> 1)) (\<lambda>_.
     bindS (randint 0 (total_len s - 1)) (\<lambda>idx.
     edit_at (\<lambda>req idx. returnS (take idx req @ drop (idx + 1) req)) s idx)))"

definition random_byte :: "(draws, bytes) action" where
  "random_byte = bindS (randint 0 255) (\<lambda>n. returnS [word_of_nat n])"

definition replace_random_byte :: "bytes list \<Rightarrow> (draws, bytes list) action" where
  "replace_random_byte s =
     bindS (assertS (length s \<ge> 1)) (\<lambda>_.
     bindS (assertS (total_len s \<ge> 1)) (\<lambda>_.
     bindS (randint 0 (total_len s - 1)) (\<lambda>idx.
     edit_at (\<lambda>req idx. bindS random_byte (\<lambda>b. returnS (take idx req @ b @ drop (idx + 1) req))) s idx)))"

definition MEANINGFUL_BYTES :: "bytes list" where
  "MEANINGFUL_BYTES = [[CR, LF], [CR], [LF], [0], [COLON], [0x09], [SP]]"

definition insert_random_meaningful_byte :: "bytes list \<Rightarrow> (draws, bytes list) action" where
  "insert_random_meaningful_byte s =
     bindS (assertS (length s \<ge> 1)) (\<lambda>_.
     bindS (randint 0 (total_len s)) (\<lambda>idx.
     edit_at (\<lambda>req idx. bindS (choice MEANINGFUL_BYTES) (\<lambda>b. returnS (take idx req @ b @ drop idx req))) s idx))"

definition insert_random_byte :: "bytes list \<Rightarrow> (draws, bytes list) action" where
  "insert_random_byte s =
     bindS (assertS (length s \<ge> 1)) (\<lambda>_.
     bindS (randint 0 (total_len s)) (\<lambda>idx.
     edit_at (\<lambda>req idx. bindS random_byte (\<lambda>b. returnS (take idx req @ b @ drop idx req))) s idx))"

section \<open>Requests written out\<close>

text \<open>\<open>itertools.pairwise\<close>, and the pieces between cuts.\<close>

fun pairwise :: "'a list \<Rightarrow> ('a \<times> 'a) list" where
  "pairwise (x # y # xs) = (x, y) # pairwise (y # xs)"
| "pairwise xs = []"

definition chunks_at :: "bytes \<Rightarrow> nat list \<Rightarrow> bytes list" where
  "chunks_at data cuts = map (\<lambda>(start, end). take (end - start) (drop start data)) (pairwise cuts)"

definition write_chunk :: "bytes \<Rightarrow> (draws, bytes) action" where
  "write_chunk chunk =
     bindS (choice [True, False]) (\<lambda>extended.
     returnS (ascii (drop 2 (hex (int (length chunk)))) @ (if extended then ascii '';abc=123'' else []) @
       [CR, LF] @ chunk @ [CR, LF]))"

definition randomly_chunk :: "bytes \<Rightarrow> (draws, bytes) action" where
  "randomly_chunk data =
     (if length data = 0 then returnS (ascii ''0'' @ [CR, LF, CR, LF])
      else bindS (randint 0 (length data - 1)) (\<lambda>num_cuts.
           bindS (sample [1..<length data] num_cuts) (\<lambda>between.
           let cuts = [0] @ sort between @ [length data] in
           bindS (mapS write_chunk (chunks_at data cuts)) (\<lambda>chunks.
           bindS (choice [True, False]) (\<lambda>trailer.
           returnS (concat chunks @ ascii ''0'' @ [CR, LF] @
             (if trailer then ascii ''Trailer-Is: This'' @ [CR, LF] else []) @ [CR, LF]))))))"

definition unparse_request :: "http_request \<Rightarrow> (draws, bytes) action" where
  "unparse_request request =
     (let is_chunked = ascii ''transfer-encoding'' \<in> set (map (\<lambda>p. lower (fst p)) (req_headers request)) in
      bindS (if is_chunked then randomly_chunk (req_body request) else returnS (req_body request)) (\<lambda>body.
      returnS (req_method request @ ascii '' '' @ req_uri request @ ascii '' '' @ ascii ''HTTP/'' @
        req_version request @ [CR, LF] @
        concat (map (\<lambda>(k, v). k @ ascii '': '' @ v @ [CR, LF]) (req_headers request)) @ [CR, LF] @ body)))"

section \<open>Requests\<close>

definition SEED_HEADERS :: "http_header list" where
  "SEED_HEADERS =
     [(ascii ''Content-Length'', ascii ''0''), (ascii ''Transfer-Encoding'', ascii ''chunked''),
      (ascii ''Transfer-Encoding'', ascii ''identity''), ([], []), (ascii ''Test'', []),
      (ascii ''Connection'', ascii ''close''), (ascii ''Connection'', ascii ''keep-alive'')]"

text \<open>What four mutations share: one request of one piece is replaced, and the piece is written again.\<close>

definition edit_request ::
  "(bytes \<Rightarrow> bytes result) \<Rightarrow> (http_request \<Rightarrow> (draws, http_request) action) \<Rightarrow> bytes list \<Rightarrow>
    (draws, bytes list) action" where
  "edit_request gunzip edit s =
     bindS (assertS (length s \<ge> 1)) (\<lambda>_.
     bindS (choice (enumerate 0 s)) (\<lambda>(substream_idx, substream).
     bindS (readS (\<lambda>_. parse_request_stream gunzip substream)) (\<lambda>(parsed_substream, rest).
     bindS (assertS (length parsed_substream \<ge> 1)) (\<lambda>_.
     bindS (choice (enumerate 0 parsed_substream)) (\<lambda>(request_idx, request).
     bindS (edit request) (\<lambda>new_request.
     bindS (mapS unparse_request (parsed_substream[request_idx := new_request])) (\<lambda>pieces.
     returnS (take substream_idx s @ [concat pieces @ rest] @ drop (substream_idx + 1) s))))))))"

definition delete_random_header :: "(bytes \<Rightarrow> bytes result) \<Rightarrow> bytes list \<Rightarrow> (draws, bytes list) action" where
  "delete_random_header gunzip = edit_request gunzip (\<lambda>request.
     bindS (assertS (length (req_headers request) \<ge> 1)) (\<lambda>_.
     bindS (randint 0 (length (req_headers request) - 1)) (\<lambda>idx.
     returnS (request\<lparr>req_headers := take idx (req_headers request) @ drop (idx + 1) (req_headers request)\<rparr>))))"

definition insert_random_header :: "(bytes \<Rightarrow> bytes result) \<Rightarrow> bytes list \<Rightarrow> (draws, bytes list) action" where
  "insert_random_header gunzip = edit_request gunzip (\<lambda>request.
     bindS (randint 0 (length (req_headers request))) (\<lambda>idx.
     bindS (choice SEED_HEADERS) (\<lambda>header.
     returnS (request\<lparr>req_headers := take idx (req_headers request) @ [header] @ drop (idx + 1) (req_headers request)\<rparr>))))"

definition replace_random_header :: "(bytes \<Rightarrow> bytes result) \<Rightarrow> bytes list \<Rightarrow> (draws, bytes list) action" where
  "replace_random_header gunzip = edit_request gunzip (\<lambda>request.
     bindS (assertS (length (req_headers request) \<ge> 1)) (\<lambda>_.
     bindS (randint 0 (length (req_headers request) - 1)) (\<lambda>idx.
     bindS (choice SEED_HEADERS) (\<lambda>header.
     returnS (request\<lparr>req_headers := take idx (req_headers request) @ [header] @ drop (idx + 1) (req_headers request)\<rparr>)))))"

definition replace_method :: "(bytes \<Rightarrow> bytes result) \<Rightarrow> bytes list \<Rightarrow> (draws, bytes list) action" where
  "replace_method gunzip = edit_request gunzip (\<lambda>request.
     bindS (choice METHODS) (\<lambda>m. returnS (request\<lparr>req_method := m\<rparr>)))"

section \<open>Pieces\<close>

text \<open>\<open>l.pop(i)\<close> and \<open>l.insert(i, x)\<close> on an index in range.\<close>

definition pop_at :: "nat \<Rightarrow> 'a list \<Rightarrow> 'a \<times> 'a list" where
  "pop_at i xs = (xs ! i, take i xs @ drop (Suc i) xs)"

definition insert_at :: "nat \<Rightarrow> 'a \<Rightarrow> 'a list \<Rightarrow> 'a list" where
  "insert_at i x xs = take i xs @ x # drop i xs"

definition concat_random_requests :: "bytes list \<Rightarrow> (draws, bytes list) action" where
  "concat_random_requests s =
     bindS (assertS (length s \<ge> 2)) (\<lambda>_.
     bindS (randint 0 (length s - 2)) (\<lambda>idx.
     let (first_req, result) = pop_at idx s in returnS (result[idx := first_req @ result ! idx])))"

definition shift_random_request_boundaries :: "bytes list \<Rightarrow> (draws, bytes list) action" where
  "shift_random_request_boundaries s =
     bindS (assertS (length s \<ge> 2)) (\<lambda>_.
     bindS (randint 0 (length s - 2)) (\<lambda>idx.
     let (a, result) = pop_at idx s; (b, result) = pop_at idx result; combined = a @ b in
     bindS (randint 0 (length combined)) (\<lambda>boundary.
     let first = take boundary combined; second = drop boundary combined in
     returnS (insert_at idx second (insert_at idx first result)))))"

definition split_random_request :: "bytes list \<Rightarrow> (draws, bytes list) action" where
  "split_random_request s =
     bindS (assertS (length s \<ge> 1)) (\<lambda>_.
     bindS (randint 0 (length s - 1)) (\<lambda>i.
     let (to_split, result) = pop_at i s in
     bindS (assertS (length to_split \<ge> 2)) (\<lambda>_.
     bindS (randint 1 (length to_split - 1)) (\<lambda>split_spot.
     returnS (insert_at i (take split_spot to_split) (insert_at i (drop split_spot to_split) result))))))"

definition duplicate_random_request :: "bytes list \<Rightarrow> (draws, bytes list) action" where
  "duplicate_random_request s =
     bindS (assertS (length s \<ge> 1)) (\<lambda>_.
     bindS (randint 0 (length s - 1)) (\<lambda>i. returnS (insert_at i (s ! i) s)))"

definition delete_random_request :: "bytes list \<Rightarrow> (draws, bytes list) action" where
  "delete_random_request s =
     bindS (assertS (length s \<ge> 2)) (\<lambda>_.
     bindS (randint 0 (length s - 1)) (\<lambda>i. returnS (snd (pop_at i s))))"

section \<open>Choosing a mutation\<close>

definition mutations :: "(bytes \<Rightarrow> bytes result) \<Rightarrow> (bytes list \<Rightarrow> (draws, bytes list) action) list" where
  "mutations gunzip =
     [delete_random_byte, replace_random_byte, insert_random_byte, insert_random_meaningful_byte,
      concat_random_requests, shift_random_request_boundaries, delete_random_header gunzip,
      insert_random_header gunzip, replace_random_header gunzip, replace_method gunzip,
      delete_random_request, split_random_request, duplicate_random_request]"

text \<open>The loop of \<open>mutate\<close>: a mutation that fails an assertion is not tried again.\<close>

function mutate_loop :: "(bytes list \<Rightarrow> (draws, bytes list) action) list \<Rightarrow> bytes list \<Rightarrow> (draws, bytes list) action" where
  "mutate_loop ms s ds =
     (case choice (enumerate 0 ms) ds of
        (Inl e, ds1) \<Rightarrow> (Inl e, ds1)
      | (Inr (idx, mutation), ds1) \<Rightarrow>
          (case mutation s ds1 of
             (Inl e, ds2) \<Rightarrow> if e = AssertionError then mutate_loop (snd (pop_at idx ms)) s ds2 else (Inl e, ds2)
           | (Inr s', ds2) \<Rightarrow> (Inr s', ds2)))"
  by pat_completeness auto

lemma randint_Inr: "randint a b ds = (Inr i, ds') \<Longrightarrow> a \<le> i \<and> i \<le> b"
proof -
  assume "randint a b ds = (Inr i, ds')"
  then obtain d where "\<not> a > b" "i = a + d mod (b - a + 1)"
    by (auto simp: randint_def bindS_Inr split: if_splits)
  moreover have "d mod (b - a + 1) \<le> b - a"
    using mod_less_divisor [of "b - a + 1" d] by linarith
  ultimately show ?thesis by linarith
qed

lemma choice_enumerate:
  "choice (enumerate 0 xs) ds = (Inr (i, x), ds') \<Longrightarrow> i < length xs \<and> x = xs ! i"
proof -
  assume "choice (enumerate 0 xs) ds = (Inr (i, x), ds')"
  then obtain j where "xs \<noteq> []" "randint 0 (length xs - 1) ds = (Inr j, ds')" "enumerate 0 xs ! j = (i, x)"
    by (auto simp: choice_def bindS_Inr enumerate_eq_zip split: if_splits)
  moreover from this have "j < length xs"
    using randint_Inr [of 0 "length xs - 1" ds j ds'] by (cases xs) auto
  ultimately show ?thesis
    by (auto simp: nth_enumerate_eq)
qed

termination mutate_loop
  by (relation "measure (\<lambda>(ms, s, ds). length ms)") (auto simp: pop_at_def dest!: choice_enumerate [OF sym])

declare mutate_loop.simps [simp del]

definition mutate :: "(bytes \<Rightarrow> bytes result) \<Rightarrow> bytes list \<Rightarrow> (draws, bytes list) action" where
  "mutate gunzip s = mutate_loop (mutations gunzip) s"

section \<open>Which errors a random choice can cause\<close>

definition raises_only :: "(exn \<Rightarrow> bool) \<Rightarrow> ('s, 'a) action \<Rightarrow> bool" where
  "raises_only E m \<longleftrightarrow> (\<forall>s e t. m s = (Inl e, t) \<longrightarrow> E e)"

named_theorems raises_only_rules

lemma raises_onlyD: "raises_only E m \<Longrightarrow> m s = (Inl e, t) \<Longrightarrow> E e"
  by (auto simp: raises_only_def)

lemma raises_only_bindS [raises_only_rules]:
  "raises_only E m \<Longrightarrow> (\<And>x s t. m s = (Inr x, t) \<Longrightarrow> raises_only E (f x)) \<Longrightarrow> raises_only E (bindS m f)"
  by (fastforce simp: raises_only_def bindS_Inl)

lemma raises_only_simple [raises_only_rules]:
  "raises_only E (returnS x)" "E AssertionError \<Longrightarrow> raises_only E (assertS c)" "raises_only E draw"
  "a \<le> b \<Longrightarrow> raises_only E (randint a b)" "xs \<noteq> [] \<Longrightarrow> raises_only E (choice xs)"
proof -
  have draw: "raises_only E draw" for E
  proof -
    have "draw ds \<noteq> (Inl e, t)" for ds e t
      by (cases ds) simp_all
    then show ?thesis by (simp add: raises_only_def)
  qed
  then show "raises_only E draw" .
  show "raises_only E (returnS x)" by (simp add: raises_only_def)
  show "E AssertionError \<Longrightarrow> raises_only E (assertS c)" by (simp add: raises_only_def assertS_def)
  have ret: "raises_only E (returnS x)" for x :: 'q by (simp add: raises_only_def)
  show randint: "a \<le> b \<Longrightarrow> raises_only E (randint a b)" for a b
    unfolding randint_def by (simp add: raises_only_bindS draw ret)
  show "xs \<noteq> [] \<Longrightarrow> raises_only E (choice xs)"
    unfolding choice_def by (simp add: raises_only_bindS randint ret)
qed

lemma raises_only_read [raises_only_rules]: "(\<And>e. x = Inl e \<Longrightarrow> E e) \<Longrightarrow> raises_only E (readS (\<lambda>_. x))"
  by (simp add: raises_only_def)

lemma raises_only_if [raises_only_rules]:
  "(c \<Longrightarrow> raises_only E m) \<Longrightarrow> (\<not> c \<Longrightarrow> raises_only E n) \<Longrightarrow> raises_only E (if c then m else n)"
  by simp

lemma raises_only_mapS [raises_only_rules]: "(\<And>x. x \<in> set xs \<Longrightarrow> raises_only E (f x)) \<Longrightarrow> raises_only E (mapS f xs)"
proof (induction xs)
  case (Cons x xs)
  then show ?case
    unfolding mapS.simps by (intro raises_only_bindS raises_only_simple) simp_all
qed (simp add: raises_only_simple)

lemma raises_only_sample [raises_only_rules]: "k \<le> length xs \<Longrightarrow> raises_only E (sample xs k)"
proof (induction xs k rule: sample.induct)
  case (2 xs k)
  then have ne: "xs \<noteq> []" by auto
  show ?case
    unfolding sample.simps if_not_P [OF ne]
  proof (intro raises_only_bindS raises_only_simple)
    fix i ds t assume "randint 0 (length xs - 1) ds = (Inr i, t)"
    then have "i < length xs" using randint_Inr [of 0 "length xs - 1" ds i t] ne by (cases xs) auto
    with "2.prems" have "k \<le> length (take i xs @ drop (Suc i) xs)" by simp
    with "2.IH" [OF ne] show "raises_only E (sample (take i xs @ drop (Suc i) xs) k)" by blast
  qed simp
qed (simp add: raises_only_simple)

lemma assertS_Inr [simp]: "assertS c s = (Inr u, t) \<longleftrightarrow> c \<and> t = s"
  by (auto simp: assertS_def)

lemma assertS_Inl [simp]: "assertS c s = (Inl e, t) \<longleftrightarrow> \<not> c \<and> e = AssertionError \<and> t = s"
  by (auto simp: assertS_def)

lemma raises_only_unparse [raises_only_rules]: "raises_only E (unparse_request r)"
proof -
  have "raises_only E (write_chunk c)" for c
    unfolding write_chunk_def by (intro raises_only_bindS raises_only_simple) simp_all
  then have "raises_only E (randomly_chunk data)" for data
    unfolding randomly_chunk_def Let_def
    by (intro raises_only_if raises_only_bindS raises_only_simple raises_only_sample raises_only_mapS)
      (auto dest: randint_Inr)
  then show ?thesis
    unfolding unparse_request_def Let_def by (intro raises_only_if raises_only_bindS raises_only_simple)
qed

definition edit_error :: "(bytes \<Rightarrow> bytes result) \<Rightarrow> bytes list \<Rightarrow> exn \<Rightarrow> bool" where
  "edit_error gunzip s e \<longleftrightarrow> e = AssertionError \<or> (\<exists>x \<in> set s. parse_request_stream gunzip x = Inl e)"

lemma raises_only_case_prod:
  "(\<And>a b. x = (a, b) \<Longrightarrow> raises_only E (f a b)) \<Longrightarrow> raises_only E (case x of (a, b) \<Rightarrow> f a b)"
  by (cases x) simp

lemma enumerate_Nil_iff: "enumerate n xs = [] \<longleftrightarrow> xs = []"
  by (cases xs) simp_all

lemma raises_only_edit_request:
  assumes "\<And>r. raises_only (edit_error gunzip s) (edit r)"
  shows "raises_only (edit_error gunzip s) (edit_request gunzip edit s)"
proof -
  have parse: "edit_error gunzip s e"
    if "choice (enumerate 0 s) ds = (Inr (i, x), t)" "parse_request_stream gunzip x = Inl e" for i x e ds t
    using choice_enumerate [OF that(1)] that(2) by (auto simp: edit_error_def)
  have assertion: "edit_error gunzip s AssertionError"
    by (simp add: edit_error_def)
  show ?thesis
    unfolding edit_request_def
    by (intro raises_only_bindS raises_only_case_prod raises_only_simple raises_only_read raises_only_mapS
        raises_only_unparse assms assertion)
      (use parse in \<open>auto simp: enumerate_Nil_iff\<close>)
qed

lemma raises_only_edit_at:
  "E AssertionError \<Longrightarrow> (\<And>r i. raises_only E (edit r i)) \<Longrightarrow> raises_only E (edit_at edit s idx)"
proof (induction edit s idx rule: edit_at.induct)
  case (1 edit idx)
  then show ?case by (simp add: raises_only_def)
next
  case (2 edit req s idx)
  then show ?case
    unfolding edit_at.simps by (intro raises_only_if raises_only_bindS raises_only_simple) simp_all
qed

lemma mutations_raise: "m \<in> set (mutations gunzip) \<Longrightarrow> raises_only (edit_error gunzip s) (m s)"
proof -
  have assertion: "edit_error gunzip s AssertionError"
    by (simp add: edit_error_def)
  have seeds: "SEED_HEADERS \<noteq> []" "METHODS \<noteq> []" "MEANINGFUL_BYTES \<noteq> []"
    by (simp_all add: SEED_HEADERS_def METHODS_def MEANINGFUL_BYTES_def)
  note rules = raises_only_bindS raises_only_simple raises_only_edit_at raises_only_edit_request assertion
  have random_byte: "raises_only (edit_error gunzip s) random_byte"
    unfolding random_byte_def by (intro rules) simp
  have bytes: "raises_only (edit_error gunzip s) (delete_random_byte s)" "raises_only (edit_error gunzip s) (replace_random_byte s)"
    "raises_only (edit_error gunzip s) (insert_random_byte s)" "raises_only (edit_error gunzip s) (insert_random_meaningful_byte s)"
    unfolding delete_random_byte_def replace_random_byte_def insert_random_byte_def insert_random_meaningful_byte_def
    by (intro rules random_byte seeds; simp)+
  have headers: "raises_only (edit_error gunzip s) (delete_random_header gunzip s)" "raises_only (edit_error gunzip s) (insert_random_header gunzip s)"
    "raises_only (edit_error gunzip s) (replace_random_header gunzip s)" "raises_only (edit_error gunzip s) (replace_method gunzip s)"
    unfolding delete_random_header_def insert_random_header_def replace_random_header_def replace_method_def
    by (intro rules seeds; simp)+
  have pieces: "raises_only (edit_error gunzip s) (concat_random_requests s)"
    "raises_only (edit_error gunzip s) (shift_random_request_boundaries s)"
    "raises_only (edit_error gunzip s) (split_random_request s)" "raises_only (edit_error gunzip s) (duplicate_random_request s)"
    "raises_only (edit_error gunzip s) (delete_random_request s)"
    unfolding concat_random_requests_def shift_random_request_boundaries_def split_random_request_def
      duplicate_random_request_def delete_random_request_def pop_at_def Let_def prod.case
    by (intro rules; simp)+
  assume "m \<in> set (mutations gunzip)"
  then show ?thesis
    using bytes headers pieces by (auto simp: mutations_def)
qed

section \<open>The loop of \<open>mutate\<close>\<close>

lemma pop_at_set: "i < length xs \<Longrightarrow> set (snd (pop_at i xs)) \<subseteq> set xs \<and> (x \<in> set xs \<longrightarrow> x = xs ! i \<or> x \<in> set (snd (pop_at i xs)))"
proof -
  assume i: "i < length xs"
  then have "xs = take i xs @ xs ! i # drop (Suc i) xs"
    by (simp add: id_take_nth_drop)
  then have "set xs = set (take i xs) \<union> insert (xs ! i) (set (drop (Suc i) xs))"
    by (metis list.simps(15) set_append)
  then show ?thesis by (auto simp: pop_at_def)
qed

lemma mutate_loop_Nil: "mutate_loop [] s ds = (Inl IndexError, ds)"
  by (simp add: mutate_loop.simps [of "[]"] choice_def)

lemma pick_mutation:
  assumes "ms \<noteq> []"
  obtains idx ds1 where "idx < length ms" and "choice (enumerate 0 ms) ds = (Inr (idx, ms ! idx), ds1)"
proof -
  have "raises_only (\<lambda>_. False) (choice (enumerate 0 ms))"
    using assms by (intro raises_only_simple) (simp add: enumerate_Nil_iff)
  then obtain idx m ds1 where pick: "choice (enumerate 0 ms) ds = (Inr (idx, m), ds1)"
    by (metis obj_sumE prod.exhaust raises_only_def surj_pair)
  with choice_enumerate [OF pick] that show ?thesis by simp
qed

text \<open>An error that leaves the loop is one of a mutation, and no \<open>AssertionError\<close>, or all mutations failed.\<close>

lemma mutate_loop_error:
  assumes "mutate_loop ms s ds = (Inl e, ds')"
  shows "(e \<noteq> AssertionError \<and> (\<exists>m \<in> set ms. \<exists>d d'. m s d = (Inl e, d'))) \<or>
    (e = IndexError \<and> (\<forall>m \<in> set ms. \<exists>d d'. m s d = (Inl AssertionError, d')))"
  using assms
proof (induction ms s ds rule: mutate_loop.induct)
  case (1 ms s ds)
  show ?case
  proof (cases "ms = []")
    case True
    with 1(2) show ?thesis by (simp add: mutate_loop_Nil)
  next
    case False
    from pick_mutation [OF this] obtain idx m ds1 where
      m: "idx < length ms" "m = ms ! idx" and pick: "choice (enumerate 0 ms) ds = (Inr (idx, m), ds1)"
      by metis
    obtain r ds2 where r: "m s ds1 = (r, ds2)" by fastforce
    obtain e2 where e2: "r = Inl e2"
      using 1(2) pick r by (cases r) (simp_all add: mutate_loop.simps [of ms])
    show ?thesis
    proof (cases "e2 = AssertionError")
      case True
      then have "mutate_loop (snd (pop_at idx ms)) s ds2 = (Inl e, ds')"
        using 1(2) pick r e2 by (simp add: mutate_loop.simps [of ms])
      from 1(1) [OF pick [symmetric] refl refl _ _ True this] r e2
      have IH: "(e \<noteq> AssertionError \<and> (\<exists>m \<in> set (snd (pop_at idx ms)). \<exists>d d'. m s d = (Inl e, d'))) \<or>
        (e = IndexError \<and> (\<forall>m \<in> set (snd (pop_at idx ms)). \<exists>d d'. m s d = (Inl AssertionError, d')))"
        by simp
      have "\<exists>d d'. (ms ! idx) s d = (Inl AssertionError, d')"
        using m r e2 True by blast
      with IH pop_at_set [OF m(1)] show ?thesis by blast
    next
      case False
      then have "e = e2"
        using 1(2) pick r e2 by (simp add: mutate_loop.simps [of ms])
      moreover have "m \<in> set ms" using m by simp
      ultimately show ?thesis using r e2 False by blast
    qed
  qed
qed

lemma duplicate_always: "s \<noteq> [] \<Longrightarrow> \<exists>s' ds'. duplicate_random_request s ds = (Inr s', ds')"
proof -
  assume "s \<noteq> []"
  then have "raises_only (\<lambda>_. False) (bindS (randint 0 (length s - 1)) (\<lambda>i. returnS (insert_at i (s ! i) s)))"
    by (intro raises_only_bindS raises_only_simple) simp_all
  with \<open>s \<noteq> []\<close> have "duplicate_random_request s ds \<noteq> (Inl e, t)" for e t
    by (cases s) (auto simp: duplicate_random_request_def raises_only_def bindS_Inl)
  then show ?thesis
    by (metis obj_sumE surj_pair)
qed

lemma mutate_error:
  assumes "mutate gunzip s ds = (Inl e, ds')"
  shows "if s = [] then e = IndexError else e \<noteq> AssertionError \<and> (\<exists>x \<in> set s. parse_request_stream gunzip x = Inl e)"
proof -
  have err: "edit_error gunzip s e" if "m \<in> set (mutations gunzip)" "m s d = (Inl e, d')" for m d d' e
    using raises_onlyD [OF mutations_raise [OF that(1)] that(2)] .
  from mutate_loop_error [OF assms [unfolded mutate_def]] show ?thesis
  proof (elim disjE conjE)
    assume "e \<noteq> AssertionError" "\<exists>m \<in> set (mutations gunzip). \<exists>d d'. m s d = (Inl e, d')"
    then show ?thesis using err by (fastforce simp: edit_error_def)
  next
    assume e: "e = IndexError" and all: "\<forall>m \<in> set (mutations gunzip). \<exists>d d'. m s d = (Inl AssertionError, d')"
    have "duplicate_random_request \<in> set (mutations gunzip)"
      by (simp add: mutations_def)
    with all obtain d d' where "duplicate_random_request s d = (Inl AssertionError, d')" by blast
    then have "s = []" using duplicate_always [of s d] by auto
    with e show ?thesis by simp
  qed
qed

lemma mutate_nothing: "\<exists>ds'. mutate gunzip [] ds = (Inl IndexError, ds')"
proof -
  have fails: "fst (m [] d) = Inl AssertionError" if "m \<in> set (mutations gunzip)" for m d
    using that by (auto simp: mutations_def delete_random_byte_def replace_random_byte_def insert_random_byte_def
        insert_random_meaningful_byte_def delete_random_header_def insert_random_header_def replace_random_header_def
        replace_method_def edit_request_def concat_random_requests_def shift_random_request_boundaries_def
        split_random_request_def duplicate_random_request_def delete_random_request_def assertS_def bindS_def)
  obtain r ds' where r: "mutate gunzip [] ds = (r, ds')" by fastforce
  have "\<not> (\<exists>s'. r = Inr s')"
  proof -
    have "mutate_loop ms s ds \<noteq> (Inr s', ds')"
      if "s = []" "set ms \<subseteq> set (mutations gunzip)" for ms s ds s' ds'
      using that
    proof (induction ms s ds rule: mutate_loop.induct)
      case (1 ms s ds)
      show ?case
      proof
        assume loop: "mutate_loop ms s ds = (Inr s', ds')"
        then have "ms \<noteq> []" by (auto simp: mutate_loop_Nil)
        from pick_mutation [OF this] obtain idx m ds1 where
          m: "idx < length ms" "m = ms ! idx" and pick: "choice (enumerate 0 ms) ds = (Inr (idx, m), ds1)"
          by metis
        then have "m \<in> set (mutations gunzip)" using 1(3) by auto
        then obtain ds2 where ds2: "m s ds1 = (Inl AssertionError, ds2)"
          using fails [of m ds1] 1(2) by (metis prod.collapse)
        then have "mutate_loop (snd (pop_at idx ms)) s ds2 = (Inr s', ds')"
          using loop pick by (simp add: mutate_loop.simps [of ms])
        moreover have "set (snd (pop_at idx ms)) \<subseteq> set (mutations gunzip)"
          using pop_at_set [OF m(1)] 1(3) by blast
        ultimately show False
          using 1(1) [OF pick [symmetric] refl refl ds2 [symmetric] refl refl] 1(2) by blast
      qed
    qed
    then show ?thesis using r by (auto simp: mutate_def)
  qed
  then obtain e where "r = Inl e" by (cases r) auto
  with r mutate_error [of gunzip "[]" ds e ds'] show ?thesis by simp
qed

section \<open>Edits of bytes\<close>

lemma total_len: "total_len s = length (concat s)"
  by (simp add: total_len_def length_concat)

text \<open>The edit of one piece, seen on the whole stream: at one place, some bytes replace a number of others.\<close>

lemma edit_at_splice:
  assumes "idx < length (concat s)" and "k \<le> 1" and "g ds = (Inr b, t)"
  shows "\<exists>s'. edit_at (\<lambda>req i. bindS g (\<lambda>b. returnS (take i req @ b @ drop (i + k) req))) s idx ds = (Inr s', t) \<and>
    concat s' = take idx (concat s) @ b @ drop (idx + k) (concat s) \<and> length s' = length s"
  using assms
proof (induction s arbitrary: idx)
  case (Cons req s)
  let ?edit = "\<lambda>req i. bindS g (\<lambda>b. returnS (take i req @ b @ drop (i + k) req))"
  show ?case
  proof (cases "length req > idx")
    case True
    with Cons.prems(2) have "drop (idx + k) (req @ concat s) = drop (idx + k) req @ concat s" by simp
    with Cons.prems True show ?thesis by (simp add: bindS_def)
  next
    case False
    then have "idx - length req < length (concat s)"
      using Cons.prems(1) by simp
    from Cons.IH [OF this Cons.prems(2,3)] obtain s' where
      s': "edit_at ?edit s (idx - length req) ds = (Inr s', t)" "length s' = length s"
        "concat s' = take (idx - length req) (concat s) @ b @ drop (idx - length req + k) (concat s)"
      by blast
    have "edit_at ?edit (req # s) idx ds = bindS (edit_at ?edit s (idx - length req)) (\<lambda>s'. returnS (req # s')) ds"
      using False by simp
    also have "\<dots> = (Inr (req # s'), t)"
      by (subst bindS_ok [where m = "edit_at ?edit s (idx - length req)", OF s'(1)]) simp
    finally have "edit_at ?edit (req # s) idx ds = (Inr (req # s'), t)" .
    moreover have "concat (req # s') = take idx (concat (req # s)) @ b @ drop (idx + k) (concat (req # s))"
      using s'(3) False by simp
    moreover have "length (req # s') = length (req # s)"
      using s'(2) by simp
    ultimately show ?thesis by blast
  qed
qed simp

lemma edit_at_end: "length (concat s) \<le> idx \<Longrightarrow> edit_at edit s idx ds = (Inl AssertionError, ds)"
  by (induction s arbitrary: idx) (auto simp: bindS_def)

lemma delete_edit: "(\<lambda>req idx. returnS (take idx req @ drop (idx + 1) req)) =
    (\<lambda>req idx. bindS (returnS []) (\<lambda>b. returnS (take idx req @ b @ drop (idx + 1) req)))"
  by (simp add: bindS_def fun_eq_iff)

lemma insert_edit: "(\<lambda>req idx. bindS g (\<lambda>b. returnS (take idx req @ b @ drop idx req))) =
    (\<lambda>req idx. bindS g (\<lambda>b. returnS (take idx req @ b @ drop (idx + 0) req)))"
  by simp

lemma random_byte_value: "\<exists>b t. random_byte ds = (Inr [b], t)"
proof -
  have "raises_only (\<lambda>_. False) random_byte"
    unfolding random_byte_def by (intro raises_only_bindS raises_only_simple) simp
  then obtain x t where "random_byte ds = (Inr x, t)"
    by (metis obj_sumE raises_only_def surj_pair)
  then show ?thesis by (auto simp: random_byte_def bindS_Inr)
qed

lemma meaningful_value: "\<exists>b t. choice MEANINGFUL_BYTES ds = (Inr b, t) \<and> b \<in> set MEANINGFUL_BYTES"
proof -
  have "MEANINGFUL_BYTES \<noteq> []" by (simp add: MEANINGFUL_BYTES_def)
  then have "raises_only (\<lambda>_. False) (choice MEANINGFUL_BYTES)"
    by (intro raises_only_simple)
  then obtain b t where b: "choice MEANINGFUL_BYTES ds = (Inr b, t)"
    by (metis obj_sumE raises_only_def surj_pair)
  with \<open>MEANINGFUL_BYTES \<noteq> []\<close> obtain i where "randint 0 (length MEANINGFUL_BYTES - 1) ds = (Inr i, t)" "b = MEANINGFUL_BYTES ! i"
    by (auto simp: choice_def bindS_Inr)
  moreover from this have "i < length MEANINGFUL_BYTES"
    using randint_Inr [of 0 "length MEANINGFUL_BYTES - 1" ds i t] by (simp add: MEANINGFUL_BYTES_def)
  ultimately show ?thesis using b by simp
qed

lemma randint_value: "a \<le> b \<Longrightarrow> \<exists>i t. randint a b ds = (Inr i, t) \<and> a \<le> i \<and> i \<le> b"
proof -
  assume "a \<le> b"
  then have "raises_only (\<lambda>_. False) (randint a b)"
    by (intro raises_only_simple)
  then obtain i t where "randint a b ds = (Inr i, t)"
    by (metis obj_sumE raises_only_def surj_pair)
  with randint_Inr show ?thesis by blast
qed

text \<open>What a mutation made of the stream, from the outcome of its edit.\<close>

definition spliced :: "bytes list \<Rightarrow> nat \<Rightarrow> (bytes \<Rightarrow> bool) \<Rightarrow> bytes list result \<Rightarrow> bool" where
  "spliced s k new r =
     (case r of
        Inl e \<Rightarrow> e = AssertionError
      | Inr s' \<Rightarrow> length s' = length s \<and>
          (\<exists>idx b. idx < length (concat s) \<and> new b \<and> concat s' = take idx (concat s) @ b @ drop (idx + k) (concat s)))"

lemma edit_at_spliced:
  assumes "k \<le> 1" and "\<And>ds. \<exists>b t. g ds = (Inr b, t) \<and> new b"
  shows "spliced s k new (fst (bindS (randint 0 n) (\<lambda>idx.
    edit_at (\<lambda>req i. bindS g (\<lambda>b. returnS (take i req @ b @ drop (i + k) req))) s idx) ds))"
proof -
  let ?edit = "edit_at (\<lambda>req i. bindS g (\<lambda>b. returnS (take i req @ b @ drop (i + k) req))) s"
  obtain idx ds1 where idx: "randint 0 n ds = (Inr idx, ds1)"
    using randint_value [of 0 n ds] by blast
  obtain b t where b: "g ds1 = (Inr b, t)" "new b"
    using assms(2) by blast
  have "spliced s k new (fst (?edit idx ds1))"
  proof (cases "idx < length (concat s)")
    case True
    obtain s' where "?edit idx ds1 = (Inr s', t)" "length s' = length s"
      "concat s' = take idx (concat s) @ b @ drop (idx + k) (concat s)"
      using edit_at_splice [where g = g, OF True assms(1) b(1)] by blast
    with b(2) True show ?thesis
      unfolding spliced_def by auto
  next
    case False
    then show ?thesis by (simp add: edit_at_end spliced_def)
  qed
  then show ?thesis
    by (subst bindS_ok [where m = "randint 0 n", OF idx])
qed

lemma spliced_assert: "spliced s k new (fst (m ds)) \<Longrightarrow> spliced s k new (fst (bindS (assertS c) (\<lambda>_. m) ds))"
  by (cases c) (simp_all add: bindS_def assertS_def spliced_def)

lemma byte_mutations_splice:
  "spliced s 1 (\<lambda>b. b = []) (fst (delete_random_byte s ds))"
  "spliced s 1 (\<lambda>b. length b = 1) (fst (replace_random_byte s ds))"
  "spliced s 0 (\<lambda>b. length b = 1) (fst (insert_random_byte s ds))"
  "spliced s 0 (\<lambda>b. b \<in> set MEANINGFUL_BYTES) (fst (insert_random_meaningful_byte s ds))"
proof -
  have byte: "\<exists>b t. random_byte ds = (Inr b, t) \<and> length b = 1" for ds
    using random_byte_value [of ds] by auto
  show "spliced s 1 (\<lambda>b. b = []) (fst (delete_random_byte s ds))"
    unfolding delete_random_byte_def delete_edit by (intro spliced_assert edit_at_spliced) simp_all
  show "spliced s 1 (\<lambda>b. length b = 1) (fst (replace_random_byte s ds))"
    unfolding replace_random_byte_def by (intro spliced_assert edit_at_spliced byte) simp
  show "spliced s 0 (\<lambda>b. length b = 1) (fst (insert_random_byte s ds))"
    unfolding insert_random_byte_def insert_edit by (intro spliced_assert edit_at_spliced byte) simp
  show "spliced s 0 (\<lambda>b. b \<in> set MEANINGFUL_BYTES) (fst (insert_random_meaningful_byte s ds))"
    unfolding insert_random_meaningful_byte_def insert_edit by (intro spliced_assert edit_at_spliced meaningful_value) simp
qed

text \<open>The position after the last byte can be drawn, but no piece is found for it.\<close>

lemma no_insertion_at_the_end:
  assumes "s \<noteq> []"
  shows "fst (insert_random_byte s (length (concat s) # ds)) = Inl AssertionError"
    and "fst (insert_random_meaningful_byte s (length (concat s) # ds)) = Inl AssertionError"
proof -
  have "length s \<ge> 1" using assms by (cases s) auto
  then show "fst (insert_random_byte s (length (concat s) # ds)) = Inl AssertionError"
    "fst (insert_random_meaningful_byte s (length (concat s) # ds)) = Inl AssertionError"
    by (simp_all add: insert_random_byte_def insert_random_meaningful_byte_def bindS_def assertS_def randint_def total_len edit_at_end)
qed

section \<open>Moving the pieces\<close>

lemma split_at_piece:
  assumes "i < length s"
  obtains p x q where "s = p @ x # q" and "length p = i"
proof -
  have "s = take i s @ s ! i # drop (Suc i) s" "length (take i s) = i"
    using assms by (simp_all add: id_take_nth_drop)
  then show ?thesis by (rule that)
qed

lemma split_at_two:
  assumes "i + 1 < length s"
  obtains p x y q where "s = p @ x # y # q" and "length p = i"
proof -
  obtain p x q where s: "s = p @ x # q" "length p = i"
    using assms by (metis split_at_piece add_lessD1)
  with assms that show ?thesis by (cases q) auto
qed

lemma at_piece:
  assumes "length p = i"
  shows "(p @ x # q) ! i = x" and "(p @ x # q)[i := z] = p @ z # q" and "pop_at i (p @ x # q) = (x, p @ q)"
    and "insert_at i x (p @ q) = p @ x # q"
  using assms by (auto simp: pop_at_def insert_at_def)

lemma case_InrI: "r = Inr x \<Longrightarrow> Q x \<Longrightarrow> case r of Inl e \<Rightarrow> P e | Inr x \<Rightarrow> Q x"
  by simp

lemma index_below: "randint 0 (length s - 2) ds = (Inr i, t) \<Longrightarrow> length s \<ge> 2 \<Longrightarrow> i + 1 < length s"
  using randint_Inr by fastforce

lemma index_in: "randint 0 (length s - 1) ds = (Inr i, t) \<Longrightarrow> s \<noteq> [] \<Longrightarrow> i < length s"
  using randint_Inr [of 0 "length s - 1" ds i t] by (cases s) auto

lemma concat_random_requests_spec:
  "case fst (concat_random_requests s ds) of
     Inl e \<Rightarrow> e = AssertionError \<and> length s < 2
   | Inr s' \<Rightarrow> \<exists>p x y q. s = p @ [x, y] @ q \<and> s' = p @ [x @ y] @ q"
proof (cases "length s \<ge> 2")
  case True
  obtain i t where i: "randint 0 (length s - 2) ds = (Inr i, t)"
    using randint_value [of 0 "length s - 2" ds] by auto
  obtain p x y q where "s = p @ x # y # q" "length p = i"
    using index_below [OF i True] by (rule split_at_two)
  note s = this
  with True i have "fst (concat_random_requests s ds) = Inr (p @ [x @ y] @ q)"
    by (simp add: concat_random_requests_def bindS_def assertS_def at_piece)
  then show ?thesis
    by (rule case_InrI) (rule exI [of _ p], rule exI [of _ x], rule exI [of _ y], rule exI [of _ q], simp add: s)
qed (simp add: concat_random_requests_def bindS_def assertS_def)

lemma shift_random_request_boundaries_spec:
  "case fst (shift_random_request_boundaries s ds) of
     Inl e \<Rightarrow> e = AssertionError \<and> length s < 2
   | Inr s' \<Rightarrow> \<exists>p x y q first second. s = p @ [x, y] @ q \<and> first @ second = x @ y \<and> s' = p @ [second, first] @ q"
proof (cases "length s \<ge> 2")
  case True
  obtain i t where i: "randint 0 (length s - 2) ds = (Inr i, t)"
    using randint_value [of 0 "length s - 2" ds] by auto
  obtain p x y q where s: "s = p @ x # y # q" "length p = i"
    using index_below [OF i True] by (rule split_at_two)
  obtain n t' where n: "randint 0 (length (x @ y)) t = (Inr n, t')"
    using randint_value [of 0 "length (x @ y)" t] by auto
  have "fst (shift_random_request_boundaries s ds) = Inr (p @ [drop n (x @ y), take n (x @ y)] @ q)"
    using True i n s(2) unfolding shift_random_request_boundaries_def s(1)
    by (simp add: bindS_def assertS_def at_piece Let_def del: take_append drop_append)
  then show ?thesis
    by (rule case_InrI) (rule exI [of _ p], rule exI [of _ x], rule exI [of _ y], rule exI [of _ q],
        rule exI [of _ "take n (x @ y)"], rule exI [of _ "drop n (x @ y)"], simp add: s del: take_append drop_append)
qed (simp add: shift_random_request_boundaries_def bindS_def assertS_def)

lemma split_random_request_spec:
  "case fst (split_random_request s ds) of
     Inl e \<Rightarrow> e = AssertionError
   | Inr s' \<Rightarrow> \<exists>p x y q. x \<noteq> [] \<and> y \<noteq> [] \<and> s = p @ [x @ y] @ q \<and> s' = p @ [x, y] @ q"
proof (cases "s = []")
  case False
  obtain i t where i: "randint 0 (length s - 1) ds = (Inr i, t)"
    using randint_value [of 0 "length s - 1" ds] by auto
  obtain p x q where s: "s = p @ x # q" "length p = i"
    using index_in [OF i False] by (rule split_at_piece)
  show ?thesis
  proof (cases "length x \<ge> 2")
    case True
    obtain n t' where n: "randint 1 (length x - 1) t = (Inr n, t')" "1 \<le> n" "n \<le> length x - 1"
      using randint_value [of 1 "length x - 1" t] True by fastforce
    have "fst (split_random_request s ds) = Inr (p @ [take n x, drop n x] @ q)"
      using True i n s by (simp add: split_random_request_def bindS_def assertS_def at_piece)
    moreover have "take n x \<noteq> []" "drop n x \<noteq> []" "take n x @ drop n x = x"
      using n True by auto
    ultimately show ?thesis
      by - (rule case_InrI, assumption, rule exI [of _ p], rule exI [of _ "take n x"], rule exI [of _ "drop n x"],
        rule exI [of _ q], simp add: s)
  next
    case False
    with i s show ?thesis
      by (simp add: split_random_request_def bindS_def assertS_def at_piece)
  qed
qed (simp add: split_random_request_def bindS_def assertS_def)

lemma duplicate_random_request_spec:
  "case fst (duplicate_random_request s ds) of
     Inl e \<Rightarrow> e = AssertionError \<and> s = []
   | Inr s' \<Rightarrow> \<exists>p x q. s = p @ [x] @ q \<and> s' = p @ [x, x] @ q"
proof (cases "s = []")
  case False
  obtain i t where i: "randint 0 (length s - 1) ds = (Inr i, t)"
    using randint_value [of 0 "length s - 1" ds] by auto
  obtain p x q where "s = p @ x # q" "length p = i"
    using index_in [OF i False] by (rule split_at_piece)
  note s = this
  with i have "fst (duplicate_random_request s ds) = Inr (p @ [x, x] @ q)"
    by (simp add: duplicate_random_request_def bindS_def assertS_def at_piece)
  then show ?thesis
    by (rule case_InrI) (rule exI [of _ p], rule exI [of _ x], rule exI [of _ q], simp add: s)
qed (simp add: duplicate_random_request_def bindS_def assertS_def)

lemma delete_random_request_spec:
  "case fst (delete_random_request s ds) of
     Inl e \<Rightarrow> e = AssertionError \<and> length s < 2
   | Inr s' \<Rightarrow> \<exists>p x q. s = p @ [x] @ q \<and> s' = p @ q"
proof (cases "length s \<ge> 2")
  case True
  obtain i t where i: "randint 0 (length s - 1) ds = (Inr i, t)"
    using randint_value [of 0 "length s - 1" ds] by auto
  obtain p x q where "s = p @ x # q" "length p = i"
    using index_in [OF i] True by (metis split_at_piece list.size(3) not_numeral_le_zero)
  note s = this
  with True i have "fst (delete_random_request s ds) = Inr (p @ q)"
    by (simp add: delete_random_request_def bindS_def assertS_def at_piece)
  then show ?thesis
    by (rule case_InrI) (rule exI [of _ p], rule exI [of _ x], rule exI [of _ q], simp add: s)
qed (simp add: delete_random_request_def bindS_def assertS_def)

section \<open>Chunks\<close>

lemma sample_distinct:
  "sample xs k ds = (Inr ys, t) \<Longrightarrow> distinct xs \<Longrightarrow> distinct ys \<and> set ys \<subseteq> set xs"
proof (induction xs k arbitrary: ds ys rule: sample.induct)
  case (2 xs k)
  have ne: "xs \<noteq> []"
    using 2(2) by (cases "xs = []") simp_all
  then obtain i t1 zs t2 where i: "randint 0 (length xs - 1) ds = (Inr i, t1)"
    and zs: "sample (take i xs @ drop (Suc i) xs) k t1 = (Inr zs, t2)" and ys: "ys = xs ! i # zs"
    using 2(2) by (auto simp: bindS_Inr)
  obtain p x q where s: "xs = p @ x # q" "length p = i"
    using index_in [OF i ne] by (rule split_at_piece)
  then have rest: "take i xs @ drop (Suc i) xs = p @ q" "xs ! i = x"
    by auto
  have t2: "t2 = t"
    using 2(2) ne i zs by (simp add: bindS_def)
  have "distinct zs \<and> set zs \<subseteq> set (p @ q)"
    using 2(1) [OF ne, of i t1 zs] zs rest 2(3) s t2 by simp
  with ys rest s 2(3) show ?case by auto
qed simp

text \<open>Cuts that go up cut the data into nonempty pieces.\<close>

lemma chunks_at_Cons: "chunks_at data (a # b # cuts) = take (b - a) (drop a data) # chunks_at data (b # cuts)"
  by (simp add: chunks_at_def)

lemma chunks_at_pieces:
  assumes "sorted_wrt (<) (a # cuts)" and "last (a # cuts) = length data"
  shows "concat (chunks_at data (a # cuts)) = drop a data \<and> (\<forall>c \<in> set (chunks_at data (a # cuts)). c \<noteq> [] \<and> length c \<le> length data)"
  using assms
proof (induction cuts arbitrary: a)
  case Nil
  then show ?case by (simp add: chunks_at_def)
next
  case (Cons b cuts)
  have le: "b \<le> length data"
  proof (cases cuts)
    case (Cons c cs)
    then have "length data \<in> set cuts"
      using Cons.prems(2) by (metis last.simps last_in_set list.distinct(1))
    with Cons.prems(1) show ?thesis by auto
  qed (use Cons.prems in simp)
  have IH: "concat (chunks_at data (b # cuts)) = drop b data"
    "\<forall>c \<in> set (chunks_at data (b # cuts)). c \<noteq> [] \<and> length c \<le> length data"
    using Cons by auto
  have "take (b - a) (drop a data) @ drop b data = drop a data"
    using Cons.prems(1) by (metis append_take_drop_id drop_drop le_add_diff_inverse2 less_imp_le list.set_intros(1) sorted_wrt.simps(2))
  moreover have "take (b - a) (drop a data) \<noteq> []"
    using Cons.prems(1) le by auto
  ultimately show ?case
    using IH unfolding chunks_at_Cons by auto
qed

text \<open>A chunk as it is written, and as the wire has it.\<close>

lemma hex_digits_ok: "hex_digits n \<noteq> [] \<and> list_all is_hex_digit (ascii (hex_digits n)) \<and> int_of_hex (ascii (hex_digits n)) = n"
proof -
  have digits: "list_all (\<lambda>m. is_hex_digit (of_char (hex_digit (int m))) \<and> hex_digit_value (of_char (hex_digit (int m))) = m) [0..<16]"
    by code_simp
  then have digit: "is_hex_digit (of_char (hex_digit (int m)))" "hex_digit_value (of_char (hex_digit (int m))) = m" if "m < 16" for m
    using that by (auto simp: list_all_iff)
  show ?thesis
  proof (induction n rule: hex_digits.induct)
    case (1 n)
    show ?case
    proof (cases "n < 16")
      case True
      then show ?thesis using digit [of n] by (simp add: hex_digits.simps [of n] ascii_def int_of_hex_def)
    next
      case False
      have "n mod 16 < 16" by simp
      from 1 [OF False] digit [OF this] False show ?thesis
        by (simp add: hex_digits.simps [of n] ascii_def int_of_hex_def)
    qed
  qed
qed

definition chunk_line :: "bool \<Rightarrow> bytes \<Rightarrow> wire_chunk" where
  "chunk_line extended chunk =
     (ascii (hex_digits (length chunk)), if extended then ascii '';abc=123'' else [], chunk)"

lemma write_chunk_line: "write_chunk c ds = (Inr b, t) \<Longrightarrow> \<exists>extended. b = render_chunk (chunk_line extended c)"
proof -
  assume "write_chunk c ds = (Inr b, t)"
  then obtain extended where "b = ascii (drop 2 (hex (int (length c)))) @ (if extended then ascii '';abc=123'' else []) @
      [CR, LF] @ c @ [CR, LF]"
    unfolding write_chunk_def bindS_Inr returnS_eq prod.inject sum.inject by blast
  moreover have "drop 2 (hex (int (length c))) = hex_digits (length c)"
    by (simp add: hex_def)
  ultimately have "b = render_chunk (chunk_line extended c)"
    by (simp add: chunk_line_def render_chunk_def)
  then show ?thesis ..
qed

lemma chunk_line_ok:
  assumes "c \<noteq> []" and "int (length c) < 4294967295"
  shows "chunk_ok (chunk_line extended c)"
proof -
  have "LF \<notin> set (ascii '';abc=123'')" "\<not> is_hex_digit (hd (ascii '';abc=123''))"
    by code_simp+
  with assms hex_digits_ok [of "length c"] show ?thesis
    by (simp add: chunk_ok_def chunk_line_def chunk_size_ok_def ascii_def)
qed

lemma write_chunks:
  "mapS write_chunk chunks ds = (Inr bs, t) \<Longrightarrow>
    \<exists>cs. concat bs = concat (map render_chunk cs) \<and> map (\<lambda>(h, ext, d). d) cs = chunks \<and>
      (list_all (\<lambda>c. c \<noteq> [] \<and> int (length c) < 4294967295) chunks \<longrightarrow> list_all chunk_ok cs)"
proof (induction chunks arbitrary: ds bs)
  case (Cons c chunks)
  then obtain b t1 bs' t2 where b: "write_chunk c ds = (Inr b, t1)" and bs': "mapS write_chunk chunks t1 = (Inr bs', t2)"
    and bs: "bs = b # bs'" and t2: "t2 = t"
    by (auto simp: bindS_Inr)
  obtain extended where "b = render_chunk (chunk_line extended c)"
    using write_chunk_line [OF b] ..
  moreover obtain cs where "concat bs' = concat (map render_chunk cs)" "map (\<lambda>(h, ext, d). d) cs = chunks"
    "list_all (\<lambda>c. c \<noteq> [] \<and> int (length c) < 4294967295) chunks \<longrightarrow> list_all chunk_ok cs"
    using Cons.IH [OF bs' [unfolded t2]] by blast
  ultimately show ?case
    using bs chunk_line_ok [of c extended] by (intro exI [of _ "chunk_line extended c # cs"]) (simp add: chunk_line_def)
qed simp

definition trailer :: bytes where
  "trailer = ascii ''Trailer-Is: This'' @ [CR, LF]"

lemma randomly_chunk_wire:
  assumes "randomly_chunk data ds = (Inr b, t)" and "int (length data) < 4294967295"
  shows "\<exists>cs has_trailer. list_all chunk_ok cs \<and> concat (map (\<lambda>(h, ext, d). d) cs) = data \<and>
    b = concat (map render_chunk cs) @ ascii ''0'' @ [CR, LF] @ (if has_trailer then trailer else []) @ [CR, LF]"
proof (cases "data = []")
  case True
  with assms(1) show ?thesis
    by (intro exI [of _ "[]"] exI [of _ False]) (simp add: randomly_chunk_def)
next
  case False
  then obtain n t1 between t2 bs t3 has_trailer where n: "randint 0 (length data - 1) ds = (Inr n, t1)"
    and between: "sample [1..<length data] n t1 = (Inr between, t2)"
    and bs: "mapS write_chunk (chunks_at data ([0] @ sort between @ [length data])) t2 = (Inr bs, t3)"
    and b: "b = concat bs @ ascii ''0'' @ [CR, LF] @ (if has_trailer then ascii ''Trailer-Is: This'' @ [CR, LF] else []) @ [CR, LF]"
    using assms(1) unfolding randomly_chunk_def Let_def by (simp only: bindS_Inr returnS_eq prod.inject sum.inject length_0_conv if_False) blast
  have "distinct between" "set between \<subseteq> {1..<length data}"
    using sample_distinct [OF between] by simp_all
  then have "sorted_wrt (<) (0 # sort between @ [length data])"
    using False by (auto simp: sorted_wrt_append strict_sorted_iff)
  then have pieces: "concat (chunks_at data (0 # sort between @ [length data])) = data"
    "\<forall>c \<in> set (chunks_at data (0 # sort between @ [length data])). c \<noteq> [] \<and> length c \<le> length data"
    using chunks_at_pieces [of 0 "sort between @ [length data]" data] by simp_all
  then have "list_all (\<lambda>c. c \<noteq> [] \<and> int (length c) < 4294967295) (chunks_at data (0 # sort between @ [length data]))"
    using assms(2) by (fastforce simp: list_all_iff)
  with write_chunks [OF bs] obtain cs where "concat bs = concat (map render_chunk cs)" "list_all chunk_ok cs"
    "map (\<lambda>(h, ext, d). d) cs = chunks_at data (0 # sort between @ [length data])"
    by auto
  with pieces(1) b show ?thesis
    by (intro exI [of _ cs] exI [of _ has_trailer]) (simp add: trailer_def)
qed

section \<open>Requests written and read again\<close>

definition says_transfer_encoding :: "http_request \<Rightarrow> bool" where
  "says_transfer_encoding r \<longleftrightarrow> ascii ''transfer-encoding'' \<in> set (map (\<lambda>p. lower (fst p)) (req_headers r))"

lemma no_transfer_encoding:
  "body_headers hs cl te ce = Inr (cl', te', ce') \<Longrightarrow> ascii ''transfer-encoding'' \<notin> set (map (\<lambda>p. lower (fst p)) hs) \<Longrightarrow> te' = te"
  by (induction hs cl te ce rule: body_headers.induct) (auto simp: bindE_eq_Inr Let_def split: if_splits)

text \<open>A request whose headers frame its body the way \<open>unparse_request\<close> writes it: in chunks if and only if some
  \<open>Transfer-Encoding\<close> is there.\<close>

definition writable :: "http_request \<Rightarrow> bool" where
  "writable r \<longleftrightarrow> token (req_method r) \<and> token (req_uri r) \<and> token (req_version r) \<and> list_all header_ok (req_headers r) \<and>
     int (length (req_body r)) < 4294967295 \<and>
     (case body_headers (req_headers r) None [] [] of
        Inl e \<Rightarrow> False
      | Inr (cl, te, ce) \<Rightarrow> ascii ''gzip'' \<notin> set ce \<and>
          (if says_transfer_encoding r then ascii ''chunked'' \<in> set te
           else length (req_body r) = (case cl of None \<Rightarrow> 0 | Some n \<Rightarrow> n)))"

lemma written_request:
  assumes "unparse_request r ds = (Inr b, t)"
  obtains body ds' t' where "b = req_method r @ [SP] @ req_uri r @ [SP] @ ascii ''HTTP/'' @ req_version r @ [CR, LF] @
      render_headers (req_headers r) @ body"
    and "if says_transfer_encoding r then randomly_chunk (req_body r) ds' = (Inr body, t') else body = req_body r"
proof -
  have lines: "concat (map (\<lambda>(k, v). k @ ascii '': '' @ v @ [CR, LF]) hs) = crlf_lines (map (\<lambda>(k, v). k @ COLON # SP # v) hs)" for hs
    by (induction hs) (auto simp: crlf_lines_def ascii_def)
  obtain body t' where "(if says_transfer_encoding r then randomly_chunk (req_body r) else returnS (req_body r)) ds = (Inr body, t')"
    and "b = req_method r @ ascii '' '' @ req_uri r @ ascii '' '' @ ascii ''HTTP/'' @ req_version r @ [CR, LF] @
      concat (map (\<lambda>(k, v). k @ ascii '': '' @ v @ [CR, LF]) (req_headers r)) @ [CR, LF] @ body"
    using assms unfolding unparse_request_def says_transfer_encoding_def Let_def bindS_Inr returnS_eq prod.inject sum.inject
    by blast
  moreover have "ascii '' '' = [SP]"
    by (simp add: ascii_def)
  ultimately show ?thesis
    using that [of body ds t'] unfolding lines render_headers_def by (simp split: if_splits)
qed

lemma trailer_refused:
  assumes "list_all chunk_ok cs"
  shows "parse_chunks [] (concat (map render_chunk cs) @ ascii ''0'' @ [CR, LF] @ trailer @ rest) = Inl ValueError"
proof -
  have "chunk_size_ok (ascii ''0'') [] 0"
    by code_simp
  from chunk_header_match [OF this, of "trailer @ rest"]
  have "re_match chunk_header_re (ascii ''0'' @ [CR, LF] @ trailer @ rest) = Some ([(''length'', ascii ''0'')], trailer @ rest)"
    by simp
  moreover have "int_of_hex (ascii ''0'') = 0"
    by code_simp
  moreover obtain re where re: "chunk_data_re 0 = Inr re" "re = Cat [Named ''data'' (Repeat (\<lambda>_. True) 0), byte_is CR, byte_is LF]"
    by (simp add: chunk_data_re_def)
  moreover have "re_match re (trailer @ rest) = None"
    by (simp add: re re_match_def trailer_def ascii_def byte_is_def runs.simps(5))
  ultimately have "parse_chunks body (ascii ''0'' @ [CR, LF] @ trailer @ rest) = Inl ValueError" for body
    by (subst parse_chunks.simps) (simp add: the_group_def group_def)
  then show ?thesis
    unfolding parse_chunks_front [OF assms] .
qed

lemma trailer_request_refused:
  assumes "token m" "token u" "token v" "list_all header_ok hs" and "body_headers hs None [] [] = Inr (cl, te, ce)"
    and "ascii ''chunked'' \<in> set te" and "ascii ''gzip'' \<notin> set ce" and "list_all chunk_ok cs"
  shows "parse_request gunzip ((m @ [SP] @ u @ [SP] @ ascii ''HTTP/'' @ v @ [CR, LF] @ render_headers hs @
    concat (map render_chunk cs) @ ascii ''0'' @ [CR, LF] @ trailer @ [CR, LF]) @ rest) = Inl ValueError"
proof -
  let ?body = "concat (map render_chunk cs) @ ascii ''0'' @ [CR, LF] @ trailer @ [CR, LF]"
  have "parse_body gunzip hs (?body @ rest) False = Inl ValueError"
    using assms(5,6,7) trailer_refused [OF assms(8), of "[CR, LF] @ rest"] by (simp add: parse_body_def)
  then show ?thesis
    using request_line_match [OF assms(1-3), of "render_headers hs @ ?body @ rest"]
      parse_rendered_headers [OF assms(4), of "?body @ rest"]
    by (simp add: parse_request_def)
qed

lemma unparse_parses:
  assumes w: "writable r" and b: "unparse_request r ds = (Inr b, t)"
  shows "parse_request gunzip (b @ rest) = Inr (r, rest) \<or>
    parse_request gunzip (b @ rest) = Inl ValueError \<and> (\<exists>p. b = p @ trailer @ [CR, LF])"
proof -
  obtain cl te ce where h: "body_headers (req_headers r) None [] [] = Inr (cl, te, ce)"
    using w by (auto simp: writable_def split: sum.splits)
  have ok: "token (req_method r)" "token (req_uri r)" "token (req_version r)" "list_all header_ok (req_headers r)"
    and len: "int (length (req_body r)) < 4294967295" and gzip: "ascii ''gzip'' \<notin> set ce"
    using w h by (simp_all add: writable_def)
  obtain body ds' t' where bytes: "b = req_method r @ [SP] @ req_uri r @ [SP] @ ascii ''HTTP/'' @ req_version r @ [CR, LF] @
      render_headers (req_headers r) @ body"
    and body: "if says_transfer_encoding r then randomly_chunk (req_body r) ds' = (Inr body, t') else body = req_body r"
    using written_request [OF b] by metis
  show ?thesis
  proof (cases "says_transfer_encoding r")
    case False
    have "te = []"
      using no_transfer_encoding [OF h] False by (simp add: says_transfer_encoding_def)
    then have "framed (req_headers r) (Sized (req_body r))"
      using w h False gzip by (simp add: writable_def framed_def)
    with ok have "request_ok r (Sized (req_body r))"
      by (simp add: request_ok_def)
    from parse_rendered_request [OF this, of gunzip rest] show ?thesis
      using bytes body False by (simp add: render_request_def)
  next
    case True
    then have chunked: "ascii ''chunked'' \<in> set te"
      using w h by (simp add: writable_def)
    obtain cs has_trailer where cs: "list_all chunk_ok cs" "concat (map (\<lambda>(h, ext, d). d) cs) = req_body r"
      and wire: "body = concat (map render_chunk cs) @ ascii ''0'' @ [CR, LF] @ (if has_trailer then trailer else []) @ [CR, LF]"
      using randomly_chunk_wire [of "req_body r" ds' body t', OF _ len] body True by auto
    show ?thesis
    proof (cases has_trailer)
      case False
      have zero: "chunk_size_ok (ascii ''0'') [] 0"
        by code_simp
      have "request_ok r (Chunked cs (ascii ''0'') [])"
        using ok cs chunked gzip h zero by (simp add: request_ok_def framed_def)
      from parse_rendered_request [OF this, of gunzip rest] show ?thesis
        using bytes wire False by (simp add: render_request_def render_chunk_def)
    next
      case has: True
      have "parse_request gunzip (b @ rest) = Inl ValueError"
        using trailer_request_refused [OF ok h chunked gzip cs(1), of gunzip rest] bytes wire has by simp
      moreover have "b = (req_method r @ [SP] @ req_uri r @ [SP] @ ascii ''HTTP/'' @ req_version r @ [CR, LF] @
          render_headers (req_headers r) @ concat (map render_chunk cs) @ ascii ''0'' @ [CR, LF]) @ trailer @ [CR, LF]"
        using bytes wire has by simp
      ultimately show ?thesis by blast
    qed
  qed
qed

section \<open>A header is inserted over another\<close>

text \<open>\<open>insert_random_header\<close> puts its header in the place of one that was there: the slice after it begins at
  \<open>idx + 1\<close>, as in \<open>replace_random_header\<close>.\<close>

lemma inserted_header_replaces:
  "fst (insert_random_header (\<lambda>_. Inl OSError) [ascii ''GET / HTTP/1.1'' @ [CR, LF] @ ascii ''Host: a'' @ [CR, LF, CR, LF]] [0, 0, 0, 5]) =
     Inr [ascii ''GET / HTTP/1.1'' @ [CR, LF] @ ascii ''Connection: close'' @ [CR, LF, CR, LF]]"
  by code_simp

section \<open>Properties\<close>

text \<open>C37: \<open>mutate\<close> finds a mutation that works. For every script of random numbers it returns a stream, or lets
  an exception of \<open>parse_request_stream\<close> on one of the pieces through: an \<open>OverflowError\<close> for an
  absurd chunk, or an error of \<open>gzip\<close>. No assertion of a mutation gets out, and it never runs out of mutations on
  a stream with a piece, because duplicating a request always works. Without a piece it always does, and then it
  is \<open>random.choice\<close> that raises, an \<open>IndexError\<close>, and not the last line.\<close>

theorem mutate_outcome:
  "case fst (mutate gunzip s ds) of
     Inr s' \<Rightarrow> s \<noteq> []
   | Inl e \<Rightarrow> if s = [] then e = IndexError
              else e \<noteq> AssertionError \<and> (\<exists>x \<in> set s. parse_request_stream gunzip x = Inl e)"
proof (cases "mutate gunzip s ds")
  case (Pair r t)
  show ?thesis
  proof (cases r)
    case (Inl e)
    with mutate_error [of gunzip s ds e t] Pair show ?thesis by simp
  next
    case (Inr s')
    with mutate_nothing [of gunzip ds] Pair show ?thesis by auto
  qed
qed

text \<open>The four mutations of bytes edit the stream at one place, the same whichever pieces it is cut into: one
  byte goes, one becomes another, one comes in, or one of the meaningful strings; everything before and after
  stays, and so does the number of pieces. They fail only with an \<open>AssertionError\<close>. Nothing is ever inserted
  after the last byte: that position is drawn, but then the insertion fails.\<close>

theorem byte_mutations_edit_one_place:
  "spliced s 1 (\<lambda>b. b = []) (fst (delete_random_byte s ds)) \<and>
   spliced s 1 (\<lambda>b. length b = 1) (fst (replace_random_byte s ds)) \<and>
   spliced s 0 (\<lambda>b. length b = 1) (fst (insert_random_byte s ds)) \<and>
   spliced s 0 (\<lambda>b. b \<in> set MEANINGFUL_BYTES) (fst (insert_random_meaningful_byte s ds)) \<and>
   fst (insert_random_byte (x # s) (length (concat (x # s)) # ds)) = Inl AssertionError \<and>
   fst (insert_random_meaningful_byte (x # s) (length (concat (x # s)) # ds)) = Inl AssertionError"
proof -
  have "x # s \<noteq> []" by simp
  with no_insertion_at_the_end [OF this] byte_mutations_splice show ?thesis by blast
qed

text \<open>The mutations of pieces keep every byte they are to keep. Concatenating joins two neighbours, splitting
  cuts one piece into two that are not empty, duplicating puts a piece beside itself, deleting takes one away.
  Shifting the boundary between two pieces also swaps what is on its two sides: the bytes of the stream do not
  stay in order.\<close>

theorem piece_mutations:
  "(case fst (concat_random_requests s ds) of
      Inl e \<Rightarrow> e = AssertionError \<and> length s < 2
    | Inr s' \<Rightarrow> \<exists>p x y q. s = p @ [x, y] @ q \<and> s' = p @ [x @ y] @ q) \<and>
   (case fst (split_random_request s ds) of
      Inl e \<Rightarrow> e = AssertionError
    | Inr s' \<Rightarrow> \<exists>p x y q. x \<noteq> [] \<and> y \<noteq> [] \<and> s = p @ [x @ y] @ q \<and> s' = p @ [x, y] @ q) \<and>
   (case fst (duplicate_random_request s ds) of
      Inl e \<Rightarrow> e = AssertionError \<and> s = []
    | Inr s' \<Rightarrow> \<exists>p x q. s = p @ [x] @ q \<and> s' = p @ [x, x] @ q) \<and>
   (case fst (delete_random_request s ds) of
      Inl e \<Rightarrow> e = AssertionError \<and> length s < 2
    | Inr s' \<Rightarrow> \<exists>p x q. s = p @ [x] @ q \<and> s' = p @ q) \<and>
   (case fst (shift_random_request_boundaries s ds) of
      Inl e \<Rightarrow> e = AssertionError \<and> length s < 2
    | Inr s' \<Rightarrow> \<exists>p x y q first second. s = p @ [x, y] @ q \<and> first @ second = x @ y \<and> s' = p @ [second, first] @ q)"
  by (intro conjI concat_random_requests_spec split_random_request_spec duplicate_random_request_spec
      delete_random_request_spec shift_random_request_boundaries_spec)



end
