(* ===== verification/ReplFrames.thy ===== *)
theory ReplFrames
  imports Http2Frames Decimal Util
begin

text \<open>
  \<open>tools/repl.py\<close>, the language of the command \<open>h2frames\<close>: frames spelled out as words. A word is a
  \<open>str\<close> of Latin-1 characters, written as the list of their codes, and an iterator over words is the list of
  those that are left. \<open>int\<close> of a word and the codec \<open>unicode-escape\<close> are modelled on such words; the
  names that \<open>\N{...}\<close> looks up are an argument. The lemmas give a spelling for every frame.
\<close>

type_synonym word_token = bytes

section \<open>\<open>int\<close> of a word\<close>

definition str_space :: "byte \<Rightarrow> bool" where
  "str_space c \<longleftrightarrow> 0x09 \<le> c \<and> c \<le> 0x0D \<or> 0x1C \<le> c \<and> c \<le> 0x20 \<or> c = 0x85 \<or> c = 0xA0"

definition str_strip :: "bytes \<Rightarrow> bytes" where
  "str_strip s = rev (dropWhile str_space (rev (dropWhile str_space s)))"

text \<open>Digits with single underscores between them; the flag says that a digit came before.\<close>

fun digit_groups :: "bool \<Rightarrow> bytes \<Rightarrow> bytes option" where
  "digit_groups prev [] = (if prev then Some [] else None)"
| "digit_groups prev (c # s) =
     (if is_digit c then map_option (\<lambda>ds. c # ds) (digit_groups True s)
      else if c = 0x5F \<and> prev then digit_groups False s
      else None)"

definition py_int :: "word_token \<Rightarrow> int result" where
  "py_int tok =
     (let s = str_strip tok;
          (sign, s) = (case s of c # t \<Rightarrow> if c = 0x2D then (-1, t) else if c = 0x2B then (1, t) else (1, s)
                       | [] \<Rightarrow> (1, s)) in
      case digit_groups False s of
        None \<Rightarrow> Inl ValueError
      | Some ds \<Rightarrow> bindE (int_of_digits ds) (\<lambda>n. Inr (sign * int n)))"

section \<open>\<open>encode("latin1").decode("unicode-escape").encode("latin1")\<close>\<close>

datatype unicode_error = UnicodeEncodeError | UnicodeDecodeError

fun octal_run :: "nat \<Rightarrow> bytes \<Rightarrow> bytes \<times> bytes" where
  "octal_run 0 s = ([], s)"
| "octal_run (Suc n) [] = ([], [])"
| "octal_run (Suc n) (c # s) =
     (if 0x30 \<le> c \<and> c \<le> 0x37 then (case octal_run n s of (ds, t) \<Rightarrow> (c # ds, t)) else ([], c # s))"

lemma octal_run_length: "octal_run n s = (ds, t) \<Longrightarrow> length t \<le> length s"
  by (induction n s arbitrary: ds rule: octal_run.induct) (auto split: if_splits prod.splits)

definition octal_value :: "bytes \<Rightarrow> nat" where
  "octal_value ds = foldl (\<lambda>n d. 8 * n + (unat d - 0x30)) 0 ds"

text \<open>An escape, from after its backslash: the characters it stands for, as code points, and what follows. Where
  there is no such escape, the backslash stands for itself.\<close>

definition simple_escapes :: "(byte \<times> nat list) list" where
  "simple_escapes =
     [(0x5C, [0x5C]), (0x27, [0x27]), (0x22, [0x22]), (of_char (CHR ''b''), [0x08]), (of_char (CHR ''f''), [0x0C]),
      (of_char (CHR ''t''), [0x09]), (of_char (CHR ''n''), [0x0A]), (of_char (CHR ''r''), [0x0D]),
      (of_char (CHR ''v''), [0x0B]), (of_char (CHR ''a''), [0x07]), (0x0A, [])]"

definition hex_escape :: "nat \<Rightarrow> bytes \<Rightarrow> unicode_error + nat list \<times> bytes" where
  "hex_escape n s =
     (if length (take n s) = n \<and> list_all is_hex_digit (take n s) \<and> int (int_of_hex (take n s)) \<le> 0x10FFFF
      then Inr ([int_of_hex (take n s)], drop n s) else Inl UnicodeDecodeError)"

definition named_escape :: "(bytes \<Rightarrow> nat option) \<Rightarrow> bytes \<Rightarrow> unicode_error + nat list \<times> bytes" where
  "named_escape names s =
     (case s of
        [] \<Rightarrow> Inl UnicodeDecodeError
      | c # t \<Rightarrow>
          let name = takeWhile (\<lambda>c. c \<noteq> 0x7D) t in
          if c \<noteq> 0x7B \<or> name = [] \<or> name = t then Inl UnicodeDecodeError
          else case names name of None \<Rightarrow> Inl UnicodeDecodeError | Some n \<Rightarrow> Inr ([n], drop (length name + 1) t))"

definition escape :: "(bytes \<Rightarrow> nat option) \<Rightarrow> bytes \<Rightarrow> unicode_error + nat list \<times> bytes" where
  "escape names s =
     (case s of
        [] \<Rightarrow> Inl UnicodeDecodeError
      | c # t \<Rightarrow>
          (case map_of simple_escapes c of
             Some cs \<Rightarrow> Inr (cs, t)
           | None \<Rightarrow>
               if 0x30 \<le> c \<and> c \<le> 0x37 then (case octal_run 3 s of (ds, u) \<Rightarrow> Inr ([octal_value ds], u))
               else if c = of_char (CHR ''x'') then hex_escape 2 t
               else if c = of_char (CHR ''u'') then hex_escape 4 t
               else if c = of_char (CHR ''U'') then hex_escape 8 t
               else if c = of_char (CHR ''N'') then named_escape names t
               else Inr ([0x5C, unat c], t)))"

lemma escape_length: "escape names s = Inr (cs, t) \<Longrightarrow> length t < length s"
proof (cases s)
  case (Cons c s')
  assume e: "escape names s = Inr (cs, t)"
  have octal: "length u < length s" if "0x30 \<le> c \<and> c \<le> 0x37" "octal_run 3 s = (ds, u)" for ds u
  proof -
    have "octal_run 3 s = (case octal_run 2 s' of (ds, t) \<Rightarrow> (c # ds, t))"
      using that(1) Cons by (simp add: numeral_3_eq_3 numeral_2_eq_2)
    with that(2) octal_run_length [of 2 s'] Cons show ?thesis by (auto split: prod.splits)
  qed
  show ?thesis
    using e octal Cons
    by (auto simp: escape_def hex_escape_def named_escape_def Let_def split: option.splits if_splits prod.splits list.splits)
qed (simp add: escape_def)

function unicode_unescape :: "(bytes \<Rightarrow> nat option) \<Rightarrow> bytes \<Rightarrow> unicode_error + nat list" where
  "unicode_unescape names [] = Inr []"
| "unicode_unescape names (c # s) =
     (if c = 0x5C then
        (case escape names s of
           Inl e \<Rightarrow> Inl e
         | Inr (cs, t) \<Rightarrow> (case unicode_unescape names t of Inl e \<Rightarrow> Inl e | Inr ds \<Rightarrow> Inr (cs @ ds)))
      else (case unicode_unescape names s of Inl e \<Rightarrow> Inl e | Inr ds \<Rightarrow> Inr (unat c # ds)))"
  by pat_completeness auto
termination
  by (relation "measure (\<lambda>(names, s). length s)") (auto intro!: less_SucI dest: escape_length)

definition unescape_payload :: "(bytes \<Rightarrow> nat option) \<Rightarrow> word_token \<Rightarrow> unicode_error + bytes" where
  "unescape_payload names tok =
     (case unicode_unescape names tok of
        Inl e \<Rightarrow> Inl e
      | Inr cs \<Rightarrow> if list_all (\<lambda>c. c < 256) cs then Inr (map word_of_nat cs) else Inl UnicodeEncodeError)"

section \<open>The statements\<close>

definition frame_type_words :: "(bytes \<times> int) list" where
  "frame_type_words =
     [(ascii ''data'', 0), (ascii ''headers'', 1), (ascii ''priority'', 2), (ascii ''rst_stream'', 3),
      (ascii ''settings'', 4), (ascii ''push_promise'', 5), (ascii ''ping'', 6), (ascii ''goaway'', 7),
      (ascii ''window_update'', 8), (ascii ''continuation'', 9)]"

definition parse_h2frametype_statement :: "word_token list \<Rightarrow> (int \<times> word_token list) result" where
  "parse_h2frametype_statement it =
     (case safe_next it of
        (None, it) \<Rightarrow> Inl REPLParseError
      | (Some tok, it) \<Rightarrow>
          (case map_of frame_type_words (lower tok) of
             Some ty \<Rightarrow> Inr (ty, it)
           | None \<Rightarrow>
               (case py_int tok of
                  Inl e \<Rightarrow> if e = ValueError then Inl REPLParseError else Inl e
                | Inr n \<Rightarrow> if \<not> (0 \<le> n \<and> n < 256) then Inl REPLParseError else Inr (n, it))))"

text \<open>The bit a word in the flags statement sets.\<close>

definition flag_words :: "(bytes \<times> nat) list" where
  "flag_words =
     [(ascii ''0'', 0), (ascii ''end_stream'', 0), (ascii ''ack'', 0), (ascii ''1'', 1), (ascii ''2'', 2),
      (ascii ''end_headers'', 2), (ascii ''3'', 3), (ascii ''padded'', 3), (ascii ''4'', 4), (ascii ''5'', 5),
      (ascii ''priority'', 5), (ascii ''6'', 6), (ascii ''7'', 7)]"

fun flags_loop :: "int \<Rightarrow> word_token list \<Rightarrow> (int \<times> word_token list) result" where
  "flags_loop result [] = Inl REPLParseError"
| "flags_loop result (tok # it) =
     (case map_of flag_words (lower tok) of
        Some i \<Rightarrow> flags_loop (result OR push_bit i 1) it
      | None \<Rightarrow> if lower tok = ascii ''}'' then Inr (result, it) else Inl REPLParseError)"

definition parse_h2flags_statement :: "word_token list \<Rightarrow> (h2_flags \<times> word_token list) result" where
  "parse_h2flags_statement it =
     (case safe_next it of
        (None, it) \<Rightarrow> Inl REPLParseError
      | (Some initial_token, it) \<Rightarrow>
          if lower initial_token \<noteq> ascii ''{'' then Inl REPLParseError
          else bindE (flags_loop 0 it) (\<lambda>(result, it). bindE (H2Flags_parse_int result) (\<lambda>fl. Inr (fl, it))))"

text \<open>The variables a frame statement sets.\<close>

record frame_spec =
  spec_type :: "int option"
  spec_flags :: h2_flags
  spec_reserved :: bool
  spec_stream_id :: int
  spec_payload :: bytes

definition new_spec :: frame_spec where
  "new_spec = \<lparr>spec_type = None, spec_flags = H2Flags, spec_reserved = False, spec_stream_id = 0, spec_payload = []\<rparr>"

lemma frametype_shorter: "parse_h2frametype_statement it = Inr (ty, it') \<Longrightarrow> length it' \<le> length it"
  by (cases it) (auto simp: parse_h2frametype_statement_def split: option.splits sum.splits if_splits)

lemma flags_loop_shorter: "flags_loop n it = Inr (x, it') \<Longrightarrow> length it' < length it"
  by (induction n it rule: flags_loop.induct) (auto split: option.splits if_splits)

lemma flags_shorter: "parse_h2flags_statement it = Inr (fl, it') \<Longrightarrow> length it' \<le> length it"
  by (cases it) (auto simp: parse_h2flags_statement_def bindE_eq_Inr split: if_splits dest: flags_loop_shorter)

text \<open>The inner loop. A word it does not know is skipped.\<close>

function frame_loop ::
  "(bytes \<Rightarrow> nat option) \<Rightarrow> frame_spec \<Rightarrow> word_token list \<Rightarrow> (frame_spec \<times> word_token list) result" where
  "frame_loop names spec [] = Inl REPLParseError"
| "frame_loop names spec (tok # it) =
     (let tok = lower tok in
      if tok = ascii ''type'' then
        bindE (parse_h2frametype_statement it) (\<lambda>(ty, it). frame_loop names (spec\<lparr>spec_type := Some ty\<rparr>) it)
      else if tok = ascii ''flags'' then
        bindE (parse_h2flags_statement it) (\<lambda>(fl, it). frame_loop names (spec\<lparr>spec_flags := fl\<rparr>) it)
      else if tok = ascii ''id'' \<or> tok = ascii ''stream_id'' then
        (case it of
           [] \<Rightarrow> Inl REPLParseError
         | tmp_stream_id # it \<Rightarrow>
             (case py_int tmp_stream_id of
                Inl e \<Rightarrow> if e = ValueError then Inl REPLParseError else Inl e
              | Inr n \<Rightarrow> frame_loop names (spec\<lparr>spec_stream_id := n\<rparr>) it))
      else if tok = ascii ''reserved'' then frame_loop names (spec\<lparr>spec_reserved := True\<rparr>) it
      else if tok = ascii ''payload'' then
        (case it of
           [] \<Rightarrow> Inl REPLParseError
         | tmp_payload # it \<Rightarrow>
             (case unescape_payload names tmp_payload of
                Inl _ \<Rightarrow> Inl REPLParseError
              | Inr bs \<Rightarrow> frame_loop names (spec\<lparr>spec_payload := bs\<rparr>) it))
      else if tok = ascii '']'' then Inr (spec, it)
      else frame_loop names spec it)"
  by pat_completeness auto
termination
  by (relation "measure (\<lambda>(names, spec, it). length it)") (auto dest: frametype_shorter flags_shorter)

declare frame_loop.simps [simp del]

lemma frame_loop_shorter: "frame_loop names spec it = Inr (spec', it') \<Longrightarrow> length it' < length it"
proof (induction it arbitrary: spec rule: measure_induct_rule [of length])
  case (less it)
  show ?case
  proof (cases it)
    case (Cons tok rest)
    have further: "length it' < Suc (length rest)"
      if "frame_loop names spec1 y = Inr (spec', it')" "length y \<le> length rest" for spec1 y
      using less.IH [of y spec1] that Cons by simp
    define t where "t = lower tok"
    note step = less.prems [unfolded Cons frame_loop.simps Let_def, folded t_def]
    have "length it' < Suc (length rest)"
    proof (cases "t = ascii ''type'' \<or> t = ascii ''flags''")
      case True
      with step show ?thesis
        by (auto simp: bindE_eq_Inr split: if_splits dest!: frametype_shorter flags_shorter further)
    next
      case False
      then show ?thesis
        using step by (auto split: if_splits list.splits sum.splits dest: further)
    qed
    with Cons show ?thesis by simp
  qed (use less.prems in \<open>simp add: frame_loop.simps\<close>)
qed

function parse_h2frames_statement :: "(bytes \<Rightarrow> nat option) \<Rightarrow> word_token list \<Rightarrow> bytes list result" where
  "parse_h2frames_statement names [] = Inr []"
| "parse_h2frames_statement names (initial_token # it) =
     (if lower initial_token = ascii ''pri'' then
        bindE (parse_h2frames_statement names it) (\<lambda>result.
          Inr ((ascii ''PRI * HTTP/2.0'' @ [CR, LF, CR, LF] @ ascii ''SM'' @ [CR, LF, CR, LF]) # result))
      else if lower initial_token \<noteq> ascii ''['' then Inl REPLParseError
      else bindE (frame_loop names new_spec it) (\<lambda>(spec, it).
        case spec_type spec of
          None \<Rightarrow> Inl REPLParseError
        | Some ty \<Rightarrow>
            bindE (H2GenericFrame ty (spec_flags spec) (spec_reserved spec) (spec_stream_id spec) (spec_payload spec)) (\<lambda>f.
            bindE (H2GenericFrame_to_bytes f) (\<lambda>bs.
            bindE (parse_h2frames_statement names it) (\<lambda>result. Inr (bs # result))))))"
  by pat_completeness auto
termination
  by (relation "measure (\<lambda>(names, it). length it)") (auto intro!: less_SucI dest: frame_loop_shorter)

declare parse_h2frames_statement.simps(2) [simp del]

section \<open>The flags statement\<close>

text \<open>Words for flags, in any order, any number of times, by name or by number: the flags they name are set.\<close>

lemma flags_loop_words:
  assumes "list_all2 (\<lambda>w i. map_of flag_words (lower w) = Some i) ws is" and "lower close = ascii ''}''"
  shows "flags_loop r (ws @ close # rest) = Inr (fold (\<lambda>i r. r OR push_bit i 1) is r, rest)"
  using assms(1)
proof (induction ws "is" arbitrary: r rule: list_all2_induct)
  case Nil
  have "map_of flag_words (ascii ''}'') = None"
    by code_simp
  then show ?case using assms(2) by simp
qed simp

lemma bit_fold_or: "bit (fold (\<lambda>i r. r OR push_bit i 1) is (r :: int)) n \<longleftrightarrow> bit r n \<or> n \<in> set is"
  by (induction "is" arbitrary: r) (auto simp: bit_simps)

lemma fold_or_bounds:
  "0 \<le> r \<Longrightarrow> r < 2 ^ k \<Longrightarrow> \<forall>i \<in> set is. i < k \<Longrightarrow> 0 \<le> fold (\<lambda>i r. r OR push_bit i (1 :: int)) is r \<and> fold (\<lambda>i r. r OR push_bit i 1) is r < 2 ^ k"
proof (induction "is" arbitrary: r)
  case (Cons i js)
  have "push_bit i (1 :: int) < 2 ^ k"
    using Cons.prems(3) by (simp add: push_bit_of_1)
  with Cons.prems have "r OR push_bit i 1 < 2 ^ k"
    by (intro OR_upper) auto
  with Cons show ?case by simp
qed simp

lemma flag_words_small: "map_of flag_words w = Some i \<Longrightarrow> i < 8"
  by (auto simp: flag_words_def split: if_splits)

lemma parse_flags_words:
  assumes "list_all2 (\<lambda>w i. map_of flag_words (lower w) = Some i) ws is"
    and "lower open_tok = ascii ''{''" and "lower close = ascii ''}''"
  shows "\<exists>fl. parse_h2flags_statement (open_tok # ws @ close # rest) = Inr (fl, rest) \<and>
    rev (flag_list fl) = map (\<lambda>i. i \<in> set is) [0..<8]"
proof -
  let ?v = "fold (\<lambda>i r. r OR push_bit i 1) is (0 :: int)"
  have "\<forall>i \<in> set is. i < 8"
    using assms(1) by (induction ws "is" rule: list_all2_induct) (auto dest: flag_words_small)
  then have "0 \<le> ?v" "?v < 256"
    using fold_or_bounds [of 0 8 "is"] by auto
  then obtain fl where "H2Flags_parse_int ?v = Inr fl" "rev (flag_list fl) = map (bit ?v) [0..<8]"
    using H2Flags_parse_int_bits by blast
  moreover have "bit ?v = (\<lambda>i. i \<in> set is)"
    by (rule ext, unfold bit_fold_or) simp
  ultimately show ?thesis
    using flags_loop_words [OF assms(1,3), of 0 rest] assms(2) by (simp add: parse_h2flags_statement_def)
qed

section \<open>A spelling of every frame\<close>

definition flag_tokens :: "h2_flags \<Rightarrow> word_token list" where
  "flag_tokens fl = map (\<lambda>i. [of_nat (0x30 + i)]) (filter (\<lambda>i. rev (flag_list fl) ! i) [0..<8])"

definition escaped_byte :: "byte \<Rightarrow> bytes" where
  "escaped_byte b = [0x5C, of_char (CHR ''x'')] @
     ascii [hex_digit (int (unat b div 16)), hex_digit (int (unat b mod 16))]"

definition frame_tokens :: "h2_generic_frame \<Rightarrow> word_token list" where
  "frame_tokens f =
     [ascii ''['', ascii ''type'', decimal (nat (ftyp f)), ascii ''flags'', ascii ''{''] @ flag_tokens (flags f) @
     [ascii ''}'', ascii ''id'', decimal (nat (stream_id f))] @ (if reserved f then [ascii ''reserved''] else []) @
     [ascii ''payload'', concat (map escaped_byte (payload f)), ascii '']'']"

lemma flag_tokens_parse:
  "parse_h2flags_statement (ascii ''{'' # flag_tokens fl @ ascii ''}'' # rest) = Inr (fl, rest)"
proof -
  let ?is = "filter (\<lambda>i. rev (flag_list fl) ! i) [0..<8]"
  have words: "list_all (\<lambda>i. map_of flag_words (lower [of_nat (0x30 + i)]) = Some i) [0..<8]"
    by code_simp
  then have "list_all2 (\<lambda>w i. map_of flag_words (lower w) = Some i) (flag_tokens fl) ?is"
    by (auto simp: flag_tokens_def list_all2_map1 list_all2_same list_all_iff)
  moreover have "lower (ascii ''{'') = ascii ''{''" "lower (ascii ''}'') = ascii ''}''"
    by code_simp+
  ultimately obtain fl' where fl': "parse_h2flags_statement (ascii ''{'' # flag_tokens fl @ ascii ''}'' # rest) = Inr (fl', rest)"
    "rev (flag_list fl') = map (\<lambda>i. i \<in> set ?is) [0..<8]"
    using parse_flags_words by blast
  have "map (\<lambda>i. i \<in> set ?is) [0..<8] = rev (flag_list fl)"
    by (rule nth_equalityI) (simp_all add: length_flag_list)
  with fl' flag_list_inj show ?thesis by (metis rev_rev_ident)
qed

lemma escape_hex_byte: "escape names (tl (escaped_byte b) @ s) = Inr ([unat b], s)"
proof -
  let ?hex = "\<lambda>m. of_char (hex_digit (int m)) :: byte"
  have digits: "list_all (\<lambda>m. is_hex_digit (?hex m) \<and> hex_digit_value (?hex m) = m) [0..<16]"
    by code_simp
  have "unat b div 16 < 16" "unat b mod 16 < 16"
    using unat_byte_less [of b] by (simp_all add: less_mult_imp_div_less)
  with digits have d: "is_hex_digit (?hex (unat b div 16))" "is_hex_digit (?hex (unat b mod 16))"
    "hex_digit_value (?hex (unat b div 16)) = unat b div 16" "hex_digit_value (?hex (unat b mod 16)) = unat b mod 16"
    by (auto simp: list_all_iff)
  have "uint b \<le> 0x10FFFF"
    using uint_byte_bounds [of b] by linarith
  with d have hex: "hex_escape 2 (?hex (unat b div 16) # ?hex (unat b mod 16) # s) = Inr ([unat b], s)"
    by (simp add: hex_escape_def int_of_hex_def numeral_2_eq_2)
  have x: "map_of simple_escapes (of_char (CHR ''x'')) = None"
    "\<not> (0x30 \<le> (of_char (CHR ''x'') :: byte) \<and> (of_char (CHR ''x'') :: byte) \<le> 0x37)"
    by code_simp+
  have "tl (escaped_byte b) @ s = of_char (CHR ''x'') # ?hex (unat b div 16) # ?hex (unat b mod 16) # s"
    by (simp add: escaped_byte_def ascii_def)
  with x hex show ?thesis by (simp add: escape_def)
qed

lemma unescape_step: "escape names e = Inr (cs, s) \<Longrightarrow> unicode_unescape names (0x5C # e) =
    (case unicode_unescape names s of Inl e \<Rightarrow> Inl e | Inr ds \<Rightarrow> Inr (cs @ ds))"
  by simp

lemma unescape_hex_byte: "unicode_unescape names (escaped_byte b @ s) =
    (case unicode_unescape names s of Inl e \<Rightarrow> Inl e | Inr ds \<Rightarrow> Inr ([unat b] @ ds))"
proof -
  have "escaped_byte b @ s = 0x5C # tl (escaped_byte b) @ s" by (simp add: escaped_byte_def)
  then show ?thesis by (simp only: unescape_step [OF escape_hex_byte])
qed

lemma unescape_escaped: "unicode_unescape names (concat (map escaped_byte bs)) = Inr (map unat bs)"
  by (induction bs) (simp_all add: unescape_hex_byte)

lemma unescape_payload_escaped: "unescape_payload names (concat (map escaped_byte bs)) = Inr bs"
  by (simp add: unescape_payload_def unescape_escaped list_all_iff comp_def)

text \<open>A number written in decimal is read by \<open>int\<close>, and is not a word of the language.\<close>

lemma digit_groups_digits: "list_all is_digit ds \<Longrightarrow> ds \<noteq> [] \<or> prev \<Longrightarrow> digit_groups prev ds = Some ds"
  by (induction prev ds rule: digit_groups.induct) auto

lemma digit_groups_all: "all_digits ds \<Longrightarrow> digit_groups False ds = Some ds"
  by (rule digit_groups_digits) (simp_all add: all_digits_def)

lemma py_int_decimal: "int n \<le> sys_maxsize \<Longrightarrow> py_int (decimal n) = Inr (int n)"
proof -
  assume n: "int n \<le> sys_maxsize"
  have digits: "all_digits (decimal n)" by (rule all_digits_decimal)
  have solid: "\<not> str_space b \<and> b \<noteq> 0x2D \<and> b \<noteq> 0x2B" if "is_digit b" for b
    using that by (auto simp: str_space_def is_digit_def word_le_nat_alt)
  have "dropWhile str_space w = w" if "set w \<subseteq> set (decimal n)" for w
    using that digits solid by (cases w) (auto simp: all_digits_def list_all_iff)
  then have strip: "str_strip (decimal n) = decimal n"
    by (simp add: str_strip_def)
  obtain c cs where c: "decimal n = c # cs" "is_digit c"
    using digits by (cases "decimal n") (auto simp: all_digits_def)
  have "digit_groups False (decimal n) = Some (decimal n)"
    using digit_groups_all [OF digits] .
  with int_of_digits_decimal [OF n] strip c solid [OF c(2)] show ?thesis
    by (simp add: py_int_def Let_def del: digit_groups.simps)
qed

lemma decimal_not_word:
  assumes "all_digits w"
  shows "map_of frame_type_words (lower w) = None"
proof -
  obtain c cs where w: "w = c # cs" "is_digit c"
    using assms by (cases w) (auto simp: all_digits_def)
  then have "hd (lower w) = c"
    by (auto simp: lower_def is_digit_def word_le_nat_alt)
  moreover have "list_all (\<lambda>(k, v). \<not> is_digit (hd k)) frame_type_words"
    by code_simp
  ultimately have "lower w \<noteq> k" if "(k, v) \<in> set frame_type_words" for k v
    using that w(2) by (auto simp: list_all_iff)
  then show ?thesis
    by (metis map_of_SomeD not_None_eq)
qed

lemma parse_type_decimal:
  assumes "0 \<le> ty" and "ty < 256"
  shows "parse_h2frametype_statement (decimal (nat ty) # it) = Inr (ty, it)"
proof -
  have "int (nat ty) \<le> sys_maxsize"
    using assms by (simp add: sys_maxsize_def)
  from py_int_decimal [OF this] decimal_not_word [OF all_digits_decimal] assms show ?thesis
    by (simp add: parse_h2frametype_statement_def)
qed

lemma frame_loop_tokens:
  assumes "wire_frame f"
  shows "\<exists>spec. frame_loop names new_spec (tl (frame_tokens f) @ rest) = Inr (spec, rest) \<and> spec_type spec = Some (ftyp f) \<and>
    spec_flags spec = flags f \<and> spec_reserved spec = reserved f \<and> spec_stream_id spec = stream_id f \<and>
    spec_payload spec = payload f"
proof -
  have ty: "0 \<le> ftyp f" "ftyp f < 256" and sid: "0 \<le> stream_id f" "stream_id f < 2 ^ 31"
    using assms by (simp_all add: wire_frame_def)
  have words: "lower (ascii ''type'') = ascii ''type''" "lower (ascii ''flags'') = ascii ''flags''"
    "lower (ascii ''id'') = ascii ''id''" "lower (ascii ''reserved'') = ascii ''reserved''"
    "lower (ascii ''payload'') = ascii ''payload''" "lower (ascii '']'') = ascii '']''"
    by code_simp+
  have apart: "ascii ''flags'' \<noteq> ascii ''type''" "ascii ''id'' \<noteq> ascii ''type''" "ascii ''id'' \<noteq> ascii ''flags''"
    "ascii ''reserved'' \<notin> {ascii ''type'', ascii ''flags'', ascii ''id'', ascii ''stream_id''}"
    "ascii ''payload'' \<notin> {ascii ''type'', ascii ''flags'', ascii ''id'', ascii ''stream_id'', ascii ''reserved''}"
    "ascii '']'' \<notin> {ascii ''type'', ascii ''flags'', ascii ''id'', ascii ''stream_id'', ascii ''reserved'', ascii ''payload''}"
    by code_simp+
  have type_word: "frame_loop names s (ascii ''type'' # decimal (nat (ftyp f)) # it) = frame_loop names (s\<lparr>spec_type := Some (ftyp f)\<rparr>) it" for s it
    using words parse_type_decimal [OF ty] by (subst frame_loop.simps(2)) simp
  have flags_word: "frame_loop names s (ascii ''flags'' # ascii ''{'' # flag_tokens (flags f) @ ascii ''}'' # it) =
      frame_loop names (s\<lparr>spec_flags := flags f\<rparr>) it" for s it
    using words apart flag_tokens_parse by (subst frame_loop.simps(2)) simp
  have "int (nat (stream_id f)) \<le> sys_maxsize"
    using sid by (simp add: sys_maxsize_def)
  from py_int_decimal [OF this] have id_word: "frame_loop names s (ascii ''id'' # decimal (nat (stream_id f)) # it) =
      frame_loop names (s\<lparr>spec_stream_id := stream_id f\<rparr>) it" for s it
    using words apart sid by (subst frame_loop.simps(2)) simp
  have reserved_word: "frame_loop names s (ascii ''reserved'' # it) = frame_loop names (s\<lparr>spec_reserved := True\<rparr>) it" for s it
    using words apart by (subst frame_loop.simps(2)) simp
  have payload_word: "frame_loop names s (ascii ''payload'' # concat (map escaped_byte (payload f)) # it) =
      frame_loop names (s\<lparr>spec_payload := payload f\<rparr>) it" for s it
    using words apart unescape_payload_escaped by (subst frame_loop.simps(2)) simp
  have close_word: "frame_loop names s (ascii '']'' # it) = Inr (s, it)" for s it
    using words apart by (subst frame_loop.simps(2)) simp
  show ?thesis
    by (simp add: frame_tokens_def type_word flags_word id_word reserved_word payload_word close_word new_spec_def)
qed

lemma frames_spelled:
  "\<forall>f \<in> set fs. wire_frame f \<Longrightarrow> mapE H2GenericFrame_to_bytes fs = Inr bss \<Longrightarrow>
    parse_h2frames_statement names (concat (map frame_tokens fs)) = Inr bss"
proof (induction fs arbitrary: bss)
  case (Cons f fs)
  then obtain b css where b: "H2GenericFrame_to_bytes f = Inr b" and css: "mapE H2GenericFrame_to_bytes fs = Inr css"
    and bss: "bss = b # css"
    by (auto simp: bindE_eq_Inr)
  have f: "wire_frame f" using Cons.prems(1) by simp
  let ?rest = "concat (map frame_tokens fs)"
  obtain spec where spec: "frame_loop names new_spec (tl (frame_tokens f) @ ?rest) = Inr (spec, ?rest)"
    "spec_type spec = Some (ftyp f)" "spec_flags spec = flags f" "spec_reserved spec = reserved f"
    "spec_stream_id spec = stream_id f" "spec_payload spec = payload f"
    using frame_loop_tokens [OF f] by blast
  have again: "H2GenericFrame (ftyp f) (flags f) (reserved f) (stream_id f) (payload f) = Inr f"
    using f by (simp add: H2GenericFrame_Inr wire_frame_def push_bit_of_1)
  have opens: "frame_tokens f @ ?rest = ascii ''['' # tl (frame_tokens f) @ ?rest"
    by (simp add: frame_tokens_def)
  have words: "lower (ascii ''['') = ascii ''[''" "ascii ''['' \<noteq> ascii ''pri''"
    by code_simp+
  have "parse_h2frames_statement names (ascii ''['' # tl (frame_tokens f) @ ?rest) = Inr bss"
    using spec again b bss words Cons.IH [OF _ css] Cons.prems(1)
    by (simp add: parse_h2frames_statement.simps(2))
  then show ?case
    by (simp only: opens concat.simps list.map)
qed simp

section \<open>What a statement can give\<close>

lemma py_int_errors: "py_int tok = Inl e \<Longrightarrow> e = ValueError"
  by (auto simp: py_int_def Let_def int_of_digits_def bindE_eq_Inl split: list.splits if_splits option.splits)

lemma frametype_errors: "parse_h2frametype_statement it = Inl e \<Longrightarrow> e = REPLParseError"
  by (cases it) (auto simp: parse_h2frametype_statement_def split: option.splits sum.splits if_splits dest: py_int_errors)

lemma frametype_range: "parse_h2frametype_statement it = Inr (ty, it') \<Longrightarrow> 0 \<le> ty \<and> ty < 256"
  by (cases it) (auto simp: parse_h2frametype_statement_def frame_type_words_def split: option.splits sum.splits if_splits)

lemma flags_loop_errors: "flags_loop r it = Inl e \<Longrightarrow> e = REPLParseError"
  by (induction r it rule: flags_loop.induct) (auto split: option.splits if_splits)

lemma flags_loop_bounds: "flags_loop r it = Inr (n, it') \<Longrightarrow> 0 \<le> r \<Longrightarrow> r < 2 ^ 8 \<Longrightarrow> 0 \<le> n \<and> n < 2 ^ 8"
proof (induction r it rule: flags_loop.induct)
  case (2 r tok it)
  show ?case
  proof (cases "map_of flag_words (lower tok)")
    case None
    with 2 show ?thesis by (auto split: if_splits)
  next
    case (Some i)
    then have "\<forall>j \<in> set [i]. j < 8" using flag_words_small by simp
    from fold_or_bounds [OF 2(3,4) this] 2(1) [OF Some] 2(2) Some show ?thesis by simp
  qed
qed simp

lemma flags_errors: "parse_h2flags_statement it = Inl e \<Longrightarrow> e = REPLParseError"
proof (cases it)
  case (Cons t rest)
  assume e: "parse_h2flags_statement it = Inl e"
  show ?thesis
  proof (cases "flags_loop 0 rest")
    case (Inl e')
    with e Cons flags_loop_errors [OF Inl] show ?thesis
      by (simp add: parse_h2flags_statement_def split: if_splits)
  next
    case (Inr x)
    obtain n it' where x: "x = (n, it')" by (cases x)
    with Inr flags_loop_bounds [of 0 rest n it'] have "0 \<le> n" "n < 256" by auto
    then obtain fl where "H2Flags_parse_int n = Inr fl"
      using H2Flags_parse_int_bits by blast
    with e Cons Inr x show ?thesis
      by (simp add: parse_h2flags_statement_def split: if_splits)
  qed
qed (simp add: parse_h2flags_statement_def)

lemma frame_loop_errors: "frame_loop names spec it = Inl e \<Longrightarrow> e = REPLParseError"
proof (induction it arbitrary: spec rule: measure_induct_rule [of length])
  case (less it)
  show ?case
  proof (cases it)
    case (Cons tok rest)
    have further: "e = REPLParseError" if "frame_loop names spec1 y = Inl e" "length y \<le> length rest" for spec1 y
      using less.IH [of y spec1] that Cons by simp
    define t where "t = lower tok"
    note step = less.prems [unfolded Cons frame_loop.simps Let_def, folded t_def]
    show ?thesis
    proof (cases "t = ascii ''type'' \<or> t = ascii ''flags''")
      case True
      with step show ?thesis
        by (auto simp: bindE_eq_Inl split: if_splits dest: frametype_errors flags_errors frametype_shorter flags_shorter further)
    next
      case False
      then show ?thesis
        using step by (auto split: if_splits list.splits sum.splits dest: further py_int_errors)
    qed
  qed (use less.prems in \<open>simp add: frame_loop.simps\<close>)
qed

definition spec_type_ok :: "frame_spec \<Rightarrow> bool" where
  "spec_type_ok spec = (case spec_type spec of None \<Rightarrow> True | Some ty \<Rightarrow> 0 \<le> ty \<and> ty < 256)"

lemma frame_loop_type: "frame_loop names spec it = Inr (spec', it') \<Longrightarrow> spec_type_ok spec \<Longrightarrow> spec_type_ok spec'"
proof (induction it arbitrary: spec rule: measure_induct_rule [of length])
  case (less it)
  show ?case
  proof (cases it)
    case (Cons tok rest)
    have further: "spec_type_ok spec'" if "frame_loop names spec1 y = Inr (spec', it')" "length y \<le> length rest" "spec_type_ok spec1" for spec1 y
      using less.IH [of y spec1] that Cons by simp
    define t where "t = lower tok"
    note step = less.prems(1) [unfolded Cons frame_loop.simps Let_def, folded t_def]
    show ?thesis
    proof (cases "t = ascii ''type''")
      case True
      with step obtain ty y where "parse_h2frametype_statement rest = Inr (ty, y)"
        "frame_loop names (spec\<lparr>spec_type := Some ty\<rparr>) y = Inr (spec', it')"
        by (auto simp: bindE_eq_Inr)
      with further frametype_range frametype_shorter show ?thesis
        by (fastforce simp: spec_type_ok_def)
    next
      case False
      have same: "spec_type_ok (spec\<lparr>spec_flags := fl\<rparr>)" "spec_type_ok (spec\<lparr>spec_reserved := r\<rparr>)"
        "spec_type_ok (spec\<lparr>spec_stream_id := n\<rparr>)" "spec_type_ok (spec\<lparr>spec_payload := b\<rparr>)" for fl r n b
        using less.prems(2) by (simp_all add: spec_type_ok_def)
      show ?thesis
      proof (cases "t = ascii ''flags''")
        case True
        with False step obtain fl y where "parse_h2flags_statement rest = Inr (fl, y)"
          "frame_loop names (spec\<lparr>spec_flags := fl\<rparr>) y = Inr (spec', it')"
          by (auto simp: bindE_eq_Inr)
        with further flags_shorter same show ?thesis by blast
      next
        case False
        then show ?thesis
          using \<open>t \<noteq> ascii ''type''\<close> step less.prems(2) same
          by (auto split: if_splits list.splits sum.splits dest: further)
      qed
    qed
  qed (use less.prems in \<open>simp add: frame_loop.simps\<close>)
qed

section \<open>Properties\<close>

text \<open>What a statement appends: the connection preface, or a frame that can be on the wire.\<close>

definition preface_text :: bytes where
  "preface_text = ascii ''PRI * HTTP/2.0'' @ [CR, LF, CR, LF] @ ascii ''SM'' @ [CR, LF, CR, LF]"

definition stated_piece :: "bytes \<Rightarrow> bool" where
  "stated_piece b \<longleftrightarrow> b = preface_text \<or> (\<exists>f. wire_frame f \<and> H2GenericFrame_to_bytes f = Inr b)"

lemma stated_frame:
  assumes "H2GenericFrame ty fl res sid pl = Inr f" and "0 \<le> ty" and "ty < 256"
  shows "\<exists>b. H2GenericFrame_to_bytes f = Inr b \<and> stated_piece b"
proof -
  from assms have w: "wire_frame f"
    by (auto simp: H2GenericFrame_Inr wire_frame_def)
  moreover from w obtain b where "H2GenericFrame_to_bytes f = Inr b"
    using wire_frame_prints [of f] by (auto simp: wire_frame_def)
  ultimately show ?thesis by (auto simp: stated_piece_def)
qed

lemma frames_statement_outcome:
  "case parse_h2frames_statement names it of
     Inl e \<Rightarrow> e = REPLParseError \<or> e = H2Error
   | Inr bss \<Rightarrow> list_all stated_piece bss"
proof (induction it rule: measure_induct_rule [of length])
  case (less it)
  show ?case
  proof (cases it)
    case (Cons tok rest)
    define t where "t = lower tok"
    note step = parse_h2frames_statement.simps(2) [of names tok rest, folded t_def, folded Cons preface_text_def]
    note IH = less.IH [unfolded Cons]
    have pri: "stated_piece preface_text" by (simp add: stated_piece_def)
    consider (pri) "t = ascii ''pri''" | (none) "t \<noteq> ascii ''pri''" "t \<noteq> ascii ''[''"
      | (frame) "t \<noteq> ascii ''pri''" "t = ascii ''[''" by blast
    then show ?thesis
    proof cases
      case pri
      with step IH [of rest] \<open>stated_piece preface_text\<close> show ?thesis
        by (auto simp: bindE_def split: sum.splits)
    next
      case none
      with step show ?thesis by simp
    next
      case frame
      show ?thesis
      proof (cases "frame_loop names new_spec rest")
        case (Inl e)
        with frame step frame_loop_errors [OF Inl] show ?thesis by simp
      next
        case (Inr x)
        obtain spec y where x: "x = (spec, y)" by (cases x)
        have "spec_type_ok spec"
          using frame_loop_type [OF Inr [unfolded x]] by (simp add: spec_type_ok_def new_spec_def)
        moreover have "length y < length (tok # rest)"
          using frame_loop_shorter [OF Inr [unfolded x]] by simp
        ultimately show ?thesis
          using IH [of y] step frame Inr x
          by (cases "spec_type spec")
            (auto simp: bindE_def spec_type_ok_def split: sum.splits dest: H2GenericFrame_Inl stated_frame)
      qed
    qed
  qed simp
qed

text \<open>A stream identifier of 32 bits passes \<open>int\<close> and is refused by the frame's constructor.\<close>

lemma wide_stream_id:
  "parse_h2frames_statement names
     [ascii ''['', ascii ''type'', ascii ''data'', ascii ''id'', decimal (2 ^ 31), ascii '']''] = Inl H2Error"
proof -
  have words: "lower (ascii ''type'') = ascii ''type''" "lower (ascii ''data'') = ascii ''data''" "lower (ascii ''['') = ascii ''[''"
    "lower (ascii ''id'') = ascii ''id''" "lower (ascii '']'') = ascii '']''" "map_of frame_type_words (ascii ''data'') = Some 0"
    "ascii ''id'' \<noteq> ascii ''type''" "ascii ''id'' \<noteq> ascii ''flags''" "ascii ''['' \<noteq> ascii ''pri''"
    "ascii '']'' \<notin> {ascii ''type'', ascii ''flags'', ascii ''id'', ascii ''stream_id'', ascii ''reserved'', ascii ''payload''}"
    by code_simp+
  have n: "py_int (decimal (2 ^ 31)) = Inr (int (2 ^ 31))"
    by (rule py_int_decimal) (simp add: sys_maxsize_def)
  have "frame_loop names new_spec [ascii ''type'', ascii ''data'', ascii ''id'', decimal (2 ^ 31), ascii '']''] =
      Inr (new_spec\<lparr>spec_type := Some 0, spec_stream_id := int (2 ^ 31)\<rparr>, [])"
    using words n by (simp add: frame_loop.simps parse_h2frametype_statement_def)
  moreover have "H2GenericFrame ty fl res (int (2 ^ 31)) pl = Inl H2Error" for ty fl res pl
    using H2GenericFrame_Inr [of ty fl res "int (2 ^ 31)" pl] H2GenericFrame_Inl
    by (cases "H2GenericFrame ty fl res (int (2 ^ 31)) pl") auto
  ultimately show ?thesis
    using words by (simp add: parse_h2frames_statement.simps(2))
qed

text \<open>C39: the words that follow \<open>h2frames\<close> give pieces to send or one of two errors. Every piece is the connection
  preface or a printed frame that can be on the wire, with a type that is a byte and a stream identifier of 31 bits.
  An error is a \<open>REPLParseError\<close>, or the \<open>H2Error\<close> of a frame that cannot be built; this second one is what
  \<open>[ type data id 2147483648 ]\<close> gives, and the loop around the statement does not catch it.\<close>

theorem frames_statement_gives_wire_frames:
  "(case parse_h2frames_statement names it of
      Inl e \<Rightarrow> e = REPLParseError \<or> e = H2Error
    | Inr bss \<Rightarrow> list_all stated_piece bss) \<and>
   parse_h2frames_statement names
     [ascii ''['', ascii ''type'', ascii ''data'', ascii ''id'', decimal (2 ^ 31), ascii '']''] = Inl H2Error"
  by (rule conjI [OF frames_statement_outcome wide_stream_id])

text \<open>C40: every list of frames that can be on the wire has a spelling in words, the numbers in decimal, the flags by their
  bit, the payload in escapes, that the statement turns into bytes from which \<open>parse_generic_frames\<close> reads the
  same frames.\<close>

theorem spelled_frames_are_read_back:
  assumes "list_all wire_frame fs"
  shows "\<exists>bss. parse_h2frames_statement names (concat (map frame_tokens fs)) = Inr bss \<and>
    parse_generic_frames (concat bss) = Inr fs"
proof -
  have "\<exists>bss. mapE H2GenericFrame_to_bytes fs = Inr bss"
    using assms
  proof (induction fs)
    case (Cons f fs)
    then obtain b bss where "H2GenericFrame_to_bytes f = Inr b" "mapE H2GenericFrame_to_bytes fs = Inr bss"
      using wire_frame_prints [of f] by (auto simp: wire_frame_def)
    then show ?case by simp
  qed simp
  with assms frames_spelled [of fs] h2_stream.parse_all_concat [of fs] show ?thesis
    by (auto simp: list_all_iff)
qed

theorem spelled_frames_are_read_back_witness:
  "\<exists>bss. parse_h2frames_statement (\<lambda>_. None) (concat (map frame_tokens
       [\<lparr>ftyp = 6, flags = H2Flags, reserved = True, stream_id = 7, payload = [0, 92, 255]\<rparr>])) = Inr bss \<and>
     parse_generic_frames (concat bss) =
       Inr [\<lparr>ftyp = 6, flags = H2Flags, reserved = True, stream_id = 7, payload = [0, 92, 255]\<rparr>]"
  by (rule spelled_frames_are_read_back) (simp add: wire_frame_def)

text \<open>The words of a flags statement may come in any order, in any case, more than once, as names or as numbers:
  the flags that are set are those some word names.\<close>

theorem flags_statement_sets_the_named_flags:
  assumes "list_all2 (\<lambda>w i. map_of flag_words (lower w) = Some i) ws is"
  shows "\<exists>fl. parse_h2flags_statement (ascii ''{'' # ws @ ascii ''}'' # rest) = Inr (fl, rest) \<and>
    rev (flag_list fl) = map (\<lambda>i. i \<in> set is) [0..<8]"
proof -
  have "lower (ascii ''{'') = ascii ''{''" "lower (ascii ''}'') = ascii ''}''"
    by code_simp+
  with parse_flags_words [OF assms] show ?thesis by simp
qed

theorem flags_statement_sets_the_named_flags_witness:
  "\<exists>fl. parse_h2flags_statement (ascii ''{'' # [ascii ''PADDED'', ascii ''0'', ascii ''padded''] @ ascii ''}'' # []) = Inr (fl, []) \<and>
    rev (flag_list fl) = map (\<lambda>i. i \<in> set [3, 0, 3]) [0..<8]"
  by (rule flags_statement_sets_the_named_flags) code_simp

end
