(* ===== verification/ReplMain.thy ===== *)
theory ReplMain
  imports ReplFrames Fanout
begin

text \<open>
  \<open>tools/repl.py\<close>, the commands of the prompt. A line is the list of its words; reading and lexing it is I/O.
  The value that goes down a pipeline is \<open>cwd\<close>; parsed requests are objects in a store. What a command prints
  is a list of outputs, as values. How the \<open>n\<close>-th connection of the session to a
  server goes is an argument.
\<close>

section \<open>The environment and the state\<close>

record repl_env =
  ORIGIN_DICT :: "(word_token \<times> server) list"
  TRANSDUCER_DICT :: "(word_token \<times> server) list"
  env_connect :: "nat \<Rightarrow> server \<Rightarrow> sock result"
  env_gunzip :: "bytes \<Rightarrow> bytes result"
  env_names :: "bytes \<Rightarrow> nat option"

text \<open>\<open>None\<close>, a list of bytes, a list of lists of messages. The empty list is both of the last two.\<close>

datatype repl_value = Nothing | Pieces "bytes list" | Streams "message list list"

record repl_state =
  cwd :: repl_value
  heap :: "nat \<times> store"
  calls :: nat

datatype repl_output =
    ShowValue repl_value
  | ShowGrid "ErrorType option list list" "word_token list"
  | ShowClusters "server list list"
  | ShowStream "bytes list"
  | ShowArrow string
  | ShowFanout "(word_token \<times> parsed_message list) list"
  | ShowUnparsed "(string \<times> (bool \<times> bytes) list) list"
  | InvalidName word_token
  | InvalidSyntax
  | ExpectsPayload
  | ExpectsFanout
  | CannotEncode
  | CannotEscape
  | ParseErrorReport
  | Goodbye

text \<open>After a command: the next state, an exception that nothing catches, the end of the program, or a call that
  never returns.\<close>

datatype after = Next repl_state | Uncaught exn | Exited | Stuck

type_synonym command_result = "repl_output list \<times> after"

section \<open>Checks\<close>

fun is_byte_stream :: "repl_value \<Rightarrow> bool" where
  "is_byte_stream Nothing = False"
| "is_byte_stream (Pieces bs) = True"
| "is_byte_stream (Streams ms) = (ms = [])"

fun is_request_response_stream :: "repl_value \<Rightarrow> bool" where
  "is_request_response_stream Nothing = False"
| "is_request_response_stream (Pieces bs) = (bs = [])"
| "is_request_response_stream (Streams ms) = True"

fun the_pieces :: "repl_value \<Rightarrow> bytes list" where
  "the_pieces (Pieces bs) = bs"
| "the_pieces v = []"

fun the_streams :: "repl_value \<Rightarrow> message list list" where
  "the_streams (Streams ms) = ms"
| "the_streams v = []"

text \<open>The first name that is wrong is reported.\<close>

fun validate_names :: "(word_token \<Rightarrow> bool) \<Rightarrow> word_token list \<Rightarrow> word_token option" where
  "validate_names known [] = None"
| "validate_names known (s # names) = (if \<not> known s then Some s else validate_names known names)"

definition validate_server_names :: "repl_env \<Rightarrow> word_token list \<Rightarrow> word_token option" where
  "validate_server_names env =
     validate_names (\<lambda>s. s \<in> fst ` set (ORIGIN_DICT env) \<or> s \<in> fst ` set (TRANSDUCER_DICT env))"

definition validate_transducer_names :: "repl_env \<Rightarrow> word_token list \<Rightarrow> word_token option" where
  "validate_transducer_names env = validate_names (\<lambda>s. s \<in> fst ` set (TRANSDUCER_DICT env))"

definition validate_origin_names :: "repl_env \<Rightarrow> word_token list \<Rightarrow> word_token option" where
  "validate_origin_names env = validate_names (\<lambda>s. s \<in> fst ` set (ORIGIN_DICT env))"

definition dict_get :: "(word_token \<times> server) list \<Rightarrow> word_token \<Rightarrow> server result" where
  "dict_get d k = (case map_of d k of None \<Rightarrow> Inl KeyError | Some s \<Rightarrow> Inr s)"

text \<open>Names default to all origins.\<close>

definition or_all :: "(word_token \<times> server) list \<Rightarrow> word_token list \<Rightarrow> word_token list" where
  "or_all d symbols = (if symbols = [] then map fst d else symbols)"

section \<open>The commands\<close>

definition unescape_all :: "(bytes \<Rightarrow> nat option) \<Rightarrow> word_token list \<Rightarrow> unicode_error + bytes list" where
  "unescape_all names symbols =
     foldr (\<lambda>s r. case unescape_payload names s of Inl e \<Rightarrow> Inl e | Inr b \<Rightarrow> map_sum id (\<lambda>bs. b # bs) r) symbols (Inr [])"

definition payload_command :: "repl_env \<Rightarrow> word_token list \<Rightarrow> repl_state \<Rightarrow> command_result" where
  "payload_command env symbols st =
     (if symbols = [] then ([ShowValue (cwd st)], Next st)
      else case unescape_all (env_names env) symbols of
        Inl UnicodeEncodeError \<Rightarrow> ([CannotEncode], Next st)
      | Inl UnicodeDecodeError \<Rightarrow> ([CannotEscape], Next st)
      | Inr bs \<Rightarrow> ([], Next (st\<lparr>cwd := Pieces bs\<rparr>)))"

text \<open>\<open>grid\<close> and \<open>cluster\<close> differ in what they make of the streams; a comparison may change the requests in the
  store.\<close>

definition compare_command ::
  "(store \<Rightarrow> message list list \<Rightarrow> server list \<Rightarrow> word_token list \<Rightarrow> repl_output \<times> store) \<Rightarrow>
    repl_env \<Rightarrow> word_token list \<Rightarrow> repl_state \<Rightarrow> command_result" where
  "compare_command generate env symbols st =
     (if \<not> is_request_response_stream (cwd st) then ([ExpectsFanout], Next st)
      else
        let symbols = or_all (ORIGIN_DICT env) symbols in
        case validate_server_names env symbols of
          Some s \<Rightarrow> ([InvalidName s], Next (st\<lparr>cwd := Nothing\<rparr>))
        | None \<Rightarrow>
            if symbols = [] then ([], Next (st\<lparr>cwd := Nothing\<rparr>))
            else case mapE (dict_get (ORIGIN_DICT env)) symbols of
              Inl e \<Rightarrow> ([], Uncaught e)
            | Inr servers \<Rightarrow>
                (case generate (snd (heap st)) (the_streams (cwd st)) servers symbols of
                   (out, h) \<Rightarrow> ([out], Next (st\<lparr>cwd := Nothing, heap := (fst (heap st), h)\<rparr>))))"

definition grid_command :: "repl_env \<Rightarrow> word_token list \<Rightarrow> repl_state \<Rightarrow> command_result" where
  "grid_command = compare_command (\<lambda>h streams servers symbols.
     case generate_grid h streams servers of (g, h) \<Rightarrow> (ShowGrid g symbols, h))"

definition cluster_command :: "repl_env \<Rightarrow> word_token list \<Rightarrow> repl_state \<Rightarrow> command_result" where
  "cluster_command = compare_command (\<lambda>h streams servers symbols.
     case generate_clusters h streams servers of (c, h) \<Rightarrow> (ShowClusters c, h))"

text \<open>One transducer after the other.\<close>

fun transduce_loop ::
  "repl_env \<Rightarrow> word_token list \<Rightarrow> bytes list \<Rightarrow> nat \<Rightarrow> repl_output list \<times> (bytes list \<times> nat) result option" where
  "transduce_loop env [] pieces n = ([], Some (Inr (pieces, n)))"
| "transduce_loop env (s # names) pieces n =
     (case dict_get (TRANSDUCER_DICT env) s of
        Inl e \<Rightarrow> ([], Some (Inl e))
      | Inr transducer \<Rightarrow>
          (case unparsed_roundtrip (env_gunzip env) transducer (env_connect env n transducer) pieces of
             None \<Rightarrow> ([], None)
           | Some (Inl e) \<Rightarrow> ([], Some (Inl e))
           | Some (Inr bs) \<Rightarrow>
               (case transduce_loop env names bs (Suc n) of
                  (out, r) \<Rightarrow> (ShowArrow (name transducer) # ShowStream bs # out, r))))"

definition transduce_command :: "repl_env \<Rightarrow> word_token list \<Rightarrow> repl_state \<Rightarrow> command_result" where
  "transduce_command env symbols st =
     (if symbols = [] then ([], Next st)
      else case validate_transducer_names env symbols of
        Some s \<Rightarrow> ([InvalidName s], Next st)
      | None \<Rightarrow>
          if \<not> is_byte_stream (cwd st) then ([ExpectsPayload], Next st)
          else case transduce_loop env symbols (the_pieces (cwd st)) (calls st) of
            (out, None) \<Rightarrow> (ShowStream (the_pieces (cwd st)) # out, Stuck)
          | (out, Some (Inl e)) \<Rightarrow> (ShowStream (the_pieces (cwd st)) # out, Uncaught e)
          | (out, Some (Inr (bs, n))) \<Rightarrow>
              (ShowStream (the_pieces (cwd st)) # out, Next (st\<lparr>cwd := Pieces bs, calls := n\<rparr>)))"

text \<open>\<open>fanout\<close> and \<open>h2fanout\<close>: the second one leaves out the servers without HTTP/2.\<close>

definition fan_command ::
  "(server \<Rightarrow> bool) \<Rightarrow> repl_env \<Rightarrow> word_token list \<Rightarrow> repl_state \<Rightarrow> command_result" where
  "fan_command keep env symbols st =
     (if \<not> is_byte_stream (cwd st) then ([ExpectsPayload], Next st)
      else
        let symbols = or_all (ORIGIN_DICT env) symbols in
        case validate_server_names env symbols of
          Some s \<Rightarrow> ([InvalidName s], Next st)
        | None \<Rightarrow>
            (case mapE (dict_get (ORIGIN_DICT env)) symbols of
               Inl e \<Rightarrow> ([], Uncaught e)
             | Inr servers \<Rightarrow>
                 (case fanout (env_gunzip env) (env_connect env (calls st)) (the_pieces (cwd st)) (filter keep servers) of
                    None \<Rightarrow> ([], Stuck)
                  | Some (Inl e) \<Rightarrow> ([], Uncaught e)
                  | Some (Inr mss) \<Rightarrow>
                      (case allocate_all mss (heap st) of
                         (xss, new_heap) \<Rightarrow> ([ShowFanout (zip symbols mss)],
                           Next (st\<lparr>cwd := Streams xss, heap := new_heap, calls := Suc (calls st)\<rparr>))))))"

text \<open>What is printed of a piece: responses in red, and only their beginning.\<close>

definition shown_piece :: "bytes \<Rightarrow> bool \<times> bytes" where
  "shown_piece r =
     (let is_resp = take (length (ascii ''HTTP/'')) r = ascii ''HTTP/'' in
      (is_resp, if is_resp \<and> length r > 80 then take 80 r @ ascii ''...'' else r))"

definition unparsed_command ::
  "(repl_env \<Rightarrow> (word_token \<times> server) list) \<Rightarrow> (repl_env \<Rightarrow> word_token list \<Rightarrow> word_token option) \<Rightarrow>
    repl_env \<Rightarrow> word_token list \<Rightarrow> repl_state \<Rightarrow> command_result" where
  "unparsed_command dict validate env symbols st =
     (if \<not> is_byte_stream (cwd st) then ([ExpectsPayload], Next st)
      else
        let symbols = or_all (dict env) symbols in
        case validate env symbols of
          Some s \<Rightarrow> ([InvalidName s], Next st)
        | None \<Rightarrow>
            (case mapE (dict_get (dict env)) symbols of
               Inl e \<Rightarrow> ([], Uncaught e)
             | Inr servers \<Rightarrow>
                 (case unparsed_fanout (env_gunzip env) (env_connect env (calls st)) (the_pieces (cwd st)) servers of
                    None \<Rightarrow> ([], Stuck)
                  | Some (Inl e) \<Rightarrow> ([], Uncaught e)
                  | Some (Inr rss) \<Rightarrow>
                      ([ShowUnparsed (zip (map name servers) (map (map shown_piece) rss))], Next (st\<lparr>calls := Suc (calls st)\<rparr>)))))"

definition h2frames_command :: "repl_env \<Rightarrow> word_token list \<Rightarrow> repl_state \<Rightarrow> command_result" where
  "h2frames_command env symbols st =
     (case parse_h2frames_statement (env_names env) symbols of
        Inl e \<Rightarrow> if e = REPLParseError then ([ParseErrorReport], Next st) else ([], Uncaught e)
      | Inr bss \<Rightarrow>
          if is_byte_stream (cwd st) then ([], Next (st\<lparr>cwd := Pieces (the_pieces (cwd st) @ [concat bss])\<rparr>))
          else ([], Next (st\<lparr>cwd := Pieces [concat bss]\<rparr>)))"

definition run_command :: "repl_env \<Rightarrow> word_token list \<Rightarrow> repl_state \<Rightarrow> command_result" where
  "run_command env command st =
     (case command of
        [] \<Rightarrow> ([], Next st)
      | c # symbols \<Rightarrow>
          if c = ascii ''payload'' then payload_command env symbols st
          else if c = ascii ''grid'' then grid_command env symbols st
          else if c = ascii ''cluster'' then cluster_command env symbols st
          else if c = ascii ''transduce'' then transduce_command env symbols st
          else if c = ascii ''fanout'' then fan_command (\<lambda>_. True) env symbols st
          else if c = ascii ''h2fanout'' then fan_command allows_http_2 env symbols st
          else if c = ascii ''unparsed_fanout'' \<or> c = ascii ''uf'' then
            unparsed_command ORIGIN_DICT validate_server_names env symbols st
          else if c = ascii ''unparsed_transducer_fanout'' \<or> c = ascii ''utf'' then
            unparsed_command TRANSDUCER_DICT validate_transducer_names env symbols st
          else if c = ascii ''h2frames'' then h2frames_command env symbols st
          else if (c = ascii ''exit'' \<or> c = ascii ''quit'') \<and> symbols = [] then ([Goodbye], Exited)
          else ([InvalidSyntax], Next st))"

section \<open>Pipelines and lines\<close>

definition and_then :: "command_result \<Rightarrow> (repl_state \<Rightarrow> command_result) \<Rightarrow> command_result" where
  "and_then r f = (case r of (out, Next st) \<Rightarrow> (case f st of (more_out, a) \<Rightarrow> (out @ more_out, a)) | _ \<Rightarrow> r)"

fun run_pipeline :: "repl_env \<Rightarrow> word_token list list \<Rightarrow> repl_state \<Rightarrow> command_result" where
  "run_pipeline env [] st = ([], Next st)"
| "run_pipeline env (command # pipeline) st = and_then (run_command env command st) (run_pipeline env pipeline)"

fun run_pipelines :: "repl_env \<Rightarrow> word_token list list list \<Rightarrow> repl_state \<Rightarrow> command_result" where
  "run_pipelines env [] st = ([], Next st)"
| "run_pipelines env (pipeline # pipelines) st =
     and_then (run_pipeline env pipeline (st\<lparr>cwd := Nothing\<rparr>)) (run_pipelines env pipelines)"

text \<open>The words of a line, quotes taken off.\<close>

definition strip_quotes :: "word_token \<Rightarrow> word_token" where
  "strip_quotes t = (if hd t = last t \<and> hd t \<in> {0x22, 0x27} then butlast (tl t) else t)"

definition run_line :: "repl_env \<Rightarrow> word_token list \<Rightarrow> repl_state \<Rightarrow> command_result" where
  "run_line env words st =
     (let unparsed_pipelines = list_split (map strip_quotes words) (ascii '';'') in
      run_pipelines env (map (\<lambda>p. list_split p (ascii ''|'')) unparsed_pipelines) st)"

section \<open>Names\<close>

lemma validate_names_None [simp]: "validate_names known names = None \<longleftrightarrow> list_all known names"
  by (induction names) auto

lemma dict_get_Inl: "dict_get d k = Inl e \<longleftrightarrow> e = KeyError \<and> k \<notin> fst ` set d"
proof -
  have "map_of d k = None \<longleftrightarrow> k \<notin> fst ` set d" by (rule map_of_eq_None_iff)
  then show ?thesis by (cases "map_of d k") (simp_all add: dict_get_def del: not_None_eq, blast+)
qed

lemma dict_get_Inr: "dict_get d k = Inr s \<Longrightarrow> (k, s) \<in> set d"
  by (auto simp: dict_get_def dest: map_of_SomeD split: option.splits)

lemma dict_gets_Inl: "mapE (dict_get d) names = Inl e \<Longrightarrow> e = KeyError \<and> (\<exists>k \<in> set names. k \<notin> fst ` set d)"
  by (induction names) (auto simp: bindE_eq_Inl dict_get_Inl)

lemma dict_gets_Inr: "mapE (dict_get d) names = Inr servers \<Longrightarrow> set servers \<subseteq> snd ` set d \<and> length servers = length names"
proof (induction names arbitrary: servers)
  case (Cons k names)
  then obtain s ss where "dict_get d k = Inr s" "mapE (dict_get d) names = Inr ss" "servers = s # ss"
    by (auto simp: bindE_eq_Inr)
  with Cons.IH [of ss] dict_get_Inr [of d k s] show ?case by (auto intro: rev_image_eqI)
qed simp

section \<open>What a command can do\<close>

definition env_ok :: "repl_env \<Rightarrow> bool" where
  "env_ok env \<longleftrightarrow> list_all (\<lambda>(k, s). role s = Origin) (ORIGIN_DICT env) \<and>
     list_all (\<lambda>(k, s). role s = Transducer) (TRANSDUCER_DICT env)"

text \<open>The requests in the value are objects of the store.\<close>

definition state_ok :: "repl_state \<Rightarrow> bool" where
  "state_ok st \<longleftrightarrow> (case cwd st of Streams xss \<Rightarrow> list_all (below (fst (heap st))) xss | _ \<Rightarrow> True)"

definition round_trip_error :: "repl_env \<Rightarrow> exn \<Rightarrow> bool" where
  "round_trip_error env e \<longleftrightarrow> (\<exists>s n data.
     parsed_roundtrip (env_gunzip env) s (env_connect env n s) data = Some (Inl e) \<or>
     unparsed_roundtrip (env_gunzip env) s (env_connect env n s) data = Some (Inl e))"

definition round_trip_hangs :: "repl_env \<Rightarrow> bool" where
  "round_trip_hangs env \<longleftrightarrow> (\<exists>s n data. s \<in> snd ` set (TRANSDUCER_DICT env) \<and>
     unparsed_roundtrip (env_gunzip env) s (env_connect env n s) data = None)"

definition origin_words :: "word_token list" where
  "origin_words = [ascii ''grid'', ascii ''cluster'', ascii ''fanout'', ascii ''h2fanout'', ascii ''unparsed_fanout'', ascii ''uf'']"

definition network_words :: "word_token list" where
  "network_words = [ascii ''transduce'', ascii ''fanout'', ascii ''h2fanout'', ascii ''unparsed_fanout'', ascii ''uf'',
     ascii ''unparsed_transducer_fanout'', ascii ''utf'']"

text \<open>The exceptions that leave the program: a transducer named where origins are looked up, a frame that cannot
  be built, and what a round trip raises.\<close>

inductive command_error :: "repl_env \<Rightarrow> word_token list \<Rightarrow> exn \<Rightarrow> bool" for env where
  transducer_name: "c \<in> set origin_words \<Longrightarrow> s \<in> set symbols \<Longrightarrow> s \<notin> fst ` set (ORIGIN_DICT env) \<Longrightarrow>
    s \<in> fst ` set (TRANSDUCER_DICT env) \<Longrightarrow> command_error env (c # symbols) KeyError"
| bad_frame: "command_error env (ascii ''h2frames'' # symbols) H2Error"
| round_trip: "c \<in> set network_words \<Longrightarrow> round_trip_error env e \<Longrightarrow> command_error env (c # symbols) e"

definition outcome_ok :: "repl_env \<Rightarrow> word_token list \<Rightarrow> repl_state \<Rightarrow> after \<Rightarrow> bool" where
  "outcome_ok env command st a =
     (case a of
        Next st' \<Rightarrow> state_ok st' \<and> fst (heap st) \<le> fst (heap st') \<and> calls st \<le> calls st'
      | Uncaught e \<Rightarrow> command_error env command e
      | Exited \<Rightarrow> command = [ascii ''exit''] \<or> command = [ascii ''quit'']
      | Stuck \<Rightarrow> round_trip_hangs env)"

lemma outcome_same: "state_ok st \<Longrightarrow> outcome_ok env command st (Next st)"
  by (simp add: outcome_ok_def)

lemma outcome_called: "state_ok st \<Longrightarrow> outcome_ok env command st (Next (st\<lparr>calls := Suc (calls st)\<rparr>))"
  by (cases st; cases "cwd st") (simp_all add: outcome_ok_def state_ok_def)

lemma outcome_value:
  "(case v of Streams xss \<Rightarrow> False | _ \<Rightarrow> True) \<Longrightarrow> fst (heap st) \<le> fst h \<Longrightarrow> calls st \<le> n \<Longrightarrow>
    outcome_ok env command st (Next (st\<lparr>cwd := v, heap := h, calls := n\<rparr>))"
  by (cases v) (simp_all add: outcome_ok_def state_ok_def)

lemma or_all_missing:
  assumes "validate_server_names env (or_all (ORIGIN_DICT env) symbols) = None"
    and "mapE (dict_get (ORIGIN_DICT env)) (or_all (ORIGIN_DICT env) symbols) = Inl e" and "c \<in> set origin_words"
  shows "command_error env (c # symbols) e"
proof -
  from dict_gets_Inl [OF assms(2)] obtain k where k: "e = KeyError" "k \<in> set (or_all (ORIGIN_DICT env) symbols)"
    "k \<notin> fst ` set (ORIGIN_DICT env)" by blast
  then have "k \<in> set symbols" by (auto simp: or_all_def split: if_splits)
  moreover have "k \<in> fst ` set (TRANSDUCER_DICT env)"
    using assms(1) k by (auto simp: validate_server_names_def list_all_iff)
  ultimately show ?thesis
    using k assms(3) by (blast intro: transducer_name)
qed

text \<open>The branches of a command.\<close>

lemma outcome_if:
  "(b \<Longrightarrow> outcome_ok env c st (snd x)) \<Longrightarrow> (\<not> b \<Longrightarrow> outcome_ok env c st (snd y)) \<Longrightarrow>
    outcome_ok env c st (snd (if b then x else y))"
  by simp

lemma outcome_option:
  "(m = None \<Longrightarrow> outcome_ok env c st (snd x)) \<Longrightarrow> (\<And>v. m = Some v \<Longrightarrow> outcome_ok env c st (snd (f v))) \<Longrightarrow>
    outcome_ok env c st (snd (case m of None \<Rightarrow> x | Some v \<Rightarrow> f v))"
  by (cases m) simp_all

lemma outcome_sum:
  "(\<And>e. m = Inl e \<Longrightarrow> outcome_ok env c st (snd (f e))) \<Longrightarrow> (\<And>v. m = Inr v \<Longrightarrow> outcome_ok env c st (snd (g v))) \<Longrightarrow>
    outcome_ok env c st (snd (case m of Inl e \<Rightarrow> f e | Inr v \<Rightarrow> g v))"
  by (cases m) simp_all

lemma outcome_pair:
  "(\<And>x y. p = (x, y) \<Longrightarrow> outcome_ok env c st (snd (f x y))) \<Longrightarrow> outcome_ok env c st (snd (case p of (x, y) \<Rightarrow> f x y))"
  by (cases p) simp

lemma outcome_out: "outcome_ok env c st a \<Longrightarrow> outcome_ok env c st (snd (out, a))"
  by simp

lemmas outcome_intros = outcome_if outcome_option outcome_sum outcome_pair outcome_out

lemma compare_outcome:
  assumes "state_ok st" and "c \<in> set origin_words"
  shows "outcome_ok env (c # symbols) st (snd (compare_command generate env symbols st))"
proof -
  have cleared: "outcome_ok env command st (Next (st\<lparr>cwd := Nothing\<rparr>))" for command
    using outcome_value [of Nothing st "heap st" "calls st"] by simp
  have compared: "outcome_ok env command st (Next (st\<lparr>cwd := Nothing, heap := (fst (heap st), h)\<rparr>))" for command h
    using outcome_value [of Nothing st "(fst (heap st), h)" "calls st"] by simp
  have missing: "outcome_ok env (c # symbols) st (Uncaught e)"
    if "validate_server_names env (or_all (ORIGIN_DICT env) symbols) = None"
      "mapE (dict_get (ORIGIN_DICT env)) (or_all (ORIGIN_DICT env) symbols) = Inl e" for e
    using or_all_missing [OF that assms(2)] by (simp add: outcome_ok_def)
  show ?thesis
    unfolding compare_command_def Let_def
    by (intro outcome_intros) (assumption | rule outcome_same [OF assms(1)] cleared compared missing)+
qed

lemma mapE_Inl: "mapE f xs = Inl e \<Longrightarrow> \<exists>x \<in> set xs. f x = Inl e"
  by (induction xs) (auto simp: bindE_eq_Inl)

text \<open>A call to many servers ends when each call does, and raises what one of them raises.\<close>

lemma pmap_option_None: "pmap_option f xs = None \<longleftrightarrow> (\<exists>x \<in> set xs. f x = None)"
  by (auto simp: pmap_option_def list_ex_iff)

lemma pmap_option_Inl: "pmap_option f xs = Some (Inl e) \<Longrightarrow> \<exists>x \<in> set xs. f x = Some (Inl e)"
  by (fastforce simp: pmap_option_def eager_pmap_def list_ex_iff split: if_splits dest: mapE_Inl)

lemma zip_same_data: "zip servers (map (\<lambda>_. data) [0..<length servers]) = map (\<lambda>s. (s, data)) servers"
  by (simp add: map_replicate_const zip_replicate2 [symmetric]) (induction servers, simp_all)

lemma unparsed_fanout_None:
  "unparsed_fanout gunzip connect data servers = None \<Longrightarrow> \<exists>s \<in> set servers. unparsed_roundtrip gunzip s (connect s) data = None"
  by (auto simp: unparsed_fanout_def zip_same_data pmap_option_None)

lemma unparsed_fanout_Inl:
  "unparsed_fanout gunzip connect data servers = Some (Inl e) \<Longrightarrow>
    \<exists>s \<in> set servers. unparsed_roundtrip gunzip s (connect s) data = Some (Inl e)"
  by (auto simp: unparsed_fanout_def zip_same_data dest!: pmap_option_Inl)

lemma allocate_all_below:
  "allocate_all mss nh = (xss, n', h') \<Longrightarrow> fst nh \<le> n' \<and> list_all (below n') xss"
proof (induction mss arbitrary: nh xss)
  case (Cons ms mss)
  obtain n h where nh: "nh = (n, h)" by (cases nh)
  obtain xs n1 h1 where xs: "allocate ms (n, h) = (xs, n1, h1)" by (cases "allocate ms (n, h)") auto
  obtain ys n2 h2 where ys: "allocate_all mss (n1, h1) = (ys, n2, h2)" by (cases "allocate_all mss (n1, h1)") auto
  with Cons.prems nh xs have eq: "xss = xs # ys" "n2 = n'" "h2 = h'" by simp_all
  from allocate_denotes [OF xs] Cons.IH [OF ys [unfolded eq]] show ?case
    using nh eq by (auto simp: below_def intro: less_le_trans)
qed simp

lemma origins_answer:
  assumes "env_ok env" and "set servers \<subseteq> snd ` set (ORIGIN_DICT env)"
  shows "fanout gunzip connect data (filter keep servers) \<noteq> None"
    and "unparsed_fanout gunzip connect data servers \<noteq> None"
proof -
  have "role s = Origin" if "s \<in> set servers" for s
    using assms that by (fastforce simp: env_ok_def list_all_iff)
  then show "fanout gunzip connect data (filter keep servers) \<noteq> None"
    and "unparsed_fanout gunzip connect data servers \<noteq> None"
    using unparsed_fanout_None [of gunzip connect data servers]
    by (auto simp: fanout_def pmap_option_None parsed_roundtrip_def unparsed_roundtrip_def)
qed

lemma network_failed:
  assumes "c \<in> set network_words" and "round_trip_error env e"
  shows "outcome_ok env (c # symbols) st (Uncaught e)"
  using round_trip [OF assms] by (simp add: outcome_ok_def)

lemma fan_outcome:
  assumes "state_ok st" and "env_ok env" and "c \<in> set origin_words" and "c \<in> set network_words"
  shows "outcome_ok env (c # symbols) st (snd (fan_command keep env symbols st))"
proof -
  have missing: "outcome_ok env (c # symbols) st (Uncaught e)"
    if "validate_server_names env (or_all (ORIGIN_DICT env) symbols) = None"
      "mapE (dict_get (ORIGIN_DICT env)) (or_all (ORIGIN_DICT env) symbols) = Inl e" for e
    using or_all_missing [OF that assms(3)] by (simp add: outcome_ok_def)
  have failed: "outcome_ok env (c # symbols) st (Uncaught e)"
    if "fanout (env_gunzip env) (env_connect env (calls st)) data servers = Some (Inl e)" for data servers e
  proof -
    from that have "round_trip_error env e"
      by (auto simp: fanout_def round_trip_error_def dest!: pmap_option_Inl)
    then show ?thesis by (rule network_failed [OF assms(4)])
  qed
  have returned: "outcome_ok env (c # symbols) st (Next (st\<lparr>cwd := Streams xss, heap := nh, calls := Suc (calls st)\<rparr>))"
    if "allocate_all mss (heap st) = (xss, nh)" for mss xss nh
    using allocate_all_below [of mss "heap st" xss "fst nh" "snd nh"] that by (simp add: outcome_ok_def state_ok_def)
  have hangs: "fanout (env_gunzip env) (env_connect env (calls st)) data (filter keep servers) \<noteq> None"
    if "mapE (dict_get (ORIGIN_DICT env)) names = Inr servers" for data servers names
    using origins_answer(1) [OF assms(2)] dict_gets_Inr [OF that] by blast
  show ?thesis
    unfolding fan_command_def Let_def
    by (intro outcome_intros)
      (blast dest: hangs | assumption | rule outcome_same [OF assms(1)] missing failed returned)+
qed

lemma unparsed_failed:
  "unparsed_fanout (env_gunzip env) (env_connect env n) data servers = Some (Inl e) \<Longrightarrow> round_trip_error env e"
  unfolding round_trip_error_def by (drule unparsed_fanout_Inl) blast

lemma origin_unparsed_outcome:
  assumes "state_ok st" and "env_ok env" and "c \<in> set origin_words" and "c \<in> set network_words"
  shows "outcome_ok env (c # symbols) st (snd (unparsed_command ORIGIN_DICT validate_server_names env symbols st))"
proof -
  have missing: "outcome_ok env (c # symbols) st (Uncaught e)"
    if "validate_server_names env (or_all (ORIGIN_DICT env) symbols) = None"
      "mapE (dict_get (ORIGIN_DICT env)) (or_all (ORIGIN_DICT env) symbols) = Inl e" for e
    using or_all_missing [OF that assms(3)] by (simp add: outcome_ok_def)
  have failed: "outcome_ok env (c # symbols) st (Uncaught e)"
    if "unparsed_fanout (env_gunzip env) (env_connect env (calls st)) data servers = Some (Inl e)" for data servers e
    using network_failed [OF assms(4) unparsed_failed [OF that]] .
  note returned = outcome_called [OF assms(1)]
  have hangs: "unparsed_fanout (env_gunzip env) (env_connect env (calls st)) data servers \<noteq> None"
    if "mapE (dict_get (ORIGIN_DICT env)) names = Inr servers" for data servers names
    using origins_answer(2) [OF assms(2)] dict_gets_Inr [OF that] by blast
  show ?thesis
    unfolding unparsed_command_def Let_def
    by (intro outcome_intros)
      (blast dest: hangs | assumption | rule outcome_same [OF assms(1)] missing failed returned)+
qed

lemma transducer_unparsed_outcome:
  assumes "state_ok st" and "c \<in> set network_words"
  shows "outcome_ok env (c # symbols) st (snd (unparsed_command TRANSDUCER_DICT validate_transducer_names env symbols st))"
proof -
  have missing: False
    if "validate_transducer_names env (or_all (TRANSDUCER_DICT env) symbols) = None"
      "mapE (dict_get (TRANSDUCER_DICT env)) (or_all (TRANSDUCER_DICT env) symbols) = Inl e" for e
    using that dict_gets_Inl [OF that(2)] by (auto simp: validate_transducer_names_def list_all_iff)
  have failed: "outcome_ok env (c # symbols) st (Uncaught e)"
    if "unparsed_fanout (env_gunzip env) (env_connect env (calls st)) data servers = Some (Inl e)" for data servers e
    using network_failed [OF assms(2) unparsed_failed [OF that]] .
  note returned = outcome_called [OF assms(1)]
  have hangs: "outcome_ok env (c # symbols) st Stuck"
    if "mapE (dict_get (TRANSDUCER_DICT env)) names = Inr servers"
      "unparsed_fanout (env_gunzip env) (env_connect env (calls st)) data servers = None" for data servers names
  proof -
    from that(2) obtain s where "s \<in> set servers" "unparsed_roundtrip (env_gunzip env) s (env_connect env (calls st) s) data = None"
      using unparsed_fanout_None by blast
    moreover from this(1) have "s \<in> snd ` set (TRANSDUCER_DICT env)"
      using dict_gets_Inr [OF that(1)] by blast
    ultimately have "round_trip_hangs env"
      unfolding round_trip_hangs_def by blast
    then show ?thesis by (simp add: outcome_ok_def)
  qed
  show ?thesis
    unfolding unparsed_command_def Let_def
    by (intro outcome_intros)
      (blast dest: missing hangs | assumption | rule outcome_same [OF assms(1)] failed returned)+
qed

lemma transduce_loop_result:
  "list_all (\<lambda>s. s \<in> fst ` set (TRANSDUCER_DICT env)) names \<Longrightarrow>
    case snd (transduce_loop env names pieces n) of
      None \<Rightarrow> round_trip_hangs env
    | Some (Inl e) \<Rightarrow> round_trip_error env e
    | Some (Inr (bs, m)) \<Rightarrow> n \<le> m"
proof (induction names arbitrary: pieces n)
  case (Cons s names)
  then obtain t where t: "dict_get (TRANSDUCER_DICT env) s = Inr t"
    using dict_get_Inl [of "TRANSDUCER_DICT env" s] by (cases "dict_get (TRANSDUCER_DICT env) s") auto
  then have member: "t \<in> snd ` set (TRANSDUCER_DICT env)"
    by (force dest: dict_get_Inr)
  let ?r = "unparsed_roundtrip (env_gunzip env) t (env_connect env n t) pieces"
  show ?case
  proof (cases ?r)
    case None
    with member have "round_trip_hangs env" by (auto simp: round_trip_hangs_def)
    with t None show ?thesis by simp
  next
    case (Some r)
    show ?thesis
    proof (cases r)
      case (Inl e)
      with Some have "round_trip_error env e" by (auto simp: round_trip_error_def)
      with t Some Inl show ?thesis by simp
    next
      case (Inr bs)
      have "list_all (\<lambda>s. s \<in> fst ` set (TRANSDUCER_DICT env)) names" using Cons.prems by simp
      from Cons.IH [OF this, of "Suc n" bs] t Some Inr show ?thesis
        by (auto split: prod.splits option.splits sum.splits)
    qed
  qed
qed simp

lemma transduce_outcome:
  assumes "state_ok st" and "c \<in> set network_words"
  shows "outcome_ok env (c # symbols) st (snd (transduce_command env symbols st))"
proof -
  have result: "outcome_ok env (c # symbols) st (snd (case transduce_loop env symbols pieces (calls st) of
        (out, None) \<Rightarrow> (f out, Stuck)
      | (out, Some (Inl e)) \<Rightarrow> (f out, Uncaught e)
      | (out, Some (Inr (bs, n))) \<Rightarrow> (f out, Next (st\<lparr>cwd := Pieces bs, calls := n\<rparr>))))"
    if "validate_transducer_names env symbols = None" for pieces and f :: "repl_output list \<Rightarrow> repl_output list"
  proof -
    have "case snd (transduce_loop env symbols pieces (calls st)) of
        None \<Rightarrow> round_trip_hangs env | Some (Inl e) \<Rightarrow> round_trip_error env e | Some (Inr (bs, m)) \<Rightarrow> calls st \<le> m"
      using that by (intro transduce_loop_result) (simp add: validate_transducer_names_def)
    moreover have "outcome_ok env (c # symbols) st (Next (st\<lparr>cwd := Pieces bs, calls := n\<rparr>))" if "calls st \<le> n" for bs n
      using outcome_value [of "Pieces bs" st "heap st" n] that by simp
    ultimately show ?thesis
      using network_failed [OF assms(2)]
      by (auto simp: outcome_ok_def split: prod.splits option.splits sum.splits)
  qed
  show ?thesis
    unfolding transduce_command_def
    by (intro outcome_if outcome_out outcome_same [OF assms(1)])
      (use result outcome_same [OF assms(1)] in \<open>auto split: option.splits\<close>)
qed

lemma payload_outcome: "state_ok st \<Longrightarrow> outcome_ok env (c # symbols) st (snd (payload_command env symbols st))"
  using outcome_same [of st env "c # symbols"] outcome_value [of "Pieces bs" st "heap st" "calls st" for bs]
  by (auto simp: payload_command_def split: sum.splits unicode_error.splits)

lemma h2frames_outcome:
  assumes "state_ok st"
  shows "outcome_ok env (ascii ''h2frames'' # symbols) st (snd (h2frames_command env symbols st))"
proof (cases "parse_h2frames_statement (env_names env) symbols")
  case (Inl e)
  with frames_statement_outcome [of "env_names env" symbols] have "e = REPLParseError \<or> e = H2Error" by simp
  with Inl outcome_same [OF assms] bad_frame [of env symbols] show ?thesis
    by (auto simp: h2frames_command_def outcome_ok_def)
next
  case (Inr bss)
  with outcome_value [of "Pieces bs" st "heap st" "calls st" for bs] show ?thesis
    by (simp add: h2frames_command_def)
qed

lemma command_words:
  "ascii ''grid'' \<in> set origin_words" "ascii ''cluster'' \<in> set origin_words"
  "ascii ''fanout'' \<in> set origin_words" "ascii ''fanout'' \<in> set network_words"
  "ascii ''h2fanout'' \<in> set origin_words" "ascii ''h2fanout'' \<in> set network_words"
  "ascii ''unparsed_fanout'' \<in> set origin_words" "ascii ''unparsed_fanout'' \<in> set network_words"
  "ascii ''uf'' \<in> set origin_words" "ascii ''uf'' \<in> set network_words" "ascii ''transduce'' \<in> set network_words"
  "ascii ''unparsed_transducer_fanout'' \<in> set network_words" "ascii ''utf'' \<in> set network_words"
  by (simp_all add: origin_words_def network_words_def)

lemma run_command_outcome:
  assumes "state_ok st" and "env_ok env"
  shows "outcome_ok env command st (snd (run_command env command st))"
proof (cases command)
  case Nil
  with outcome_same [OF assms(1)] show ?thesis by (simp add: run_command_def)
next
  case (Cons c symbols)
  have exit: "outcome_ok env [ascii ''exit''] st Exited" "outcome_ok env [ascii ''quit''] st Exited"
    by (simp_all add: outcome_ok_def)
  show ?thesis
    unfolding Cons run_command_def list.case
    by (intro outcome_if outcome_out)
      (auto simp only: grid_command_def cluster_command_def command_words
         intro!: payload_outcome compare_outcome transduce_outcome fan_outcome origin_unparsed_outcome
           transducer_unparsed_outcome h2frames_outcome outcome_same exit assms)
qed

section \<open>Lines\<close>

lemma and_then_assoc: "and_then (and_then r f) g = and_then r (\<lambda>st. and_then (f st) g)"
  by (auto simp: and_then_def split: prod.splits after.splits)

lemma and_then_Next [simp]: "and_then ([], Next st) f = f st"
  by (simp add: and_then_def)

lemma and_then_cong: "r = r' \<Longrightarrow> (\<And>st. f st = g st) \<Longrightarrow> and_then r f = and_then r' g"
  by (auto simp: and_then_def split: prod.splits after.splits)

lemma run_pipelines_append:
  "run_pipelines env (ps @ qs) st = and_then (run_pipelines env ps st) (run_pipelines env qs)"
  by (induction ps arbitrary: st) (simp_all add: and_then_assoc cong: and_then_cong)

lemma run_pipeline_append:
  "run_pipeline env (p @ q) st = and_then (run_pipeline env p st) (run_pipeline env q)"
  by (induction p arbitrary: st) (simp_all add: and_then_assoc cong: and_then_cong)

lemma list_split_both: "list_split (a @ t # b) t = list_split a t @ list_split b t"
proof (induction a t rule: list_split.induct)
  case (1 a t)
  show ?case
  proof (cases "t \<in> set a")
    case True
    then obtain p q where a: "a = p @ t # q" "t \<notin> set p" by (metis split_list_first)
    then have less: "list_index a t < length a" "list_index (a @ t # b) t = list_index a t"
      by (simp_all add: list_index_append)
    with 1 [OF True] True show ?thesis
      by (subst list_split.simps, subst (2) list_split.simps) simp
  next
    case False
    then have "list_index (a @ t # b) t = length a"
      by (rule list_index_append)
    with False show ?thesis
      by (subst list_split.simps, subst (2) list_split.simps) simp
  qed
qed

text \<open>The commands of a line.\<close>

definition line_commands :: "word_token list \<Rightarrow> word_token list list" where
  "line_commands words = concat (map (\<lambda>p. list_split p (ascii ''|'')) (list_split (map strip_quotes words) (ascii '';'')))"

definition line_ok :: "repl_env \<Rightarrow> word_token list list \<Rightarrow> after \<Rightarrow> bool" where
  "line_ok env commands a =
     (case a of
        Next st' \<Rightarrow> state_ok st'
      | Uncaught e \<Rightarrow> list_ex (\<lambda>c. command_error env c e) commands
      | Exited \<Rightarrow> [ascii ''exit''] \<in> set commands \<or> [ascii ''quit''] \<in> set commands
      | Stuck \<Rightarrow> round_trip_hangs env)"

lemma line_ok_mono: "line_ok env cs a \<Longrightarrow> set cs \<subseteq> set ds \<Longrightarrow> line_ok env ds a"
  by (auto simp: line_ok_def list_ex_iff split: after.splits)

lemma line_ok_command: "outcome_ok env c st a \<Longrightarrow> line_ok env [c] a"
  by (auto simp: outcome_ok_def line_ok_def split: after.splits)

lemma and_then_ok:
  assumes "line_ok env cs (snd r)" and "\<And>st. state_ok st \<Longrightarrow> line_ok env ds (snd (f st))"
  shows "line_ok env (cs @ ds) (snd (and_then r f))"
proof (cases "snd r")
  case (Next st)
  with assms(1) have "state_ok st" by (simp add: line_ok_def)
  from assms(2) [OF this] Next line_ok_mono [of env ds "snd (f st)" "cs @ ds"] show ?thesis
    by (cases r) (auto simp: and_then_def split: prod.splits)
qed (use assms(1) line_ok_mono [of env cs "snd r" "cs @ ds"] in \<open>cases r, auto simp: and_then_def\<close>)+

lemma run_pipeline_ok: "env_ok env \<Longrightarrow> state_ok st \<Longrightarrow> line_ok env p (snd (run_pipeline env p st))"
proof (induction p arbitrary: st)
  case (Cons c p)
  from line_ok_command [OF run_command_outcome [OF Cons.prems(2,1), of c]] Cons
  have "line_ok env ([c] @ p) (snd (and_then (run_command env c st) (run_pipeline env p)))"
    by (intro and_then_ok)
  then show ?case by simp
qed (simp add: line_ok_def)

lemma run_pipelines_ok:
  "env_ok env \<Longrightarrow> state_ok st \<Longrightarrow> line_ok env (concat ps) (snd (run_pipelines env ps st))"
proof (induction ps arbitrary: st)
  case (Cons p ps)
  have "state_ok (st\<lparr>cwd := Nothing\<rparr>)" by (simp add: state_ok_def)
  with Cons show ?case
    by (simp add: and_then_ok run_pipeline_ok)
qed (simp add: line_ok_def)

lemma run_line_ok: "env_ok env \<Longrightarrow> line_ok env (line_commands words) (snd (run_line env words st))"
proof -
  assume env: "env_ok env"
  obtain p ps where ps: "map (\<lambda>p. list_split p (ascii ''|'')) (list_split (map strip_quotes words) (ascii '';'')) = p # ps"
    by (cases "list_split (map strip_quotes words) (ascii '';'')") auto
  have "run_pipelines env (p # ps) st = run_pipelines env (p # ps) (st\<lparr>cwd := Nothing\<rparr>)"
    by simp
  moreover have "line_ok env (concat (p # ps)) (snd (run_pipelines env (p # ps) (st\<lparr>cwd := Nothing\<rparr>)))"
    using env by (intro run_pipelines_ok) (simp_all add: state_ok_def)
  ultimately show ?thesis
    by (simp add: run_line_def line_commands_def ps Let_def)
qed

section \<open>Properties\<close>

text \<open>A whole line at the prompt. Whatever its words are, it ends in one of four ways. It is done, and the requests in the
  value of the last pipeline are objects of the store. Or an exception ends the program: a \<open>KeyError\<close>, only if a
  command that looks up origins names a transducer; an \<open>H2Error\<close>, only from \<open>h2frames\<close>; otherwise one that a round trip raised.
  Or the line has the command \<open>exit\<close> or \<open>quit\<close>. Or a transducer's loop goes on for ever.\<close>

theorem line_outcome:
  assumes "env_ok env"
  shows "case snd (run_line env words st) of
      Next st' \<Rightarrow> state_ok st'
    | Uncaught e \<Rightarrow> list_ex (\<lambda>c. command_error env c e) (line_commands words)
    | Exited \<Rightarrow> [ascii ''exit''] \<in> set (line_commands words) \<or> [ascii ''quit''] \<in> set (line_commands words)
    | Stuck \<Rightarrow> round_trip_hangs env"
  using run_line_ok [OF assms, of words st] by (simp add: line_ok_def)

definition example_env :: repl_env where
  "example_env = \<lparr>ORIGIN_DICT = [(ascii ''a'', plain_server), (ascii ''b'', plain_server\<lparr>allows_http_2 := True\<rparr>)],
     TRANSDUCER_DICT = [(ascii ''t'', plain_server\<lparr>role := Transducer\<rparr>)],
     env_connect = (\<lambda>n s. Inr \<lparr>outgoing = [], incoming = []\<rparr>), env_gunzip = (\<lambda>b. Inl OSError), env_names = (\<lambda>n. None)\<rparr>"

definition start :: repl_state where
  "start = \<lparr>cwd = Nothing, heap = (0, \<lambda>_. \<lparr>req_method = [], req_uri = [], req_headers = [], req_body = [], req_version = []\<rparr>),
     calls = 0\<rparr>"

theorem line_outcome_witness:
  "case snd (run_line example_env [ascii ''payload'', ascii ''x'', ascii ''|'', ascii ''fanout'', ascii ''t''] start) of
      Next st' \<Rightarrow> state_ok st'
    | Uncaught e \<Rightarrow> list_ex (\<lambda>c. command_error example_env c e)
        (line_commands [ascii ''payload'', ascii ''x'', ascii ''|'', ascii ''fanout'', ascii ''t''])
    | Exited \<Rightarrow> [ascii ''exit''] \<in> set (line_commands [ascii ''payload'', ascii ''x'', ascii ''|'', ascii ''fanout'', ascii ''t'']) \<or>
        [ascii ''quit''] \<in> set (line_commands [ascii ''payload'', ascii ''x'', ascii ''|'', ascii ''fanout'', ascii ''t''])
    | Stuck \<Rightarrow> round_trip_hangs example_env"
  by (rule line_outcome) (simp add: env_ok_def example_env_def plain_server_def)

text \<open>A transducer's name passes the check of names, and is then looked up among the origins.\<close>

lemma transducer_name_raises:
  "snd (run_line example_env [ascii ''payload'', ascii ''x'', ascii ''|'', ascii ''fanout'', ascii ''t''] start) = Uncaught KeyError"
proof -
  have "case snd (run_line example_env [ascii ''payload'', ascii ''x'', ascii ''|'', ascii ''fanout'', ascii ''t''] start) of
      Uncaught e \<Rightarrow> e = KeyError | _ \<Rightarrow> False"
    by code_simp
  then show ?thesis by (simp split: after.splits)
qed

text \<open>Quotes do not protect a separator: they are taken off before the line is split.\<close>

lemma quoted_separator_separates:
  "line_commands [ascii ''payload'', [0x22] @ ascii ''|'' @ [0x22]] = [[ascii ''payload''], []]"
  by code_simp

text \<open>A semicolon is sequencing: the commands before it run first, with whatever they print, and those after it start
  from the state they leave, unless the first part ended the program or never ends; and a bar inside a pipeline is composition
  in the same way.\<close>

theorem separators_are_sequencing:
  "run_line env (a @ ascii '';'' # b) st = and_then (run_line env a st) (run_line env b) \<and>
   run_pipeline env (list_split (p @ ascii ''|'' # q) (ascii ''|'')) st' =
     and_then (run_pipeline env (list_split p (ascii ''|'')) st') (run_pipeline env (list_split q (ascii ''|'')))"
proof -
  have "strip_quotes (ascii '';'') = ascii '';''"
    by code_simp
  moreover have "run_line env b = run_pipelines env (map (\<lambda>p. list_split p (ascii ''|''))
      (list_split (map strip_quotes b) (ascii '';'')))"
    by (rule ext) (simp add: run_line_def Let_def)
  ultimately show ?thesis
    by (simp add: run_line_def [of env a] run_line_def [of env "a @ _"] Let_def list_split_both run_pipelines_append
        run_pipeline_append)
qed

text \<open>The pipeline \<open>payload ... | fanout ... | grid ...\<close> on the same origins, with the objects it puts into the store.\<close>

lemma payload_fanout_grid_run:
  assumes "unescape_all (env_names env) symbols = Inr data" and "symbols \<noteq> []"
    and "mapE (dict_get (ORIGIN_DICT env)) names = Inr servers" and "names \<noteq> []"
    and "fanout (env_gunzip env) (env_connect env (calls st)) data servers = Some (Inr mss)"
    and "allocate_all mss (heap st) = (xss, n, h)" and "generate_grid h xss servers = (g, h')"
  shows "run_pipeline env [ascii ''payload'' # symbols, ascii ''fanout'' # names, ascii ''grid'' # names] st =
      ([ShowFanout (zip names mss), ShowGrid g names],
       Next (st\<lparr>cwd := Nothing, heap := (n, h'), calls := Suc (calls st)\<rparr>))"
proof -
  have words: "ascii ''grid'' \<noteq> ascii ''payload''" "ascii ''fanout'' \<noteq> ascii ''payload''"
    "ascii ''fanout'' \<noteq> ascii ''grid''" "ascii ''fanout'' \<noteq> ascii ''cluster''" "ascii ''fanout'' \<noteq> ascii ''transduce''"
    by code_simp+
  have "k \<in> fst ` set (ORIGIN_DICT env)" if "k \<in> set names" for k
    using assms(3) that
  proof (induction names arbitrary: servers)
    case (Cons k names)
    then show ?case by (auto simp: bindE_eq_Inr dest: dict_get_Inr intro: rev_image_eqI)
  qed simp
  then have valid: "validate_server_names env names = None"
    by (simp add: validate_server_names_def list_all_iff)
  have "filter (\<lambda>_. True) servers = servers" by simp
  then show ?thesis
    using assms words valid
    by (simp add: run_command_def payload_command_def fan_command_def grid_command_def compare_command_def or_all_def
        and_then_def Let_def del: filter_True)
qed

text \<open>\<open>payload ... | fanout ... | grid ...\<close> on the same origins prints what each of them made of the payload, and then the
  grid that \<open>generate_grid\<close> gives for these very messages and servers, as fresh objects in the store.\<close>

theorem payload_fanout_grid:
  assumes "unescape_all (env_names env) symbols = Inr data" and "symbols \<noteq> []"
    and "mapE (dict_get (ORIGIN_DICT env)) names = Inr servers" and "names \<noteq> []"
    and "fanout (env_gunzip env) (env_connect env (calls st)) data servers = Some (Inr mss)"
  shows "\<exists>xss h st'. run_pipeline env [ascii ''payload'' # symbols, ascii ''fanout'' # names, ascii ''grid'' # names] st =
      ([ShowFanout (zip names mss), ShowGrid (fst (generate_grid h xss servers)) names], Next st') \<and>
    map (map (denote h)) xss = mss \<and> cwd st' = Nothing"
proof -
  obtain xss n h where xss: "allocate_all mss (heap st) = (xss, n, h)"
    by (cases "allocate_all mss (heap st)") auto
  obtain g h' where g: "generate_grid h xss servers = (g, h')" by fastforce
  show ?thesis
  proof (intro exI conjI)
    show "run_pipeline env [ascii ''payload'' # symbols, ascii ''fanout'' # names, ascii ''grid'' # names] st =
      ([ShowFanout (zip names mss), ShowGrid (fst (generate_grid h xss servers)) names],
       Next (st\<lparr>cwd := Nothing, heap := (n, h'), calls := Suc (calls st)\<rparr>))"
      using payload_fanout_grid_run [OF assms xss g] g by simp
    show "map (map (denote h)) xss = mss"
      using allocate_all_denotes [of mss "fst (heap st)" "snd (heap st)" xss n h] xss by simp
  qed simp
qed

theorem payload_fanout_grid_witness:
  "\<exists>xss h st'. run_pipeline example_env [ascii ''payload'' # [ascii ''x''], ascii ''fanout'' # [ascii ''a''], ascii ''grid'' # [ascii ''a'']] start =
      ([ShowFanout (zip [ascii ''a''] [[]]), ShowGrid (fst (generate_grid h xss [plain_server])) [ascii ''a'']], Next st') \<and>
    map (map (denote h)) xss = [[]] \<and> cwd st' = Nothing"
proof (rule payload_fanout_grid)
  show "unescape_all (env_names example_env) [ascii ''x''] = Inr [ascii ''x'']"
    by code_simp
  show "mapE (dict_get (ORIGIN_DICT example_env)) [ascii ''a''] = Inr [plain_server]"
    by (simp add: example_env_def dict_get_def)
  show "fanout (env_gunzip example_env) (env_connect example_env (calls start)) [ascii ''x''] [plain_server] = Some (Inr [[]])"
    by (simp add: example_env_def fanout_def pmap_option_def eager_pmap_def parsed_roundtrip_def plain_server_def
        origin_parsed_roundtrip_def exchange_def sendall_def recvall_def origin_loop.simps)
qed simp_all

text \<open>\<open>h2fanout\<close> leaves out servers but not their names: the answer of the second server is printed, and compared from then on,
  under the name of the first.\<close>

lemma h2fanout_shows_wrong_names:
  assumes "ORIGIN_DICT env = [(a, s1), (b, s2)]" and "a \<noteq> b" and "\<not> allows_http_2 s1" and "allows_http_2 s2"
    and "cwd st = Pieces data" and "fanout (env_gunzip env) (env_connect env (calls st)) data [s2] = Some (Inr [ms])"
  shows "fst (run_command env [ascii ''h2fanout'', a, b] st) = [ShowFanout [(a, ms)]]"
proof -
  have words: "ascii ''h2fanout'' \<notin> {ascii ''payload'', ascii ''grid'', ascii ''cluster'', ascii ''transduce'', ascii ''fanout''}"
    by code_simp
  obtain xss nh where "allocate_all [ms] (heap st) = (xss, nh)" by (metis surj_pair)
  with assms words show ?thesis
    by (simp add: run_command_def fan_command_def or_all_def validate_server_names_def dict_get_def Let_def split: prod.splits)
qed

end
