(* ===== verification/Services.thy ===== *)
theory Services
  imports ServerConfig "HOL-Library.Char_ord" "HOL-Library.List_Lexorder" "HOL-Library.Sublist"
begin

text \<open>
  \<open>tools/targets.py\<close>, from the loaded configuration to the dictionaries of servers. What \<open>yaml.safe_load\<close> and
  Docker give, the services, their quirks and the addresses of running containers, is an argument. A value of a type on
  which the code would fail is \<open>None\<close>. The lemmas show that each field of a server is the quirk of its name, and that the
  dictionaries of origins and of transducers split the sorted dictionary of servers.
\<close>

section \<open>Loaded values\<close>

text \<open>A float is kept as the text that \<open>str\<close> gives for it.\<close>

datatype yaml = YBool bool | YInt int | YFloat bytes | YText bytes | YList "yaml list" | YDict "(bytes \<times> yaml) list"

type_synonym yaml_dict = "(bytes \<times> yaml) list"

fun truth :: "yaml \<Rightarrow> bool" where
  "truth (YBool b) = b"
| "truth (YInt n) = (n \<noteq> 0)"
| "truth (YFloat t) = (t \<noteq> ascii ''0.0'' \<and> t \<noteq> ascii ''-0.0'')"
| "truth (YText t) = (t \<noteq> [])"
| "truth (YList vs) = (vs \<noteq> [])"
| "truth (YDict kvs) = (kvs \<noteq> [])"

text \<open>\<open>x.encode("latin1")\<close>, and the same on what iterating over a value gives: the items of a list, the keys of a
  dict, the characters of a text.\<close>

fun encoded :: "yaml \<Rightarrow> bytes option" where
  "encoded (YText t) = Some t"
| "encoded v = None"

fun encoded_all :: "yaml list \<Rightarrow> bytes list option" where
  "encoded_all [] = Some []"
| "encoded_all (v # vs) = Option.bind (encoded v) (\<lambda>b. map_option (\<lambda>bs. b # bs) (encoded_all vs))"

fun encoded_items :: "yaml \<Rightarrow> bytes list option" where
  "encoded_items (YList vs) = encoded_all vs"
| "encoded_items (YDict kvs) = Some (map fst kvs)"
| "encoded_items (YText t) = Some (map (\<lambda>c. [c]) t)"
| "encoded_items v = None"

fun encoded_table :: "yaml \<Rightarrow> (bytes \<times> bytes) list option" where
  "encoded_table (YDict kvs) = map_option (zip (map fst kvs)) (encoded_all (map snd kvs))"
| "encoded_table v = None"

definition flag :: "yaml_dict \<Rightarrow> string \<Rightarrow> bool" where
  "flag d k = (case map_of d (ascii k) of None \<Rightarrow> False | Some v \<Rightarrow> truth v)"

definition words :: "yaml_dict \<Rightarrow> string \<Rightarrow> bytes list option" where
  "words d k = (case map_of d (ascii k) of None \<Rightarrow> Some [] | Some v \<Rightarrow> encoded_items v)"

definition text_of :: "yaml_dict \<Rightarrow> string \<Rightarrow> bytes option" where
  "text_of d k = (case map_of d (ascii k) of None \<Rightarrow> Some [] | Some v \<Rightarrow> encoded v)"

definition table_of :: "yaml_dict \<Rightarrow> string \<Rightarrow> (bytes \<times> bytes) list option" where
  "table_of d k = (case map_of d (ascii k) of None \<Rightarrow> Some [] | Some v \<Rightarrow> encoded_table v)"

section \<open>A service\<close>

definition service_role :: "yaml_dict \<Rightarrow> role" where
  "service_role x_props =
     (if map_of x_props (ascii ''role'') = Some (YText (ascii ''origin'')) then Origin
      else if map_of x_props (ascii ''role'') = Some (YText (ascii ''transducer'')) then Transducer
      else BaseServer)"

definition service_port :: "yaml_dict \<Rightarrow> nat option" where
  "service_port x_props =
     (case map_of x_props (ascii ''port'') of
        None \<Rightarrow> Some (if flag x_props ''requires-tls'' then 443 else 80)
      | Some (YInt n) \<Rightarrow> Some (nat n)
      | Some v \<Rightarrow> None)"

definition make_server :: "string \<Rightarrow> bytes \<Rightarrow> yaml_dict \<Rightarrow> yaml_dict \<Rightarrow> server option" where
  "make_server svc_name addr x_props quirks =
     Option.bind (service_port x_props) (\<lambda>the_port.
     Option.bind (words quirks ''added-headers'') (\<lambda>added.
     Option.bind (table_of quirks ''header-name-translation'') (\<lambda>translation.
     Option.bind (words quirks ''method-whitelist'') (\<lambda>whitelist.
     Option.bind (text_of quirks ''method-character-blacklist'') (\<lambda>blacklist.
     Option.bind (words quirks ''removed-headers'') (\<lambda>removed.
     Option.bind (words quirks ''trashed-headers'') (\<lambda>trashed.
     Option.bind (text_of quirks ''duplicate-header-joiner'') (\<lambda>joiner.
     Some \<lparr>role = service_role x_props, name = svc_name, address = addr, port = the_port,
       requires_tls = flag x_props ''requires-tls'',
       allows_http_0_9 = flag quirks ''allows-http-0-9'', allows_http_2 = flag quirks ''allows-http-2'',
       added_headers = added, requires_length_in_post = flag quirks ''requires-length-in-post'',
       allows_missing_host_header = flag quirks ''allows-missing-host-header'',
       header_name_translation = translation, doesnt_support_version = flag quirks ''doesnt-support-version'',
       method_character_blacklist = blacklist,
       method_whitelist = (if whitelist = [] then None else Some whitelist),
       removed_headers = removed, trashed_headers = trashed,
       doesnt_support_persistence = flag quirks ''doesnt-support-persistence'',
       requires_specific_host_header = flag quirks ''requires-specific-host-header'',
       joins_duplicate_headers = flag quirks ''joins-duplicate-headers'', duplicate_header_joiner = joiner\<rparr>))))))))"

text \<open>A turn of the loop over the services. Docker's part is the address of the container of each running service.\<close>

datatype extraction = NotRunning | NoAddress | Extracted server | BadValue

definition extract_service ::
  "(string \<Rightarrow> bytes option) \<Rightarrow> (string \<Rightarrow> yaml_dict option) \<Rightarrow> bool \<Rightarrow> string \<Rightarrow> yaml_dict \<Rightarrow> extraction" where
  "extract_service container_ip quirks_of external svc_name x_props =
     (if service_role x_props \<noteq> BaseServer \<and> container_ip svc_name = None \<and> \<not> external then NotRunning
      else
        case (case map_of x_props (ascii ''address'') of
                Some v \<Rightarrow> Some v | None \<Rightarrow> map_option YText (container_ip svc_name)) of
          Some (YText addr) \<Rightarrow>
            (case Option.bind (quirks_of svc_name) (make_server svc_name addr x_props) of
               None \<Rightarrow> BadValue | Some s \<Rightarrow> Extracted s)
        | _ \<Rightarrow> NoAddress)"

text \<open>The loop. It gives the services that were extracted, and the names of those that are not running.\<close>

fun extract_loop ::
  "(string \<Rightarrow> string \<Rightarrow> yaml_dict \<Rightarrow> extraction) \<Rightarrow> (string \<times> yaml_dict) list \<Rightarrow> (server list \<times> string list) option" where
  "extract_loop extract [] = Some ([], [])"
| "extract_loop extract ((svc_name, x_props) # services) =
     (case extract svc_name svc_name x_props of
        BadValue \<Rightarrow> None
      | e \<Rightarrow> map_option (\<lambda>(result, stopped).
          (case e of Extracted s \<Rightarrow> s # result | _ \<Rightarrow> result,
           case e of NotRunning \<Rightarrow> svc_name # stopped | _ \<Rightarrow> stopped))
          (extract_loop extract services))"

text \<open>\<open>internal_services | external_services\<close>, and \<open>quirks_dict.get(svc_name, {}) or {}\<close>.\<close>

definition dict_union :: "(string \<times> 'a) list \<Rightarrow> (string \<times> 'a) list \<Rightarrow> (string \<times> 'a) list" where
  "dict_union internal external =
     map (\<lambda>(k, v). (k, case map_of external k of None \<Rightarrow> v | Some w \<Rightarrow> w)) internal @
     filter (\<lambda>(k, v). k \<notin> set (map fst internal)) external"

definition service_quirks :: "(string \<times> yaml) list \<Rightarrow> string \<Rightarrow> yaml_dict option" where
  "service_quirks quirks_dict svc_name =
     (case map_of quirks_dict svc_name of
        None \<Rightarrow> Some []
      | Some v \<Rightarrow> if \<not> truth v then Some [] else case v of YDict d \<Rightarrow> Some d | _ \<Rightarrow> None)"

definition extract_services ::
  "(string \<Rightarrow> bytes option) \<Rightarrow> (string \<times> yaml) list \<Rightarrow> (string \<times> yaml_dict) list \<Rightarrow> (string \<times> yaml_dict) list \<Rightarrow>
    (server list \<times> string list) option" where
  "extract_services container_ip quirks_dict internal external =
     extract_loop (\<lambda>svc_name. extract_service container_ip (service_quirks quirks_dict) (svc_name \<in> set (map fst external)))
       (dict_union internal external)"

section \<open>The dictionaries\<close>

definition server_dict :: "server list \<Rightarrow> (string \<times> server) list" where
  "server_dict servers =
     map (\<lambda>s. (name s, s)) (filter (\<lambda>s. role s = Origin \<or> role s = Transducer) (sort_key name servers))"

definition transducer_dict :: "server list \<Rightarrow> (string \<times> server) list" where
  "transducer_dict servers = filter (\<lambda>(k, v). role v = Transducer) (server_dict servers)"

definition origin_dict :: "server list \<Rightarrow> (string \<times> server) list" where
  "origin_dict servers = filter (\<lambda>(k, v). role v = Origin) (server_dict servers)"

section \<open>What the dictionaries hold\<close>

lemma make_server_name: "make_server n a x q = Some s \<Longrightarrow> name s = n \<and> address s = a \<and> role s = service_role x"
  by (auto simp: make_server_def bind_eq_Some_conv)

lemma extract_service_name: "extract_service c q e n x = Extracted s \<Longrightarrow> name s = n \<and> role s = service_role x"
  by (auto simp: extract_service_def bind_eq_Some_conv split: if_splits option.splits yaml.splits dest: make_server_name)

lemma extract_loop_names:
  assumes "\<And>n x s. extract n n x = Extracted s \<Longrightarrow> name s = n"
  shows "extract_loop extract services = Some (servers, stopped) \<Longrightarrow> distinct (map fst services) \<Longrightarrow>
    set (map name servers) \<union> set stopped \<subseteq> set (map fst services) \<and>
    distinct (map name servers @ stopped)"
proof (induction services arbitrary: servers stopped)
  case (Cons s services)
  obtain n x where s: "s = (n, x)" by (cases s)
  from Cons.prems(1) obtain rest halted where rest: "extract_loop extract services = Some (rest, halted)"
    and all: "servers = (case extract n n x of Extracted s \<Rightarrow> s # rest | _ \<Rightarrow> rest)"
      "stopped = (case extract n n x of NotRunning \<Rightarrow> n # halted | _ \<Rightarrow> halted)"
    unfolding s by (auto split: extraction.splits)
  from Cons.IH [OF rest] Cons.prems(2)
  have IH: "set (map name rest) \<union> set halted \<subseteq> set (map fst services)" "distinct (map name rest @ halted)"
    and new: "n \<notin> set (map fst services)"
    by (auto simp: s)
  show ?case
  proof (cases "extract n n x")
    case (Extracted t)
    with assms [OF Extracted] all IH new show ?thesis by (auto simp: s)
  qed (use all IH new in \<open>auto simp: s\<close>)
qed simp

lemma dict_union_distinct:
  assumes "distinct (map fst internal)" and "distinct (map fst external)"
  shows "distinct (map fst (dict_union internal external))"
proof -
  have "map fst (dict_union internal external) = map fst internal @ filter (\<lambda>k. k \<notin> set (map fst internal)) (map fst external)"
    by (simp add: dict_union_def filter_map comp_def case_prod_unfold)
  then show ?thesis using assms by auto
qed

lemma extract_services_names:
  assumes "extract_services c q internal external = Some (servers, stopped)"
    and "distinct (map fst internal)" and "distinct (map fst external)"
  shows "distinct (map name servers)" "set (map name servers) \<inter> set stopped = {}"
  using extract_loop_names [OF _ assms(1) [unfolded extract_services_def] dict_union_distinct [OF assms(2,3)]]
  by (auto dest: extract_service_name)

section \<open>Properties\<close>

text \<open>C31: the dictionaries. \<open>SERVER_DICT\<close> is sorted by name and has every extracted origin and transducer under its name, and
  nothing else; \<open>ORIGIN_DICT\<close> and \<open>TRANSDUCER_DICT\<close> are its origins and its transducers, in the same order. Each key
  stands for one server, and no service that was extracted is reported as not running.\<close>

theorem dictionaries_of_services:
  assumes "extract_services container_ip quirks_dict internal external = Some (servers, stopped)"
    and "distinct (map fst internal)" and "distinct (map fst external)"
  shows "sorted (map fst (server_dict servers)) \<and> distinct (map fst (server_dict servers)) \<and>
    set (server_dict servers) = (\<lambda>s. (name s, s)) ` {s \<in> set servers. role s \<noteq> BaseServer} \<and>
    subseq (origin_dict servers) (server_dict servers) \<and> subseq (transducer_dict servers) (server_dict servers) \<and>
    set (server_dict servers) = set (origin_dict servers) \<union> set (transducer_dict servers) \<and>
    list_all (\<lambda>(k, s). role s = Origin \<and> name s = k) (origin_dict servers) \<and>
    list_all (\<lambda>(k, s). role s = Transducer \<and> name s = k) (transducer_dict servers) \<and>
    set (map name servers) \<inter> set stopped = {}"
proof -
  have names: "map fst (server_dict servers) = map name (filter (\<lambda>s. role s = Origin \<or> role s = Transducer) (sort_key name servers))"
    by (simp add: server_dict_def comp_def)
  have "sorted (map fst (server_dict servers))"
    unfolding names by (intro sorted_filter sorted_sort_key)
  moreover note d = extract_services_names [OF assms]
  have "distinct (map fst (server_dict servers))"
    unfolding names using d(1) by (auto simp: distinct_map inj_on_def)
  moreover have "r = Origin \<or> r = Transducer \<longleftrightarrow> r \<noteq> BaseServer" for r
    by (cases r) auto
  then have "set (server_dict servers) = (\<lambda>s. (name s, s)) ` {s \<in> set servers. role s \<noteq> BaseServer}"
    by (simp add: server_dict_def)
  ultimately show ?thesis
    using d(2) by (auto simp: origin_dict_def transducer_dict_def server_dict_def list_all_iff subseq_filter_left)
qed

definition example_services :: "(string \<times> yaml_dict) list" where
  "example_services =
     [(''nginx'', [(ascii ''role'', YText (ascii ''origin''))]), (''apache'', [(ascii ''role'', YText (ascii ''origin''))])]"

definition example_ip :: "string \<Rightarrow> bytes option" where
  "example_ip n = (if n = ''apache'' then None else Some (ascii ''10.0.0.1''))"

theorem dictionaries_of_services_witness:
  "\<exists>servers stopped. extract_services example_ip [] example_services [] = Some (servers, stopped) \<and>
     map name servers = [''nginx''] \<and> stopped = [''apache''] \<and> sorted (map fst (server_dict servers)) \<and>
     list_all (\<lambda>(k, s). role s = Origin \<and> name s = k) (origin_dict servers)"
proof -
  have "\<exists>s. make_server ''nginx'' (ascii ''10.0.0.1'') [(ascii ''role'', YText (ascii ''origin''))] [] = Some s \<and> name s = ''nginx''"
    by (simp add: make_server_def service_port_def words_def text_of_def table_of_def flag_def ascii_def)
  then obtain s where "extract_service example_ip (service_quirks []) False ''nginx'' [(ascii ''role'', YText (ascii ''origin''))] = Extracted s"
    "name s = ''nginx''"
    by (auto simp: extract_service_def service_quirks_def example_ip_def ascii_def)
  moreover have "extract_service example_ip (service_quirks []) False ''apache'' [(ascii ''role'', YText (ascii ''origin''))] = NotRunning"
    by (simp add: extract_service_def example_ip_def service_role_def)
  ultimately obtain servers stopped where s: "extract_services example_ip [] example_services [] = Some (servers, stopped)"
    "map name servers = [''nginx'']" "stopped = [''apache'']"
    by (simp add: example_services_def extract_services_def dict_union_def)
  have "distinct (map fst example_services)" "distinct (map fst ([] :: (string \<times> yaml_dict) list))"
    by (simp_all add: example_services_def)
  from s(2-3) dictionaries_of_services [OF s(1) this] show ?thesis
    by (elim conjE) (intro exI conjI, (rule s(1) | assumption)+)
qed

end
