(* ===== verification/ReplLex.thy ===== *)
theory ReplLex
  imports ReplMain Services
begin

text \<open>
  \<open>tools/repl.py\<close>, from a typed line to its commands: the words that \<open>shlex.shlex\<close> makes of it (not in its POSIX mode),
  the loop over lines, and the text of a stream that \<open>transduce\<close> prints. The lemmas say how the lexer takes spelled words
  apart, and that a printed stream can be typed in again.
\<close>

section \<open>\<open>shlex.shlex\<close>\<close>

definition shlex_space :: "byte \<Rightarrow> bool" where
  "shlex_space c \<longleftrightarrow> c = 0x20 \<or> c = 0x09 \<or> c = CR \<or> c = LF"

definition word_char :: "byte \<Rightarrow> bool" where
  "word_char c \<longleftrightarrow> 0x61 \<le> c \<and> c \<le> 0x7A \<or> 0x41 \<le> c \<and> c \<le> 0x5A \<or> is_digit c \<or> c = 0x5F"

definition quote_char :: "byte \<Rightarrow> bool" where
  "quote_char c \<longleftrightarrow> c = 0x27 \<or> c = 0x22"

text \<open>After a \<open>#\<close>, the rest of the line is left out.\<close>

definition skip_line :: "bytes \<Rightarrow> bytes" where
  "skip_line s = drop 1 (dropWhile (\<lambda>c. c \<noteq> LF) s)"

lemma skip_line_length [termination_simp]: "length (skip_line s) \<le> length s"
  using length_dropWhile_le [of "\<lambda>c. c \<noteq> LF" s] by (simp add: skip_line_def)

text \<open>The states of the lexer. A word ends at a space, which is dropped, or at a character that can be in no word, which is
  pushed back as a token of its own. A quote inside a word belongs to the word.\<close>

function in_word :: "bytes \<Rightarrow> bytes \<Rightarrow> bytes \<times> byte option \<times> bytes" where
  "in_word tok [] = (tok, None, [])"
| "in_word tok (c # s) =
     (if shlex_space c then (tok, None, s)
      else if c = 0x23 then in_word tok (skip_line s)
      else if word_char c \<or> quote_char c then in_word (tok @ [c]) s
      else (tok, Some c, s))"
  by pat_completeness auto
termination
  by (relation "measure (\<lambda>(tok, s). length s)") (auto simp: le_imp_less_Suc skip_line_length)

fun in_quote :: "byte \<Rightarrow> bytes \<Rightarrow> bytes \<Rightarrow> (bytes \<times> bytes) result" where
  "in_quote q tok [] = Inl ValueError"
| "in_quote q tok (c # s) = (if c = q then Inr (tok @ [c], s) else in_quote q (tok @ [c]) s)"

function read_token :: "bytes \<Rightarrow> (bytes \<times> byte option \<times> bytes) result" where
  "read_token [] = Inr ([], None, [])"
| "read_token (c # s) =
     (if shlex_space c then read_token s
      else if c = 0x23 then read_token (skip_line s)
      else if word_char c then Inr (in_word [c] s)
      else if quote_char c then bindE (in_quote c [c] s) (\<lambda>(tok, s). Inr (tok, None, s))
      else Inr ([c], None, s))"
  by pat_completeness auto
termination
  by (relation "measure length") (auto simp: le_imp_less_Suc skip_line_length)

lemma in_word_shorter: "in_word tok s = (tok', p, r) \<Longrightarrow> length r \<le> length s"
proof (induction tok s rule: in_word.induct)
  case (2 tok c s)
  then show ?case
    using skip_line_length [of s] by (auto split: if_splits intro: le_SucI order_trans)
qed simp

lemma in_quote_shorter: "in_quote q tok s = Inr (tok', r) \<Longrightarrow> length r < length s"
  by (induction q tok s rule: in_quote.induct) (auto split: if_splits intro: less_SucI)

lemma read_token_shorter: "read_token s = Inr (tok, p, r) \<Longrightarrow> tok \<noteq> [] \<Longrightarrow> length r < length s"
proof (induction s rule: read_token.induct)
  case (2 c s)
  then show ?case
    using skip_line_length [of s]
    by (auto simp: bindE_eq_Inr split: if_splits intro: less_SucI dest!: in_quote_shorter in_word_shorter)
qed simp

text \<open>Iterating over the lexer; an empty token is the end.\<close>

function lex_line :: "bytes \<Rightarrow> word_token list result" where
  "lex_line s =
     (case read_token s of
        Inl e \<Rightarrow> Inl e
      | Inr (tok, pushback, r) \<Rightarrow>
          if tok = [] then Inr []
          else bindE (lex_line r) (\<lambda>ts. Inr (tok # (case pushback of None \<Rightarrow> ts | Some c \<Rightarrow> [c] # ts))))"
  by pat_completeness auto
termination
  by (relation "measure length") (auto dest: read_token_shorter)

declare lex_line.simps [simp del]

section \<open>The loop over lines\<close>

datatype typed = TypedLine bytes | EndOfFile | Interrupt

datatype session_output = Ran repl_output | CannotLex | NewLine

definition read_line :: "repl_env \<Rightarrow> bytes \<Rightarrow> repl_state \<Rightarrow> session_output list \<times> after" where
  "read_line env line st =
     (case lex_line line of
        Inl e \<Rightarrow> if e = ValueError then ([CannotLex], Next st) else ([], Uncaught e)
      | Inr toks \<Rightarrow> (case run_line env toks st of (out, a) \<Rightarrow> (map Ran out, a)))"

fun repl_loop :: "repl_env \<Rightarrow> typed list \<Rightarrow> repl_state \<Rightarrow> session_output list \<times> after" where
  "repl_loop env [] st = ([], Next st)"
| "repl_loop env (EndOfFile # inputs) st = ([], Exited)"
| "repl_loop env (Interrupt # inputs) st = (case repl_loop env inputs st of (out, a) \<Rightarrow> (NewLine # out, a))"
| "repl_loop env (TypedLine line # inputs) st =
     (case read_line env line st of
        (out, Next st) \<Rightarrow> (case repl_loop env inputs st of (more_out, a) \<Rightarrow> (out @ more_out, a))
      | r \<Rightarrow> r)"

section \<open>The text of a stream\<close>

text \<open>\<open>repr(b)[1:]\<close> for bytes.\<close>

definition repr_byte :: "byte \<Rightarrow> byte \<Rightarrow> bytes" where
  "repr_byte q c =
     (if c = q \<or> c = 0x5C then [0x5C, c]
      else if c = 0x09 then ascii (CHR 0x5C # ''t'') else if c = LF then ascii (CHR 0x5C # ''n'')
      else if c = CR then ascii (CHR 0x5C # ''r'')
      else if c < 0x20 \<or> 0x7F \<le> c then escaped_byte c else [c])"

definition repr_quote :: "bytes \<Rightarrow> byte" where
  "repr_quote b = (if 0x27 \<in> set b \<and> 0x22 \<notin> set b then 0x22 else 0x27)"

definition bytes_repr :: "bytes \<Rightarrow> bytes" where
  "bytes_repr b = [repr_quote b] @ concat (map (repr_byte (repr_quote b)) b) @ [repr_quote b]"

definition stream_text :: "bytes list \<Rightarrow> bytes" where
  "stream_text stream = bytes_join (ascii '' '') (map bytes_repr stream)"

section \<open>Words one after the other\<close>

lemma word_char_not_space: "word_char c \<Longrightarrow> \<not> shlex_space c \<and> c \<noteq> 0x23"
  by (auto simp: word_char_def shlex_space_def is_digit_def)

lemma in_word_chars: "list_all word_char w \<Longrightarrow> in_word tok (w @ s) = in_word (tok @ w) s"
  by (induction w arbitrary: tok) (auto dest: word_char_not_space)

lemma in_quote_chars: "q \<notin> set b \<Longrightarrow> in_quote q tok (b @ q # s) = Inr (tok @ b @ [q], s)"
  by (induction b arbitrary: tok) auto

lemma lex_token:
  "read_token s = Inr (tok, p, r) \<Longrightarrow> tok \<noteq> [] \<Longrightarrow>
    lex_line s = bindE (lex_line r) (\<lambda>ts. Inr (tok # (case p of None \<Rightarrow> ts | Some c \<Rightarrow> [c] # ts)))"
  by (simp add: lex_line.simps [of s])

lemma lex_Nil [simp]: "lex_line [] = Inr []"
  by (simp add: lex_line.simps)

lemma lex_space: "lex_line (0x20 # s) = lex_line s"
  by (simp add: lex_line.simps [of "0x20 # s"] lex_line.simps [of s] shlex_space_def)

lemma lex_word:
  assumes "list_all word_char w" and "w \<noteq> []"
  shows "lex_line (w @ 0x20 # s) = bindE (lex_line s) (\<lambda>ts. Inr (w # ts))" and "lex_line w = Inr [w]"
proof -
  obtain c w' where w: "w = c # w'" using assms(2) by (cases w) auto
  then have c: "word_char c" "list_all word_char w'" using assms(1) by simp_all
  then have "read_token (c # w' @ s) = Inr (in_word w s)" for s
    using word_char_not_space [OF c(1)] in_word_chars [of w' "[c]" s] by (simp add: w)
  from this [of "0x20 # s"] this [of "[]"]
  have "read_token (w @ 0x20 # s) = Inr (w, None, s)" "read_token w = Inr (w, None, [])"
    by (simp_all add: w shlex_space_def del: read_token.simps(2))
  from lex_token [OF this(1) assms(2)] lex_token [OF this(2) assms(2)]
  show "lex_line (w @ 0x20 # s) = bindE (lex_line s) (\<lambda>ts. Inr (w # ts))" "lex_line w = Inr [w]"
    by simp_all
qed

lemma lex_quoted:
  assumes "quote_char q" and "q \<notin> set b"
  shows "lex_line ((q # b @ [q]) @ s) = bindE (lex_line s) (\<lambda>ts. Inr ((q # b @ [q]) # ts))"
proof -
  have "\<not> shlex_space q" "q \<noteq> 0x23" "\<not> word_char q"
    using assms(1) by (auto simp: quote_char_def shlex_space_def word_char_def is_digit_def)
  then have "read_token ((q # b @ [q]) @ s) = Inr (q # b @ [q], None, s)"
    using assms in_quote_chars [of q b "[q]" s] by simp
  from lex_token [OF this] show ?thesis by simp
qed

lemma lex_quoted_words:
  assumes "\<And>w. w \<in> set ws \<Longrightarrow> \<exists>q b. w = q # b @ [q] \<and> quote_char q \<and> q \<notin> set b"
  shows "lex_line (bytes_join (ascii '' '') ws) = Inr ws"
  using assms
proof (induction ws)
  case (Cons w ws)
  have "\<exists>q b. w = q # b @ [q] \<and> quote_char q \<and> q \<notin> set b" by (rule Cons.prems) simp
  then obtain q b where w: "w = q # b @ [q]" "quote_char q" "q \<notin> set b" by blast
  have IH: "lex_line (bytes_join (ascii '' '') ws) = Inr ws" using Cons by simp
  show ?case
  proof (cases ws)
    case Nil
    then show ?thesis using lex_quoted [OF w(2,3), of "[]"] w(1) by simp
  next
    case (Cons v vs)
    then have "bytes_join (ascii '' '') (w # ws) = w @ 0x20 # bytes_join (ascii '' '') ws" by (simp add: ascii_def)
    moreover have "lex_line (w @ 0x20 # bytes_join (ascii '' '') ws) =
        bindE (lex_line (0x20 # bytes_join (ascii '' '') ws)) (\<lambda>ts. Inr (w # ts))"
      unfolding w(1) by (rule lex_quoted [OF w(2,3)])
    ultimately show ?thesis by (simp only: lex_space IH bindE_Inr)
  qed
qed (simp add: lex_line.simps)

section \<open>Escapes\<close>

lemma unescape_repr_byte:
  assumes "quote_char q"
  shows "unicode_unescape names (repr_byte q c @ s) =
    (case unicode_unescape names s of Inl e \<Rightarrow> Inl e | Inr ds \<Rightarrow> Inr (unat c # ds))"
proof -
  have simple: "map_of simple_escapes e = Some [unat c] \<Longrightarrow> unicode_unescape names (0x5C # e # s) =
      (case unicode_unescape names s of Inl e \<Rightarrow> Inl e | Inr ds \<Rightarrow> Inr (unat c # ds))" for e
    using unescape_step [of names "e # s" "[unat c]" s] by (simp add: escape_def del: unicode_unescape.simps split: sum.split)
  have table: "map_of simple_escapes (of_char (CHR ''t'')) = Some [9]" "map_of simple_escapes (of_char (CHR ''n'')) = Some [10]"
    "map_of simple_escapes (of_char (CHR ''r'')) = Some [13]" "map_of simple_escapes 0x5C = Some [0x5C]"
    "map_of simple_escapes 0x27 = Some [0x27]" "map_of simple_escapes 0x22 = Some [0x22]"
    by code_simp+
  consider "c = q \<or> c = 0x5C" | "c = 0x09" "c \<noteq> q" | "c = LF" "c \<noteq> q" | "c = CR" "c \<noteq> q"
    | "repr_byte q c = escaped_byte c" | "repr_byte q c = [c]" "c \<noteq> 0x5C"
    unfolding repr_byte_def by atomize_elim (simp split: if_split, blast?)
  then show ?thesis
  proof cases
    case 1
    then have r: "repr_byte q c = [0x5C, c]" by (simp only: repr_byte_def if_True)
    from 1 have "c = 0x27 \<or> c = 0x22 \<or> c = 0x5C" using assms unfolding quote_char_def by blast
    then have "map_of simple_escapes c = Some [unat c]"
      using table by (elim disjE) simp_all
    then show ?thesis using simple r by simp
  next
    case 5
    then show ?thesis by (simp add: unescape_hex_byte split: sum.split)
  next
    case 6
    then show ?thesis by simp
  next
    case 2
    then have "repr_byte q c = [0x5C, of_char (CHR ''t'')]" by (simp add: repr_byte_def ascii_def)
    then show ?thesis using simple [of "of_char (CHR ''t'')"] table(1) 2(1) by simp
  next
    case 3
    then have "repr_byte q c = [0x5C, of_char (CHR ''n'')]" by (simp add: repr_byte_def ascii_def)
    then show ?thesis using simple [of "of_char (CHR ''n'')"] table(2) 3(1) by simp
  next
    case 4
    then have "repr_byte q c = [0x5C, of_char (CHR ''r'')]" by (simp add: repr_byte_def ascii_def)
    then show ?thesis using simple [of "of_char (CHR ''r'')"] table(3) 4(1) by simp
  qed
qed

lemma unescape_repr:
  assumes "quote_char q"
  shows "unescape_payload names (concat (map (repr_byte q) b)) = Inr b"
proof -
  have "unicode_unescape names (concat (map (repr_byte q) b)) = Inr (map unat b)"
    by (induction b) (simp_all add: unescape_repr_byte [OF assms])
  then show ?thesis by (simp add: unescape_payload_def list_all_iff comp_def)
qed

lemma escaped_byte_no_quote: "quote_char q \<Longrightarrow> q \<notin> set (escaped_byte c)"
proof
  assume q: "quote_char q" and "q \<in> set (escaped_byte c)"
  then have in_set: "q = 0x5C \<or> q = of_char (CHR ''x'') \<or> q = of_char (hex_digit (int (unat c div 16))) \<or>
      q = of_char (hex_digit (int (unat c mod 16)))"
    by (simp add: escaped_byte_def ascii_def)
  have "list_all (\<lambda>m. \<not> quote_char (of_char (hex_digit (int m)))) [0..<16]"
    by code_simp
  moreover have "unat c div 16 < 16" "unat c mod 16 < 16"
    using unat_byte_less [of c] by (simp_all add: less_mult_imp_div_less)
  ultimately have "\<not> quote_char (of_char (hex_digit (int (unat c div 16))))"
    "\<not> quote_char (of_char (hex_digit (int (unat c mod 16))))"
    by (auto simp: list_all_iff)
  moreover have "\<not> quote_char 0x5C" "\<not> quote_char (of_char (CHR ''x''))" by code_simp+
  ultimately show False using q in_set by blast
qed

lemma repr_byte_no_quote:
  assumes "quote_char q" and "c \<noteq> q"
  shows "q \<notin> set (repr_byte q c)"
proof -
  have "q \<noteq> 0x5C" "q \<noteq> of_char (CHR ''t'')" "q \<noteq> of_char (CHR ''n'')" "q \<noteq> of_char (CHR ''r'')"
    using assms(1) by (auto simp: quote_char_def)
  with assms escaped_byte_no_quote show ?thesis
    by (auto simp: repr_byte_def ascii_def)
qed

lemma bytes_repr_quoted:
  assumes "\<not> (0x27 \<in> set b \<and> 0x22 \<in> set b)"
  shows "quote_char (repr_quote b)" and "repr_quote b \<notin> set (concat (map (repr_byte (repr_quote b)) b))"
proof -
  show q: "quote_char (repr_quote b)" by (simp add: quote_char_def repr_quote_def)
  have "c \<noteq> repr_quote b" if "c \<in> set b" for c
    using assms that by (auto simp: repr_quote_def split: if_splits)
  then show "repr_quote b \<notin> set (concat (map (repr_byte (repr_quote b)) b))"
    using repr_byte_no_quote [OF q] by auto
qed

lemma strip_bytes_repr: "quote_char (repr_quote b) \<Longrightarrow> strip_quotes (bytes_repr b) = concat (map (repr_byte (repr_quote b)) b)"
  by (auto simp: strip_quotes_def bytes_repr_def quote_char_def)

lemma unescape_all_repr:
  "list_all (\<lambda>b. \<not> (0x27 \<in> set b \<and> 0x22 \<in> set b)) stream \<Longrightarrow>
    unescape_all names (map (\<lambda>b. strip_quotes (bytes_repr b)) stream) = Inr stream"
  by (induction stream) (simp_all add: unescape_all_def strip_bytes_repr bytes_repr_quoted unescape_repr)

section \<open>Sessions\<close>

lemma lex_errors: "lex_line s = Inl e \<Longrightarrow> e = ValueError"
proof (induction s rule: lex_line.induct)
  case (1 s)
  have quote: "in_quote q tok s = Inl e \<Longrightarrow> e = ValueError" for q tok s and e :: exn
    by (induction q tok s rule: in_quote.induct) (auto split: if_splits)
  have "read_token s = Inl e \<Longrightarrow> e = ValueError" for s and e :: exn
    by (induction s rule: read_token.induct) (auto simp: bindE_eq_Inl split: if_splits dest: quote)
  with 1 show ?case
    by (auto simp: lex_line.simps [of s] bindE_eq_Inl split: sum.splits if_splits prod.splits)
qed

text \<open>The REPL on the servers that were extracted.\<close>

definition garden_env ::
  "server list \<Rightarrow> (nat \<Rightarrow> server \<Rightarrow> sock result) \<Rightarrow> (bytes \<Rightarrow> bytes result) \<Rightarrow> (bytes \<Rightarrow> nat option) \<Rightarrow> repl_env" where
  "garden_env servers connect gunzip names =
     \<lparr>ORIGIN_DICT = map (\<lambda>(k, s). (ascii k, s)) (origin_dict servers),
      TRANSDUCER_DICT = map (\<lambda>(k, s). (ascii k, s)) (transducer_dict servers),
      env_connect = connect, env_gunzip = gunzip, env_names = names\<rparr>"

lemma garden_env_ok: "env_ok (garden_env servers connect gunzip names)"
  by (auto simp: env_ok_def garden_env_def origin_dict_def transducer_dict_def list_all_iff)

text \<open>The commands that are typed in a session.\<close>

fun typed_commands :: "typed \<Rightarrow> word_token list list" where
  "typed_commands (TypedLine line) = (case lex_line line of Inl e \<Rightarrow> [] | Inr toks \<Rightarrow> line_commands toks)"
| "typed_commands i = []"

definition session_ok :: "repl_env \<Rightarrow> typed list \<Rightarrow> after \<Rightarrow> bool" where
  "session_ok env inputs a =
     (case a of
        Next st' \<Rightarrow> state_ok st'
      | Uncaught e \<Rightarrow> list_ex (\<lambda>i. list_ex (\<lambda>c. command_error env c e) (typed_commands i)) inputs
      | Exited \<Rightarrow> list_ex (\<lambda>i. i = EndOfFile \<or> [ascii ''exit''] \<in> set (typed_commands i) \<or> [ascii ''quit''] \<in> set (typed_commands i)) inputs
      | Stuck \<Rightarrow> round_trip_hangs env)"

lemma read_line_ok:
  assumes "env_ok env" and "state_ok st"
  shows "session_ok env [TypedLine line] (snd (read_line env line st))"
proof (cases "lex_line line")
  case (Inl e)
  with lex_errors [OF Inl] assms(2) show ?thesis by (simp add: read_line_def session_ok_def)
next
  case (Inr toks)
  obtain out a where "run_line env toks st = (out, a)" by fastforce
  with Inr run_line_ok [OF assms(1), of toks st] show ?thesis
    by (cases a) (simp_all add: read_line_def session_ok_def line_ok_def)
qed

lemma session_ok_Cons: "session_ok env inputs a \<Longrightarrow> session_ok env (i # inputs) a"
  by (cases a) (simp_all add: session_ok_def)

lemma repl_loop_ok: "state_ok st \<Longrightarrow> env_ok env \<Longrightarrow> session_ok env inputs (snd (repl_loop env inputs st))"
proof (induction env inputs st rule: repl_loop.induct)
  case (4 env line inputs st)
  obtain out a where r: "read_line env line st = (out, a)" by fastforce
  with read_line_ok [OF "4.prems"(2), of st line] "4.prems"(1) have a: "session_ok env [TypedLine line] a" by simp
  show ?case
  proof (cases a)
    case (Next st')
    with a have "state_ok st'" by (simp add: session_ok_def)
    with "4.IH" [of out a st'] r Next "4.prems"(2) have "session_ok env inputs (snd (repl_loop env inputs st'))" by simp
    then show ?thesis using r Next by (auto intro: session_ok_Cons split: prod.split)
  qed (use r a in \<open>auto simp: session_ok_def\<close>)
qed (auto simp: session_ok_def split: prod.splits after.splits)

section \<open>Properties\<close>

lemma list_split_single: "x \<notin> set l \<Longrightarrow> list_split l x = [l]"
  by (simp add: list_split.simps)

text \<open>C25: a stream that is printed can be typed in. After \<open>payload\<close>, the text that \<open>print_stream\<close> gives for a stream is lexed,
  taken out of its quotes and unescaped to the same pieces, whatever bytes they hold, as long as no piece
  holds both kinds of quotes, where the lexer and \<open>repr\<close> disagree, and none is a separator of commands.\<close>

theorem printed_stream_is_typed_in:
  assumes "stream \<noteq> []"
    and "list_all (\<lambda>b. \<not> (0x27 \<in> set b \<and> 0x22 \<in> set b) \<and> b \<noteq> ascii '';'' \<and> b \<noteq> ascii ''|'') stream"
  shows "read_line env (ascii ''payload '' @ stream_text stream) st = ([], Next (st\<lparr>cwd := Pieces stream\<rparr>))"
proof -
  let ?toks = "map bytes_repr stream" and ?body = "\<lambda>b. strip_quotes (bytes_repr b)"
  have single: "list_all (\<lambda>b. \<not> (0x27 \<in> set b \<and> 0x22 \<in> set b)) stream"
    using assms(2) by (simp add: list_all_iff)
  have "lex_line (stream_text stream) = Inr ?toks"
    unfolding stream_text_def using single bytes_repr_quoted
    by (intro lex_quoted_words) (fastforce simp: bytes_repr_def list_all_iff)
  moreover have "ascii ''payload '' @ stream_text stream = ascii ''payload'' @ 0x20 # stream_text stream"
    by (simp add: ascii_def)
  moreover have "list_all word_char (ascii ''payload'') \<and> ascii ''payload'' \<noteq> []"
    by code_simp
  ultimately have lex: "lex_line (ascii ''payload '' @ stream_text stream) = Inr (ascii ''payload'' # ?toks)"
    using lex_word(1) [of "ascii ''payload''" "stream_text stream"] by simp
  have body: "?body b \<noteq> ascii '';'' \<and> ?body b \<noteq> ascii ''|''" if "b \<in> set stream" for b
  proof -
    from that assms(2) have b: "\<not> (0x27 \<in> set b \<and> 0x22 \<in> set b)" "b \<noteq> ascii '';''" "b \<noteq> ascii ''|''"
      by (auto simp: list_all_iff)
    have "unescape_payload names (?body b) = Inr b" for names
      using b(1) by (simp add: strip_bytes_repr bytes_repr_quoted unescape_repr)
    moreover have "unescape_payload (\<lambda>_. None) (ascii '';'') = Inr (ascii '';'')"
      "unescape_payload (\<lambda>_. None) (ascii ''|'') = Inr (ascii ''|'')"
      by code_simp+
    ultimately show ?thesis using b(2,3) by force
  qed
  then have apart: "ascii '';'' \<notin> ?body ` set stream" "ascii ''|'' \<notin> ?body ` set stream"
    by (metis imageE)+
  have cmd: "strip_quotes (ascii ''payload'') = ascii ''payload''" "ascii ''payload'' \<noteq> ascii '';''" "ascii ''payload'' \<noteq> ascii ''|''"
    by code_simp+
  have "list_split (map strip_quotes (ascii ''payload'' # ?toks)) (ascii '';'') = [ascii ''payload'' # map ?body stream]"
    "list_split (ascii ''payload'' # map ?body stream) (ascii ''|'') = [ascii ''payload'' # map ?body stream]"
    using list_split_single [of "ascii '';''" "ascii ''payload'' # map ?body stream"]
      list_split_single [of "ascii ''|''" "ascii ''payload'' # map ?body stream"] cmd apart by (simp_all add: comp_def)
  then have "run_line env (ascii ''payload'' # ?toks) st = ([], Next (st\<lparr>cwd := Pieces stream\<rparr>))"
    using unescape_all_repr [OF single, of "env_names env"] assms(1)
    by (simp add: run_line_def Let_def run_command_def payload_command_def and_then_def)
  with lex show ?thesis by (simp add: read_line_def)
qed

theorem printed_stream_is_typed_in_witness:
  "read_line example_env (ascii ''payload '' @ stream_text [[0x27, 0x0D, 0x0A, 0xFF], []]) start =
    ([], Next (start\<lparr>cwd := Pieces [[0x27, 0x0D, 0x0A, 0xFF], []]\<rparr>))"
  by (rule printed_stream_is_typed_in) (simp_all add: ascii_def)

text \<open>C24: the end of a session. Whatever lines are typed into the REPL on extracted servers, and whatever the servers do, it goes
  on with a value whose requests are allocated, or stops at the end of the input or on \<open>exit\<close> or \<open>quit\<close>, or is stuck in
  the loop of a transducer, or ends with one of three kinds of exceptions, of a command of a line that was typed: what a
  round trip raised, a transducer named in place of an origin, a frame that cannot be built. No line ends it by how it is
  lexed.\<close>

theorem session_outcome:
  "case snd (repl_loop (garden_env servers connect gunzip names) inputs \<lparr>cwd = Nothing, heap = h, calls = n\<rparr>) of
      Next st' \<Rightarrow> state_ok st'
    | Uncaught e \<Rightarrow>
        list_ex (\<lambda>i. list_ex (\<lambda>c. command_error (garden_env servers connect gunzip names) c e) (typed_commands i)) inputs
    | Exited \<Rightarrow>
        list_ex (\<lambda>i. i = EndOfFile \<or> [ascii ''exit''] \<in> set (typed_commands i) \<or> [ascii ''quit''] \<in> set (typed_commands i)) inputs
    | Stuck \<Rightarrow> round_trip_hangs (garden_env servers connect gunzip names)"
  using repl_loop_ok [OF _ garden_env_ok, of "\<lparr>cwd = Nothing, heap = h, calls = n\<rparr>" servers connect gunzip names inputs]
  by (simp add: session_ok_def state_ok_def)

text \<open>The lexer ends a quoted word at a quote after a backslash, where \<open>repr\<close> goes on: a piece with both kinds of quotes, as
  it is printed, is no line of the REPL.\<close>

lemma mixed_quotes_cannot_be_typed_in:
  "lex_line (ascii ''payload '' @ stream_text [[0x27, 0x22]]) = Inl ValueError"
proof -
  have "stream_text [[0x27, 0x22]] = [0x27, 0x5C, 0x27, 0x22, 0x27]"
    by code_simp
  moreover have "lex_line (ascii ''payload '' @ [0x27, 0x5C, 0x27, 0x22, 0x27]) = Inl ValueError"
    by code_simp
  ultimately show ?thesis by simp
qed

end
