(* ===== verification/ReplText.thy ===== *)
theory ReplText
  imports ReplLex
begin

text \<open>
  \<open>tools/repl.py\<close>, the text that is printed for grids, clusters, streams and fan-outs, as lists of code points. Colours
  are escape sequences, which take no column. The lemmas say that what is below a server's name in a
  printed grid is what the grid has for this server.
\<close>

section \<open>Text\<close>

type_synonym chars = "nat list"

definition chars :: "string \<Rightarrow> chars" where
  "chars s = map of_char s"

definition latin :: "bytes \<Rightarrow> chars" where
  "latin b = map unat b"

text \<open>\<open>"\x1b[...m"\<close>.\<close>

definition colour :: "string \<Rightarrow> chars" where
  "colour code = 0x1B # chars ''['' @ chars code @ chars ''m''"

definition ljust :: "nat \<Rightarrow> chars \<Rightarrow> chars" where
  "ljust n s = s @ replicate (n - length s) 0x20"

definition rjust :: "nat \<Rightarrow> chars \<Rightarrow> chars" where
  "rjust n s = replicate (n - length s) 0x20 @ s"

text \<open>White space among the Latin-1 characters, and \<open>str.strip\<close>.\<close>

definition white_char :: "nat \<Rightarrow> bool" where
  "white_char c \<longleftrightarrow> 0x09 \<le> c \<and> c \<le> 0x0D \<or> 0x1C \<le> c \<and> c \<le> 0x20 \<or> c = 0x85 \<or> c = 0xA0"

definition strip_blanks :: "chars \<Rightarrow> chars" where
  "strip_blanks s = rev (dropWhile white_char (rev (dropWhile white_char s)))"

fun chars_join :: "chars \<Rightarrow> chars list \<Rightarrow> chars" where
  "chars_join sep [] = []"
| "chars_join sep [x] = x"
| "chars_join sep (x # y # xs) = x @ sep @ chars_join sep (y # xs)"

section \<open>Grids\<close>

text \<open>The vertical labels, line by line: a blank column for the labels of the rows, and one column for each label.\<close>

definition vertical_labels :: "nat \<Rightarrow> chars list \<Rightarrow> chars list" where
  "vertical_labels w labels =
     (let columns = map (\<lambda>s. rjust (length s) (strip_blanks s)) (replicate w 0x20 # labels) in
      map (\<lambda>r. replicate (w - 1) 0x20 @ chars_join [0x20] (map (\<lambda>column. [column ! r]) columns)) [0..<w])"

fun grid_symbol :: "ErrorType option \<Rightarrow> chars" where
  "grid_symbol None = [0x20]"
| "grid_symbol (Some e) =
     (if e = OK \<or> e = RESPONSE_DISCREPANCY then colour ''0;32'' @ [0x2713] @ colour ''0''
      else if e = INVALID then colour ''37;41'' @ chars ''X'' @ colour ''0''
      else colour ''0;31'' @ chars ''X'' @ colour ''0'')"

definition grid_row :: "nat \<Rightarrow> chars \<Rightarrow> ErrorType option list \<Rightarrow> chars" where
  "grid_row w label row = ljust w label @ chars ''|'' @ concat (map (\<lambda>e. grid_symbol e @ [0x20]) row)"

definition grid_lines :: "ErrorType option list list \<Rightarrow> chars list \<Rightarrow> chars list" where
  "grid_lines grid labels =
     (let w = Max (set (map length labels));
          labels = map (ljust w) labels in
      vertical_labels w labels @
      [replicate w 0x20 @ chars ''+'' @ replicate (2 * length labels - 1) 0x2D] @
      map (\<lambda>(label, row). grid_row w label row) (zip labels grid))"

definition print_grid :: "ErrorType option list list \<Rightarrow> chars list \<Rightarrow> chars" where
  "print_grid grid labels = concat (map (\<lambda>l. l @ [0x0A]) (grid_lines grid labels))"

section \<open>Clusters, streams and fan-outs\<close>

definition print_clusters :: "server list list \<Rightarrow> chars list" where
  "print_clusters clusters =
     map (\<lambda>(i, cluster). chars_join [0x20] ((chars ''    '' @ latin (decimal i) @ chars ''.'') # map (\<lambda>s. chars (name s)) cluster))
       (enumerate 0 clusters)"

text \<open>\<open>repr\<close> of bytes.\<close>

definition bytes_text :: "bytes \<Rightarrow> chars" where
  "bytes_text b = chars ''b'' @ latin (bytes_repr b)"

definition print_request :: "http_request \<Rightarrow> chars list" where
  "print_request r =
     [chars ''    '' @ colour ''0;34'' @ chars ''HTTPRequest'' @ colour ''0'' @ chars ''('',
      chars ''        method='' @ bytes_text (req_method r) @ chars '', uri='' @ bytes_text (req_uri r) @
        chars '', version='' @ bytes_text (req_version r) @ chars '','' ] @
     (if length (req_headers r) = 0 then [chars ''        headers=[],'']
      else [chars ''        headers=[''] @
        map (\<lambda>(n, v). chars ''            ('' @ bytes_text n @ chars '', '' @ bytes_text v @ chars ''),'') (req_headers r) @
        [chars ''        ],'']) @
     [chars ''        body='' @ bytes_text (req_body r) @ chars '','', chars ''    ),'']"

definition print_response :: "http_response \<Rightarrow> chars list" where
  "print_response r =
     [chars ''    '' @ colour ''0;31'' @ chars ''HTTPResponse'' @ colour ''0'' @ chars ''(version='' @ bytes_text (res_version r) @
      chars '', method='' @ bytes_text (res_code r) @ chars '', reason='' @ bytes_text (res_reason r) @ chars ''),'']"

definition print_fanout :: "(word_token \<times> parsed_message list) list \<Rightarrow> chars list" where
  "print_fanout results =
     concat (map (\<lambda>(n, pts). [latin n @ chars '': [''] @
       concat (map (\<lambda>m. case m of ParsedRequest r \<Rightarrow> print_request r | ParsedResponse r \<Rightarrow> print_response r) pts) @
       [chars '']'']) results)"

definition print_unparsed_fanout :: "(string \<times> (bool \<times> bytes) list) list \<Rightarrow> chars list" where
  "print_unparsed_fanout results =
     concat (map (\<lambda>(n, pieces). (colour ''0;34'' @ chars n @ colour ''0'' @ chars '':'') #
       map (\<lambda>(is_response, r). (if is_response then colour ''0;31'' else []) @ bytes_text r @ colour ''0'') pieces) results)"

definition print_stream :: "bytes list \<Rightarrow> chars" where
  "print_stream stream = latin (stream_text stream)"

section \<open>Columns\<close>

text \<open>What is seen of a text: everything but the escape sequences.\<close>

function visible :: "chars \<Rightarrow> chars" where
  "visible [] = []"
| "visible (c # s) = (if c = 0x1B then visible (drop 1 (dropWhile (\<lambda>c. c \<noteq> 0x6D) s)) else c # visible s)"
  by pat_completeness auto
termination
proof (relation "measure length")
  fix c :: nat and s
  show "(drop 1 (dropWhile (\<lambda>c. c \<noteq> 0x6D) s), c # s) \<in> measure length"
    using length_dropWhile_le [of "\<lambda>c. c \<noteq> 0x6D" s] by simp
qed simp_all

lemma visible_plain: "0x1B \<notin> set t \<Longrightarrow> visible (t @ s) = t @ visible s"
  by (induction t) auto

lemma visible_colour: "0x6D \<notin> set (chars code) \<Longrightarrow> visible (colour code @ s) = visible s"
proof -
  assume "0x6D \<notin> set (chars code)"
  then have "dropWhile (\<lambda>c. c \<noteq> 0x6D) (chars ''['' @ chars code @ chars ''m'' @ s) = 0x6D # s"
    by (subst append_assoc [symmetric], subst dropWhile_append2) (auto simp: chars_def)
  then show ?thesis by (simp add: colour_def)
qed

fun grid_glyph :: "ErrorType option \<Rightarrow> nat" where
  "grid_glyph None = 0x20"
| "grid_glyph (Some e) = (if e = OK \<or> e = RESPONSE_DISCREPANCY then 0x2713 else 0x58)"

lemma visible_symbol: "visible (grid_symbol e @ s) = grid_glyph e # visible s"
proof -
  have codes: "0x6D \<notin> set (chars ''0;32'')" "0x6D \<notin> set (chars ''37;41'')" "0x6D \<notin> set (chars ''0;31'')" "0x6D \<notin> set (chars ''0'')"
    and x: "chars ''X'' = [0x58]"
    by code_simp+
  show ?thesis
    by (cases e) (simp_all add: visible_colour codes x)
qed

lemma visible_row:
  assumes "0x1B \<notin> set label"
  shows "visible (grid_row w label row) = ljust w label @ 0x7C # concat (map (\<lambda>e. [grid_glyph e, 0x20]) row)"
proof -
  have "visible (concat (map (\<lambda>e. grid_symbol e @ [0x20]) row)) = concat (map (\<lambda>e. [grid_glyph e, 0x20]) row)"
    by (induction row) (simp_all add: visible_symbol)
  moreover have "0x1B \<notin> set (ljust w label @ chars ''|'')" and "chars ''|'' = [0x7C]"
    using assms by (auto simp: ljust_def chars_def)
  ultimately show ?thesis
    using visible_plain [of "ljust w label @ chars ''|''"] by (simp add: grid_row_def)
qed

lemma nth_spaced: "j < length row \<Longrightarrow> concat (map (\<lambda>e. [f e, b]) row) ! (2 * j) = f (row ! j)"
  by (induction row arbitrary: j) (auto simp: nth_Cons split: nat.splits)

lemma nth_joined: "j < length xs \<Longrightarrow> chars_join [b] (map (\<lambda>x. [f x]) xs) ! (2 * j) = f (xs ! j)"
proof (induction xs arbitrary: j)
  case (Cons x xs)
  then show ?case
    by (cases xs; cases j) auto
qed simp

lemma strip_ljust: "list_all (\<lambda>c. \<not> white_char c) s \<Longrightarrow> strip_blanks (ljust w s) = s"
proof -
  assume s: "list_all (\<lambda>c. \<not> white_char c) s"
  have blanks: "dropWhile white_char (replicate n 0x20 @ t) = dropWhile white_char t" for n t
    by (induction n) (simp_all add: white_char_def)
  have drop: "dropWhile white_char t = t" if "list_all (\<lambda>c. \<not> white_char c) t" for t
    using that by (cases t) auto
  show ?thesis
  proof (cases s)
    case Nil
    then show ?thesis using blanks [of _ "[]"] by (simp add: strip_blanks_def ljust_def)
  next
    case (Cons c t)
    then have "dropWhile white_char (ljust w s) = ljust w s" using s by (simp add: ljust_def)
    moreover have "list_all (\<lambda>c. \<not> white_char c) (rev s)" using s by simp
    ultimately show ?thesis
      using drop [of "rev s"] blanks by (simp add: strip_blanks_def ljust_def)
  qed
qed

definition label_ok :: "chars \<Rightarrow> bool" where
  "label_ok s \<longleftrightarrow> list_all (\<lambda>c. \<not> white_char c \<and> c \<noteq> 0x1B) s"

definition label_width :: "chars list \<Rightarrow> nat" where
  "label_width labels = Max (set (map length labels))"

lemma label_width_le: "s \<in> set labels \<Longrightarrow> length s \<le> label_width labels"
  by (simp add: label_width_def)

lemma vertical_label_column:
  assumes "list_all label_ok labels" and "list_all (\<lambda>s. length s \<le> w) labels" and "j < length labels" and "r < w"
  shows "vertical_labels w (map (ljust w) labels) ! r ! (w + 1 + 2 * j) = rjust w (labels ! j) ! r"
proof -
  let ?col = "\<lambda>s. rjust (length s) (strip_blanks s)"
  let ?columns = "map ?col (replicate w 0x20 # map (ljust w) labels)"
  have line: "vertical_labels w (map (ljust w) labels) ! r =
      replicate (w - 1) 0x20 @ chars_join [0x20] (map (\<lambda>column. [column ! r]) ?columns)"
    using assms(4) by (simp add: vertical_labels_def)
  have "w + 1 + 2 * j = (w - 1) + 2 * Suc j" using assms(4) by simp
  moreover have "chars_join [0x20] (map (\<lambda>column. [column ! r]) ?columns) ! (2 * Suc j) = ?columns ! Suc j ! r"
    using assms(3) by (intro nth_joined) simp
  ultimately have "vertical_labels w (map (ljust w) labels) ! r ! (w + 1 + 2 * j) = ?columns ! Suc j ! r"
    unfolding line by (simp only: nth_append length_replicate) simp
  moreover have "length (ljust w (labels ! j)) = w"
    using assms(2,3) by (simp add: ljust_def list_all_length)
  moreover have "strip_blanks (ljust w (labels ! j)) = labels ! j"
    using assms(1,3) by (intro strip_ljust) (auto simp: label_ok_def list_all_length)
  ultimately show ?thesis using assms(3) by simp
qed

lemma grid_lines_parts:
  assumes "length grid = length labels"
  shows "r < label_width labels \<Longrightarrow> grid_lines grid labels ! r = vertical_labels (label_width labels) (map (ljust (label_width labels)) labels) ! r"
    and "i < length labels \<Longrightarrow> grid_lines grid labels ! (label_width labels + 1 + i) =
      grid_row (label_width labels) (ljust (label_width labels) (labels ! i)) (grid ! i)"
proof -
  let ?w = "label_width labels"
  have lines: "grid_lines grid labels = vertical_labels ?w (map (ljust ?w) labels) @
      [replicate ?w 0x20 @ chars ''+'' @ replicate (2 * length labels - 1) 0x2D] @
      map (\<lambda>(label, row). grid_row ?w label row) (zip (map (ljust ?w) labels) grid)"
    by (simp add: grid_lines_def label_width_def Let_def)
  have len: "length (vertical_labels ?w (map (ljust ?w) labels)) = ?w"
    by (simp add: vertical_labels_def)
  show "r < ?w \<Longrightarrow> grid_lines grid labels ! r = vertical_labels ?w (map (ljust ?w) labels) ! r"
    unfolding lines using len by (simp add: nth_append)
  show "i < length labels \<Longrightarrow> grid_lines grid labels ! (?w + 1 + i) = grid_row ?w (ljust ?w (labels ! i)) (grid ! i)"
    unfolding lines using len assms by (simp add: nth_append)
qed

section \<open>Properties\<close>

text \<open>C26: the columns of a printed grid. For labels without blanks, the first lines hold the labels from top to bottom, one in each
  column, blanks first, and the line of a server begins with its label. What is seen in the column of label \<open>j\<close> on the line
  of label \<open>i\<close> is the symbol of the grid's entry for the two: a blank, a tick or a cross.\<close>

theorem grid_columns_align:
  assumes "list_all label_ok labels" and "length grid = length labels" and "i < length labels" and "j < length labels"
    and "length (grid ! i) = length labels"
  shows "map (\<lambda>r. grid_lines grid labels ! r ! (label_width labels + 1 + 2 * j)) [0..<label_width labels] =
      rjust (label_width labels) (labels ! j) \<and>
    take (length (labels ! i)) (visible (grid_lines grid labels ! (label_width labels + 1 + i))) = labels ! i \<and>
    visible (grid_lines grid labels ! (label_width labels + 1 + i)) ! (label_width labels + 1 + 2 * j) = grid_glyph (grid ! i ! j)"
proof -
  let ?w = "label_width labels"
  have le: "list_all (\<lambda>s. length s \<le> ?w) labels" by (simp add: list_all_iff label_width_le)
  have "length (labels ! j) \<le> ?w" "length (labels ! i) \<le> ?w" using assms(3,4) label_width_le by simp_all
  then have len: "length (rjust ?w (labels ! j)) = ?w" "length (ljust ?w (labels ! i)) = ?w"
    by (simp_all add: rjust_def ljust_def)
  have "map (\<lambda>r. grid_lines grid labels ! r ! (?w + 1 + 2 * j)) [0..<?w] = rjust ?w (labels ! j)"
    using vertical_label_column [OF assms(1) le assms(4)] grid_lines_parts(1) [OF assms(2)] len
    by (intro nth_equalityI) simp_all
  moreover have "0x1B \<notin> set (ljust ?w (labels ! i))"
    using assms(1,3) by (auto simp: ljust_def label_ok_def list_all_length in_set_conv_nth)
  from visible_row [OF this, of ?w "grid ! i"]
  have "visible (grid_lines grid labels ! (?w + 1 + i)) =
      ljust ?w (labels ! i) @ 0x7C # concat (map (\<lambda>e. [grid_glyph e, 0x20]) (grid ! i))"
    using grid_lines_parts(2) [OF assms(2,3)] len by (simp add: ljust_def)
  moreover have "concat (map (\<lambda>e. [grid_glyph e, 0x20]) (grid ! i)) ! (2 * j) = grid_glyph (grid ! i ! j)"
    using assms(4,5) by (intro nth_spaced) simp
  ultimately show ?thesis
    using len by (auto simp: nth_append ljust_def)
qed

theorem grid_columns_align_witness:
  "map (\<lambda>r. grid_lines [[Some OK, Some DISCREPANCY], [None, Some INVALID]] [chars ''nginx'', chars ''h2o''] ! r ! 8) [0..<5] = chars ''  h2o'' \<and>
    take 5 (visible (grid_lines [[Some OK, Some DISCREPANCY], [None, Some INVALID]] [chars ''nginx'', chars ''h2o''] ! 6)) = chars ''nginx'' \<and>
    visible (grid_lines [[Some OK, Some DISCREPANCY], [None, Some INVALID]] [chars ''nginx'', chars ''h2o''] ! 6) ! 8 = 0x58"
proof -
  let ?labels = "[chars ''nginx'', chars ''h2o'']" and ?grid = "[[Some OK, Some DISCREPANCY], [None, Some INVALID]]"
  have "list_all label_ok ?labels \<and> label_width ?labels = 5 \<and> length (?labels ! 0) = 5 \<and> rjust 5 (?labels ! 1) = chars ''  h2o''"
    by code_simp
  with grid_columns_align [of ?labels ?grid 0 1] show ?thesis by simp
qed

end
