(* ===== verification/ServerImages.thy ===== *)
theory ServerImages
  imports Targets Decimal
begin

text \<open>
  \<open>images/*/server.py\<close>: the applications that seven of the Python servers run. Each gives back the request its
  server hands to it, as a JSON object with the parts in base64, every one in an order of its own. What the server hands over, the
  request, the WSGI environment or the ASGI scope and events, is an argument. Texts that the code encodes
  in Latin-1 are lists of bytes. The lemmas show that \<open>parse_response_json\<close> reads the report of each.
\<close>

section \<open>The parts of a report\<close>

definition b64 :: "bytes \<Rightarrow> bytes" where
  "b64 d = ascii_bytes (b64encode d)"

text \<open>\<open>b",".join(...)\<close> over the headers.\<close>

fun comma_join :: "bytes list \<Rightarrow> bytes" where
  "comma_join [] = []"
| "comma_join (x # xs) = x @ (if xs = [] then [] else ascii '','' @ comma_join xs)"

definition report_header :: "http_header \<Rightarrow> bytes" where
  "report_header h = (case h of (k, v) \<Rightarrow> ascii ''[\"'' @ b64 k @ ascii ''\",\"'' @ b64 v @ ascii ''\"]'')"

definition report_headers :: "http_header list \<Rightarrow> bytes" where
  "report_headers hs = comma_join (map report_header hs)"

section \<open>Twisted and Tornado\<close>

definition twisted_respond :: "http_header list \<Rightarrow> bytes \<Rightarrow> bytes \<Rightarrow> bytes \<Rightarrow> bytes \<Rightarrow> bytes" where
  "twisted_respond headers mthd uri clientproto content =
     ascii ''{\"headers\":['' @ report_headers headers @
     ascii ''],\"method\":\"'' @ b64 mthd @
     ascii ''\",\"uri\":\"'' @ b64 uri @
     ascii ''\",\"version\":\"'' @ b64 clientproto @
     ascii ''\",\"body\":\"'' @ b64 content @
     ascii ''\"}''"

definition tornado_handle :: "http_header list \<Rightarrow> bytes \<Rightarrow> bytes \<Rightarrow> bytes \<Rightarrow> bytes \<Rightarrow> bytes" where
  "tornado_handle headers mthd uri version content =
     (let mthd = b64 mthd; version = b64 version; uri = b64 uri; content = b64 content in
      ascii ''{\"headers\":['' @ report_headers headers @
      ascii ''],\"body\":\"'' @ content @
      ascii ''\",\"method\":\"'' @ mthd @
      ascii ''\",\"uri\":\"'' @ uri @
      ascii ''\",\"version\":\"'' @ version @
      ascii ''\"}'')"

section \<open>Hypercorn and Uvicorn\<close>

text \<open>The scope of an ASGI connection, and an event \<open>receive\<close> gives: each key may be missing.\<close>

record asgi_scope =
  scope_method :: bytes
  scope_http_version :: bytes
  scope_raw_path :: bytes
  scope_query_string :: bytes
  scope_headers :: "http_header list"

record asgi_event =
  event_body :: "bytes option"
  event_more_body :: "bool option"

definition scope_uri :: "asgi_scope \<Rightarrow> bytes" where
  "scope_uri scope =
     scope_raw_path scope @ (if scope_query_string scope \<noteq> [] then ascii ''?'' @ scope_query_string scope else [])"

text \<open>The loops that read the body. When the events are used up, \<open>receive\<close> is waited for: \<open>None\<close>.\<close>

fun hypercorn_body :: "bytes \<Rightarrow> asgi_event list \<Rightarrow> bytes option" where
  "hypercorn_body content [] = None"
| "hypercorn_body content (chunk_dict # events) =
     (case event_body chunk_dict of
        Some b \<Rightarrow> if b = [] then Some content else hypercorn_body (content @ b) events
      | None \<Rightarrow> Some content)"

fun read_body :: "bytes \<Rightarrow> asgi_event list \<Rightarrow> bytes option" where
  "read_body content [] = None"
| "read_body content (msg # events) =
     (let content = content @ (case event_body msg of None \<Rightarrow> [] | Some b \<Rightarrow> b);
          more_body = (case event_more_body msg of None \<Rightarrow> False | Some m \<Rightarrow> m) in
      if more_body then read_body content events else Some content)"

definition hypercorn_report :: "http_header list \<Rightarrow> bytes \<Rightarrow> bytes \<Rightarrow> bytes \<Rightarrow> bytes \<Rightarrow> bytes" where
  "hypercorn_report headers mthd uri version content =
     ascii ''{\"uri\":\"'' @ b64 uri @
     ascii ''\",\"headers\":['' @ report_headers headers @
     ascii ''],\"version\":\"'' @ b64 version @
     ascii ''\",\"body\":\"'' @ b64 content @ ascii ''\"'' @
     ascii '',\"method\":\"'' @ b64 mthd @
     ascii ''\"}''"

definition uvicorn_report :: "http_header list \<Rightarrow> bytes \<Rightarrow> bytes \<Rightarrow> bytes \<Rightarrow> bytes \<Rightarrow> bytes" where
  "uvicorn_report headers mthd uri version content =
     ascii ''{\"method\":\"'' @ b64 mthd @
     ascii ''\",\"version\":\"'' @ b64 version @
     ascii ''\",\"uri\":\"'' @ b64 uri @
     ascii ''\",\"body\":\"'' @ b64 content @
     ascii ''\",\"headers\":['' @ report_headers headers @
     ascii '']}''"

text \<open>A response as it is sent: the status, the headers and the body.\<close>

record app_response =
  app_status :: bytes
  app_headers :: "http_header list"
  app_body :: bytes

definition hypercorn_app :: "asgi_scope \<Rightarrow> asgi_event list \<Rightarrow> app_response option" where
  "hypercorn_app scope events =
     map_option (\<lambda>content.
       let response_body = hypercorn_report (scope_headers scope) (scope_method scope) (scope_uri scope)
         (scope_http_version scope) content in
       \<lparr>app_status = ascii ''200'', app_headers = [(ascii ''content-length'', decimal (length response_body))],
         app_body = response_body\<rparr>) (hypercorn_body [] events)"

definition uvicorn_app :: "asgi_scope \<Rightarrow> asgi_event list \<Rightarrow> app_response option" where
  "uvicorn_app scope events =
     map_option (\<lambda>content.
       \<lparr>app_status = ascii ''200'', app_headers = [(ascii ''content-type'', ascii ''application/json'')],
         app_body = uvicorn_report (scope_headers scope) (scope_method scope) (scope_uri scope)
           (scope_http_version scope) content\<rparr>) (read_body [] events)"

section \<open>Gunicorn and Waitress\<close>

text \<open>The texts of a WSGI environment, a dict.\<close>

type_synonym environ = "(bytes \<times> bytes) list"

definition RESERVED_HEADERS :: "bytes list" where
  "RESERVED_HEADERS = [ascii ''CONTENT_LENGTH'', ascii ''CONTENT_TYPE'']"

definition environ_headers :: "environ \<Rightarrow> http_header list" where
  "environ_headers environ =
     map (\<lambda>(k, v). (drop (if k \<notin> set RESERVED_HEADERS then length (ascii ''HTTP_'') else 0) k, v))
       (filter (\<lambda>(k, v). take (length (ascii ''HTTP_'')) k = ascii ''HTTP_'' \<or> k \<in> set RESERVED_HEADERS) environ)"

definition environ_get :: "environ \<Rightarrow> string \<Rightarrow> bytes result" where
  "environ_get environ k = (case map_of environ (ascii k) of None \<Rightarrow> Inl KeyError | Some v \<Rightarrow> Inr v)"

definition wsgi_report :: "http_header list \<Rightarrow> bytes \<Rightarrow> bytes \<Rightarrow> bytes \<Rightarrow> bytes \<Rightarrow> bytes" where
  "wsgi_report headers mthd uri version content =
     ascii ''{\"headers\":['' @ report_headers headers @
     ascii ''],\"body\":\"'' @ b64 content @
     ascii ''\",\"version\":\"'' @ b64 version @
     ascii ''\",\"uri\":\"'' @ b64 uri @
     ascii ''\",\"method\":\"'' @ b64 mthd @
     ascii ''\"}''"

definition waitress_app :: "environ \<Rightarrow> bytes \<Rightarrow> app_response result" where
  "waitress_app environ content =
     bindE (environ_get environ ''SERVER_PROTOCOL'') (\<lambda>server_protocol.
     bindE (environ_get environ ''PATH_INFO'') (\<lambda>path_info.
     bindE (environ_get environ ''QUERY_STRING'') (\<lambda>query_string.
     bindE (environ_get environ ''REQUEST_METHOD'') (\<lambda>request_method.
     let response_body = wsgi_report (environ_headers environ) request_method
       (path_info @ (if query_string \<noteq> [] then ascii ''?'' @ query_string else [])) server_protocol content in
     Inr \<lparr>app_status = ascii ''200 OK'',
       app_headers = [(ascii ''Content-type'', ascii ''application/json''),
         (ascii ''Content-Length'', decimal (length response_body))],
       app_body = response_body\<rparr>))))"

text \<open>Reading the body may raise \<open>InvalidChunkSize\<close> or \<open>ChunkMissingTerminator\<close>: \<open>None\<close>.\<close>

definition gunicorn_app :: "environ \<Rightarrow> bytes option \<Rightarrow> app_response result" where
  "gunicorn_app environ input =
     (case input of
        None \<Rightarrow> Inr \<lparr>app_status = ascii ''400 Bad Request'', app_headers = [], app_body = []\<rparr>
      | Some content \<Rightarrow> waitress_app environ content)"

section \<open>Aiohttp\<close>

text \<open>\<open>encode("utf8", "surrogateescape")\<close>; \<open>None\<close> for a \<open>UnicodeEncodeError\<close>.\<close>

definition utf8_escape_char :: "codepoint \<Rightarrow> bytes option" where
  "utf8_escape_char c =
     (if c < 0x80 then Some [ucast c]
      else if c < 0x800 then Some [ucast (0xC0 OR drop_bit 6 c), ucast (0x80 OR (c AND 0x3F))]
      else if 0xDC80 \<le> c \<and> c \<le> 0xDCFF then Some [ucast (c - 0xDC00)]
      else if 0xD800 \<le> c \<and> c \<le> 0xDFFF then None
      else if c < 0x10000 then
        Some [ucast (0xE0 OR drop_bit 12 c), ucast (0x80 OR (drop_bit 6 c AND 0x3F)), ucast (0x80 OR (c AND 0x3F))]
      else Some [ucast (0xF0 OR drop_bit 18 c), ucast (0x80 OR (drop_bit 12 c AND 0x3F)),
        ucast (0x80 OR (drop_bit 6 c AND 0x3F)), ucast (0x80 OR (c AND 0x3F))])"

fun utf8_escape :: "pystr \<Rightarrow> bytes option" where
  "utf8_escape [] = Some []"
| "utf8_escape (c # s) = Option.bind (utf8_escape_char c) (\<lambda>b. map_option (\<lambda>t. b @ t) (utf8_escape s))"

fun utf8_escape_headers :: "(pystr \<times> pystr) list \<Rightarrow> http_header list option" where
  "utf8_escape_headers [] = Some []"
| "utf8_escape_headers ((k, v) # hs) =
     Option.bind (utf8_escape k) (\<lambda>k. Option.bind (utf8_escape v) (\<lambda>v. map_option (\<lambda>t. (k, v) # t) (utf8_escape_headers hs)))"

record aiohttp_request =
  aio_headers :: "(pystr \<times> pystr) list"
  aio_method :: pystr
  aio_raw_path :: pystr
  aio_major :: nat
  aio_minor :: nat

definition aiohttp_report :: "http_header list \<Rightarrow> bytes \<Rightarrow> bytes \<Rightarrow> bytes \<Rightarrow> bytes \<Rightarrow> bytes" where
  "aiohttp_report headers mthd uri version content =
     ascii ''{\"headers\":['' @ report_headers headers @
     ascii ''],\"body\":\"'' @ b64 content @
     ascii ''\",\"method\":\"'' @ b64 mthd @
     ascii ''\",\"uri\":\"'' @ b64 uri @
     ascii ''\",\"version\":\"'' @ b64 version @
     ascii ''\"}''"

text \<open>Reading the body may raise \<open>RequestPayloadError\<close>: no body. The text of the answer is ASCII, so that
  encoding it gives the same bytes. The framework adds the headers.\<close>

definition aiohttp_respond :: "aiohttp_request \<Rightarrow> bytes option \<Rightarrow> app_response option" where
  "aiohttp_respond request input =
     (case input of
        None \<Rightarrow> Some \<lparr>app_status = ascii ''400 Bad message body.'', app_headers = [], app_body = []\<rparr>
      | Some content \<Rightarrow>
          Option.bind (utf8_escape_headers (aio_headers request)) (\<lambda>headers.
          Option.bind (utf8_escape (aio_method request)) (\<lambda>mthd.
          Option.bind (utf8_escape (aio_raw_path request)) (\<lambda>raw_path.
          Some \<lparr>app_status = ascii ''200 OK'', app_headers = [],
            app_body = aiohttp_report headers mthd raw_path
              (decimal (aio_major request) @ ascii ''.'' @ decimal (aio_minor request)) content\<rparr>))))"

section \<open>Reading a report\<close>

definition seen_request :: "http_header list \<Rightarrow> bytes \<Rightarrow> bytes \<Rightarrow> bytes \<Rightarrow> bytes \<Rightarrow> http_request" where
  "seen_request headers mthd uri version content =
     \<lparr>req_method = mthd, req_uri = uri, req_headers = map (\<lambda>(k, v). (lower k, v)) headers, req_body = content,
      req_version = strip_http version\<rparr>"

definition headers_json :: "http_header list \<Rightarrow> json" where
  "headers_json hs = JArray (map (\<lambda>(k, v). JArray [json_bytes k, json_bytes v]) hs)"

lemma ascii_bytes_append: "ascii_bytes (s @ t) = ascii_bytes s @ ascii_bytes t"
  by (simp add: ascii_bytes_def)

lemma ascii_bytes_Nil [simp]: "ascii_bytes [] = []"
  by (simp add: ascii_bytes_def)

lemma b64_text: "text_with [] (json_bytes d) = [0x22] @ b64encode d @ [0x22]"
  by (simp add: json_bytes_def quoted_def)

lemma report_headers_text: "report_headers hs = ascii_bytes (items_with [] (map (\<lambda>(k, v). JArray [json_bytes k, json_bytes v]) hs))"
proof -
  have lits: "ascii ''[\"'' = ascii_bytes [0x5B, 0x22]" "ascii ''\",\"'' = ascii_bytes [0x22, 0x2C, 0x22]"
    "ascii ''\"]'' = ascii_bytes [0x22, 0x5D]" "ascii '','' = ascii_bytes [0x2C]"
    by code_simp+
  have one: "report_header (k, v) = ascii_bytes (text_with [] (JArray [json_bytes k, json_bytes v]))" for k v
    unfolding report_header_def prod.case lits b64_def
    by (simp add: b64_text ascii_bytes_append [symmetric])
  show ?thesis
    unfolding report_headers_def
  proof (induction hs)
    case (Cons h hs)
    then show ?case
      using lits(4) by (cases h) (simp add: one ascii_bytes_append [symmetric])
  qed simp
qed

text \<open>An object whose members are the parts of a request, in whatever order, is read as the request.\<close>

lemma parse_report:
  assumes "report = ascii_bytes (text_with [] (JObject ((k, v) # ms)))"
    and "list_all (\<lambda>(k, v). list_all plain_char k \<and> (v = headers_json headers \<or> v \<in> range json_bytes)) ((k, v) # ms)" and "k \<noteq> []"
    and "json_get ((k, v) # ms) ''headers'' = Some (headers_json headers)"
    and "json_get ((k, v) # ms) ''uri'' = Some (json_bytes uri)"
    and "json_get ((k, v) # ms) ''body'' = Some (json_bytes content)"
    and "json_get ((k, v) # ms) ''method'' = Some (json_bytes mthd)"
    and "json_get ((k, v) # ms) ''version'' = Some (json_bytes version)"
  shows "parse_response_json report = Inr (seen_request headers mthd uri version content)"
proof -
  have "list_all plain_json (map (\<lambda>(k, v). JArray [json_bytes k, json_bytes v]) hs)" for hs
    by (induction hs) (auto simp: json_bytes_def b64encode_plain)
  then have "plain_json (headers_json headers)" "plain_json (json_bytes d)" for d
    by (simp_all add: headers_json_def plain_items_all json_bytes_def b64encode_plain)
  moreover have "plain_members ms' \<longleftrightarrow> list_all (\<lambda>(k, v). list_all plain_char k \<and> plain_json v) ms'" for ms'
    by (induction ms') auto
  ultimately have "plain_members ((k, v) # ms)"
    using assms(2) by (auto simp: list_all_iff)
  from json_loads_text [OF this assms(3), of "[]"]
  have "json_loads report = Inr (JObject ((k, v) # ms))"
    using assms(1) by simp
  then show ?thesis
    using assms(4-)
    by (simp add: parse_response_json_def request_of_json_def headers_json_def headers_of_json json_bytes_def
        headers_of_json [unfolded json_bytes_def] seen_request_def)
qed

lemma report_literals:
  "ascii ''{\"headers\":['' = ascii_bytes ([0x7B] @ quoted (py_chars ''headers'') @ [0x3A, 0x5B])"
  "ascii ''{\"uri\":\"'' = ascii_bytes ([0x7B] @ quoted (py_chars ''uri'') @ [0x3A, 0x22])"
  "ascii ''{\"method\":\"'' = ascii_bytes ([0x7B] @ quoted (py_chars ''method'') @ [0x3A, 0x22])"
  "ascii ''],\"method\":\"'' = ascii_bytes ([0x5D, 0x2C] @ quoted (py_chars ''method'') @ [0x3A, 0x22])"
  "ascii ''],\"body\":\"'' = ascii_bytes ([0x5D, 0x2C] @ quoted (py_chars ''body'') @ [0x3A, 0x22])"
  "ascii ''],\"version\":\"'' = ascii_bytes ([0x5D, 0x2C] @ quoted (py_chars ''version'') @ [0x3A, 0x22])"
  "ascii ''\",\"uri\":\"'' = ascii_bytes ([0x22, 0x2C] @ quoted (py_chars ''uri'') @ [0x3A, 0x22])"
  "ascii ''\",\"headers\":['' = ascii_bytes ([0x22, 0x2C] @ quoted (py_chars ''headers'') @ [0x3A, 0x5B])"
  "ascii ''\",\"version\":\"'' = ascii_bytes ([0x22, 0x2C] @ quoted (py_chars ''version'') @ [0x3A, 0x22])"
  "ascii ''\",\"body\":\"'' = ascii_bytes ([0x22, 0x2C] @ quoted (py_chars ''body'') @ [0x3A, 0x22])"
  "ascii ''\",\"method\":\"'' = ascii_bytes ([0x22, 0x2C] @ quoted (py_chars ''method'') @ [0x3A, 0x22])"
  "ascii '',\"method\":\"'' = ascii_bytes ([0x2C] @ quoted (py_chars ''method'') @ [0x3A, 0x22])"
  "ascii ''\"'' = ascii_bytes [0x22]" "ascii '']}'' = ascii_bytes [0x5D, 0x7D]" "ascii ''\"}'' = ascii_bytes [0x22, 0x7D]"
  by code_simp+

lemmas report_text_simps = report_literals report_headers_text b64_def b64_text headers_json_def quoted_def
  ascii_bytes_append [symmetric]

lemma report_keys: "py_chars ''headers'' \<noteq> []" "py_chars ''method'' \<noteq> []" "py_chars ''uri'' \<noteq> []"
  by (simp_all add: py_chars_def)

section \<open>What an origin makes of a report\<close>

text \<open>Headers that announce a body of \<open>n\<close> bytes, whatever else they say.\<close>

definition quiet_header :: "http_header \<Rightarrow> bool" where
  "quiet_header h \<longleftrightarrow> header_ok h \<and>
     lower (fst h) \<notin> {ascii ''content-length'', ascii ''transfer-encoding'', ascii ''content-encoding''}"

definition announces :: "http_header list \<Rightarrow> nat \<Rightarrow> bool" where
  "announces hs n \<longleftrightarrow> list_all header_ok hs \<and> body_headers hs None [] [] = Inr (Some n, [], [])"

lemma body_headers_quiet:
  "list_all quiet_header p \<Longrightarrow> body_headers (p @ hs) cl te ce = body_headers hs cl te ce"
  by (induction p) (auto simp: quiet_header_def)

lemma announces_length:
  assumes "list_all quiet_header p" and "list_all quiet_header q" and "lower k = ascii ''content-length''"
    and "header_ok (k, decimal n)" and "int n \<le> sys_maxsize"
  shows "announces (p @ (k, decimal n) # q) n"
proof -
  have "ascii ''content-length'' \<noteq> ascii ''transfer-encoding''" "ascii ''content-length'' \<noteq> ascii ''content-encoding''"
    by code_simp+
  then have "body_headers (p @ (k, decimal n) # q) None [] [] = Inr (Some n, [], [])"
    using assms body_headers_quiet [of q "[]"]
    by (simp add: body_headers_quiet all_digits_decimal int_of_digits_decimal)
  moreover have "list_all header_ok (p @ (k, decimal n) # q)"
    using assms(1,2,4) by (auto simp: list_all_iff quiet_header_def)
  ultimately show ?thesis by (simp add: announces_def)
qed

text \<open>The answer a server makes of it.\<close>

definition ok_answer :: "http_header list \<Rightarrow> bytes \<Rightarrow> http_response" where
  "ok_answer hs b = \<lparr>res_version = ascii ''1.1'', res_code = ascii ''200'', res_reason = ascii ''OK'', res_headers = hs,
     res_body = b\<rparr>"

lemma ok_answer_read:
  assumes "announces hs (length b)" and "parse_response_json b = Inr q"
    and "exchange s connection data = Inr pieces" and "concat pieces = render_response (ok_answer hs b) @ b"
  shows "origin_parsed_roundtrip gunzip s connection data = Inr [ParsedRequest q]"
proof -
  have "token (ascii ''HTTP/1.1'') \<and> list_all is_digit (ascii ''200'') \<and> LF \<notin> set (ascii ''OK'') \<and>
      \<not> is_space_not_newline (hd (ascii ''OK'')) \<and> ascii ''200'' \<noteq> []"
    by code_simp
  moreover have "ascii ''HTTP/'' @ ascii ''1.1'' = ascii ''HTTP/1.1''" by (simp add: ascii_def)
  ultimately have "delimited (ok_answer hs b) (Sized b)"
    using assms(1) by (simp add: delimited_def response_ok_def ok_answer_def announces_def framed_def)
  from parse_reply [OF this, of gunzip "[]"]
  have "parse_response gunzip (concat pieces) = Inr (ok_answer hs b, [])"
    using assms(4) by (simp add: render_reply_def)
  moreover have "res_code (ok_answer hs b) = ascii ''200''" "res_body (ok_answer hs b) = b"
    by (simp_all add: ok_answer_def)
  ultimately have "h1_attempt gunzip (concat pieces) = Inr (Some (ParsedRequest q, []))"
    using assms(2) by (simp add: h1_attempt_def)
  moreover have "concat pieces \<noteq> []"
    using assms(4) by (simp add: render_response_def)
  ultimately show ?thesis
    using assms(3) by (simp add: origin_parsed_roundtrip_def origin_loop.simps origin_turn_def)
qed

section \<open>The contract of a report\<close>

text \<open>A format is a way of writing the parts of a request that \<open>parse_response_json\<close> reads. What follows for the
  way through a server and an origin is proved once, for every format.\<close>

locale report_format =
  fixes report :: "http_header list \<Rightarrow> bytes \<Rightarrow> bytes \<Rightarrow> bytes \<Rightarrow> bytes \<Rightarrow> bytes"
  assumes report_parses: "parse_response_json (report hs m u v b) = Inr (seen_request hs m u v b)"
begin

lemma report_determines:
  "report hs m u v b = report hs' m' u' v' b' \<Longrightarrow> seen_request hs m u v b = seen_request hs' m' u' v' b'"
  using report_parses by (metis sum.inject(2))

lemma comes_back:
  assumes "announces added (length (report hs m u v b))"
    and "exchange s connection data = Inr pieces"
    and "concat pieces = render_response (ok_answer added (report hs m u v b)) @ report hs m u v b"
  shows "origin_parsed_roundtrip gunzip s connection data = Inr [ParsedRequest (seen_request hs m u v b)]"
  using ok_answer_read [OF assms(1) report_parses assms(2,3)] .

end

lemma twisted_report:
  "twisted_respond hs m u v b = ascii_bytes (text_with [] (JObject
     [(py_chars ''headers'', headers_json hs), (py_chars ''method'', json_bytes m), (py_chars ''uri'', json_bytes u),
      (py_chars ''version'', json_bytes v), (py_chars ''body'', json_bytes b)]))"
  by (simp add: twisted_respond_def report_text_simps)

lemma tornado_report:
  "tornado_handle hs m u v b = ascii_bytes (text_with [] (JObject
     [(py_chars ''headers'', headers_json hs), (py_chars ''body'', json_bytes b), (py_chars ''method'', json_bytes m),
      (py_chars ''uri'', json_bytes u), (py_chars ''version'', json_bytes v)]))"
  by (simp add: tornado_handle_def Let_def report_text_simps)

lemma aiohttp_is_tornado: "aiohttp_report = tornado_handle"
  by (intro ext) (simp add: aiohttp_report_def tornado_handle_def Let_def)

lemma wsgi_report_text:
  "wsgi_report hs m u v b = ascii_bytes (text_with [] (JObject
     [(py_chars ''headers'', headers_json hs), (py_chars ''body'', json_bytes b), (py_chars ''version'', json_bytes v),
      (py_chars ''uri'', json_bytes u), (py_chars ''method'', json_bytes m)]))"
  by (simp add: wsgi_report_def report_text_simps)

lemma hypercorn_report_text:
  "hypercorn_report hs m u v b = ascii_bytes (text_with [] (JObject
     [(py_chars ''uri'', json_bytes u), (py_chars ''headers'', headers_json hs), (py_chars ''version'', json_bytes v),
      (py_chars ''body'', json_bytes b), (py_chars ''method'', json_bytes m)]))"
  by (simp add: hypercorn_report_def report_text_simps)

lemma uvicorn_report_text:
  "uvicorn_report hs m u v b = ascii_bytes (text_with [] (JObject
     [(py_chars ''method'', json_bytes m), (py_chars ''version'', json_bytes v), (py_chars ''uri'', json_bytes u),
      (py_chars ''body'', json_bytes b), (py_chars ''headers'', headers_json hs)]))"
  by (simp add: uvicorn_report_def report_text_simps)

lemmas report_parse_simps = keys_plain report_keys json_get_def

interpretation twisted: report_format twisted_respond
  by unfold_locales (rule parse_report [OF twisted_report]; simp add: report_parse_simps)

interpretation tornado: report_format tornado_handle
  by unfold_locales (rule parse_report [OF tornado_report]; simp add: report_parse_simps)

interpretation aiohttp: report_format aiohttp_report
  unfolding aiohttp_is_tornado by (rule tornado.report_format_axioms)

interpretation wsgi: report_format wsgi_report
  by unfold_locales (rule parse_report [OF wsgi_report_text]; simp add: report_parse_simps)

interpretation hypercorn: report_format hypercorn_report
  by unfold_locales (rule parse_report [OF hypercorn_report_text]; simp add: report_parse_simps)

interpretation uvicorn: report_format uvicorn_report
  by unfold_locales (rule parse_report [OF uvicorn_report_text]; simp add: report_parse_simps)

section \<open>The loops that read a body\<close>

text \<open>A body in parts, as ASGI has it: all but the last one say that there is more.\<close>

definition body_part :: "bytes \<Rightarrow> bool \<Rightarrow> asgi_event" where
  "body_part b m = \<lparr>event_body = Some b, event_more_body = Some m\<rparr>"

lemma read_body_parts:
  "read_body content (map (\<lambda>b. body_part b True) bs @ body_part b False # rest) = Some (content @ concat bs @ b)"
  by (induction bs arbitrary: content) (simp_all add: body_part_def)

lemma hypercorn_body_parts:
  "hypercorn_body content (map (\<lambda>b. body_part b True) bs @ [body_part b False]) =
     (if [] \<in> set bs then Some (content @ concat (takeWhile (\<lambda>b. b \<noteq> []) bs))
      else if b = [] then Some (content @ concat bs) else None)"
  by (induction bs arbitrary: content) (auto simp: body_part_def)

section \<open>Properties\<close>


lemma waitress_app_Inr:
  "waitress_app environ content = Inr r \<longleftrightarrow>
     (\<exists>proto path query mthd. environ_get environ ''SERVER_PROTOCOL'' = Inr proto \<and> environ_get environ ''PATH_INFO'' = Inr path \<and>
        environ_get environ ''QUERY_STRING'' = Inr query \<and> environ_get environ ''REQUEST_METHOD'' = Inr mthd \<and>
        (let b = wsgi_report (environ_headers environ) mthd (path @ (if query \<noteq> [] then ascii ''?'' @ query else [])) proto content in
         r = \<lparr>app_status = ascii ''200 OK'', app_headers = [(ascii ''Content-type'', ascii ''application/json''),
           (ascii ''Content-Length'', decimal (length b))], app_body = b\<rparr>))"
  by (auto simp: waitress_app_def bindE_eq_Inr Let_def)

lemma waitress_app_Inl:
  "waitress_app environ content = Inl e \<Longrightarrow> e = KeyError \<and>
     list_ex (\<lambda>k. map_of environ (ascii k) = None) [''SERVER_PROTOCOL'', ''PATH_INFO'', ''QUERY_STRING'', ''REQUEST_METHOD'']"
proof -
  have "environ_get environ k = Inl e \<longleftrightarrow> e = KeyError \<and> map_of environ (ascii k) = None" for k e
    by (auto simp: environ_get_def split: option.splits)
  then show "waitress_app environ content = Inl e \<Longrightarrow> ?thesis"
    by (auto simp: waitress_app_def bindE_eq_Inl Let_def)
qed

text \<open>The WSGI applications. Gunicorn's is Waitress's, apart from bodies that cannot be read. A \<open>KeyError\<close> comes
  out exactly when one of four keys is not in the environment; then nothing has been answered. Otherwise the
  answer is a report of the method, the path with the query if there is one, the protocol and the body, and of the variables
  that stand for headers, without their prefix.\<close>

theorem wsgi_apps_report_the_environment:
  "gunicorn_app environ (Some content) = waitress_app environ content \<and>
   (case waitress_app environ content of
      Inl e \<Rightarrow> e = KeyError \<and> list_ex (\<lambda>k. map_of environ (ascii k) = None)
        [''SERVER_PROTOCOL'', ''PATH_INFO'', ''QUERY_STRING'', ''REQUEST_METHOD'']
    | Inr r \<Rightarrow> \<exists>proto path query mthd.
        map_of environ (ascii ''SERVER_PROTOCOL'') = Some proto \<and> map_of environ (ascii ''PATH_INFO'') = Some path \<and>
        map_of environ (ascii ''QUERY_STRING'') = Some query \<and> map_of environ (ascii ''REQUEST_METHOD'') = Some mthd \<and>
        app_status r = ascii ''200 OK'' \<and>
        parse_response_json (app_body r) = Inr (seen_request (environ_headers environ) mthd
          (path @ (if query \<noteq> [] then ascii ''?'' @ query else [])) proto content))"
proof (cases "waitress_app environ content")
  case (Inl e)
  with waitress_app_Inl [OF Inl] show ?thesis
    by (simp add: gunicorn_app_def)
next
  case (Inr r)
  have get: "environ_get environ k = Inr x \<longleftrightarrow> map_of environ (ascii k) = Some x" for k x
    by (auto simp: environ_get_def split: option.splits)
  from Inr [unfolded waitress_app_Inr get Let_def] Inr show ?thesis
    by (auto simp: gunicorn_app_def wsgi.report_parses)
qed

lemma content_length_names:
  "lower (ascii ''Content-Length'') = ascii ''content-length''" "lower (ascii ''content-length'') = ascii ''content-length''"
  "quiet_header (ascii ''Content-type'', ascii ''application/json'')"
  "list_all header_name_byte (ascii ''Content-Length'')" "list_all header_name_byte (ascii ''content-length'')"
  "ascii ''Content-Length'' \<noteq> []" "ascii ''content-length'' \<noteq> []"
  by code_simp+

text \<open>A request comes back through an image. When a server sends what Gunicorn's, Waitress's or Hypercorn's application
  answers, after headers of its own that say nothing about the body, then \<open>Origin.parsed_roundtrip\<close> returns exactly the
  request in the report, as a single message: the length the application announces is the length of its body.\<close>

theorem app_answers_come_back:
  assumes "waitress_app environ content = Inr r \<or> hypercorn_app scope events = Some r"
    and "list_all quiet_header added" and "int (length (app_body r)) \<le> sys_maxsize"
    and "exchange s connection data = Inr pieces"
    and "concat pieces = render_response (ok_answer (added @ app_headers r) (app_body r)) @ app_body r"
  shows "\<exists>q. parse_response_json (app_body r) = Inr q \<and>
    origin_parsed_roundtrip gunzip s connection data = Inr [ParsedRequest q]"
proof -
  have length_ok: "header_ok (k, decimal n)" if "k = ascii ''Content-Length'' \<or> k = ascii ''content-length''" for k n
    using that digits_header [OF all_digits_decimal, of n] content_length_names by (auto simp: header_ok_def)
  have "announces (added @ app_headers r) (length (app_body r)) \<and> (\<exists>q. parse_response_json (app_body r) = Inr q)"
    using assms(1)
  proof
    assume "waitress_app environ content = Inr r"
    then obtain hs m u v where r: "app_body r = wsgi_report hs m u v content"
      "app_headers r = [(ascii ''Content-type'', ascii ''application/json'')] @
         (ascii ''Content-Length'', decimal (length (app_body r))) # []"
      by (auto simp: waitress_app_Inr Let_def)
    have "announces ((added @ [(ascii ''Content-type'', ascii ''application/json'')]) @
        (ascii ''Content-Length'', decimal (length (app_body r))) # []) (length (app_body r))"
      by (rule announces_length) (use assms(2,3) content_length_names length_ok in simp_all)
    with r wsgi.report_parses show ?thesis by simp
  next
    assume "hypercorn_app scope events = Some r"
    then obtain hs m u v b where r: "app_body r = hypercorn_report hs m u v b"
      "app_headers r = (ascii ''content-length'', decimal (length (app_body r))) # []"
      by (auto simp: hypercorn_app_def Let_def)
    have "announces (added @ (ascii ''content-length'', decimal (length (app_body r))) # []) (length (app_body r))"
      by (rule announces_length) (use assms(2,3) content_length_names length_ok in simp_all)
    with r hypercorn.report_parses show ?thesis by simp
  qed
  with ok_answer_read [OF _ _ assms(4,5)] show ?thesis by blast
qed

definition example_environ :: environ where
  "example_environ = [(ascii ''SERVER_PROTOCOL'', ascii ''HTTP/1.1''), (ascii ''REQUEST_METHOD'', ascii ''GET''),
     (ascii ''HTTP_HOST'', ascii ''a''), (ascii ''PATH_INFO'', ascii ''/''), (ascii ''QUERY_STRING'', ascii ''q'')]"

definition example_answer :: app_response where
  "example_answer = (case waitress_app example_environ (ascii ''hi'') of
     Inr r \<Rightarrow> r | Inl e \<Rightarrow> \<lparr>app_status = [], app_headers = [], app_body = []\<rparr>)"

theorem app_answers_come_back_witness:
  "\<exists>q. origin_parsed_roundtrip (\<lambda>_. Inl OSError) plain_server
     (Inr \<lparr>outgoing = [], incoming = [Received
        (render_response (ok_answer (app_headers example_answer) (app_body example_answer)) @ app_body example_answer)]\<rparr>)
     [ascii ''x''] = Inr [ParsedRequest q]"
proof -
  have "int (length (app_body example_answer)) < 1000"
    by code_simp
  then have "int (length (app_body example_answer)) \<le> sys_maxsize"
    by (simp add: sys_maxsize_def)
  moreover have "is_ok (waitress_app example_environ (ascii ''hi''))"
    by code_simp
  then have "waitress_app example_environ (ascii ''hi'') = Inr example_answer"
    by (auto simp: example_answer_def split: sum.splits)
  ultimately show ?thesis
    using app_answers_come_back [of example_environ "ascii ''hi''" example_answer undefined "[]" "[]" plain_server
      "Inr \<lparr>outgoing = [], incoming = [Received
        (render_response (ok_answer (app_headers example_answer) (app_body example_answer)) @ app_body example_answer)]\<rparr>"
      "[ascii ''x'']" "[render_response (ok_answer (app_headers example_answer) (app_body example_answer)) @ app_body example_answer]"
      "\<lambda>_. Inl OSError"]
    by (auto simp: exchange_def plain_server_def sendall_def recvall_def render_response_def)
qed

text \<open>The two loops that read a body in parts. Uvicorn's gives the whole body, and looks at nothing after the last part.
  Hypercorn's does not look at \<open>more_body\<close>: it stops at the first empty part, so that what follows is lost, and
  waits for ever after a last part that is not empty.\<close>

theorem asgi_body_loops:
  "read_body [] (map (\<lambda>b. body_part b True) bs @ body_part b False # rest) = Some (concat bs @ b) \<and>
   hypercorn_body [] (map (\<lambda>b. body_part b True) bs @ [body_part b False]) =
     (if [] \<in> set bs then Some (concat (takeWhile (\<lambda>b. b \<noteq> []) bs))
      else if b = [] then Some (concat bs) else None)"
  using read_body_parts [of "[]" bs b rest] hypercorn_body_parts [of "[]" bs b] by simp

end
