(* ===== verification/Garden.thy ===== *)
theory Garden
  imports ServerImages ReplMain
begin

text \<open>
  The whole way from the prompt to a grid: \<open>repl.py\<close>, \<open>fanout.py\<close>, \<open>targets.py\<close>, \<open>http1.py\<close>, \<open>diff.py\<close> and
  \<open>grid.py\<close> with the applications of \<open>images/\<close> at the other end.
\<close>

section \<open>The images\<close>

text \<open>The formats of the reports; Gunicorn's and Waitress's are the same.\<close>

datatype image = Twisted | Tornado | Aiohttp | Wsgi | Hypercorn | Uvicorn

instantiation image :: enum
begin

definition enum_image :: "image list" where
  "enum_image = [Twisted, Tornado, Aiohttp, Wsgi, Hypercorn, Uvicorn]"

definition enum_all_image :: "(image \<Rightarrow> bool) \<Rightarrow> bool" where
  "enum_all_image P \<longleftrightarrow> list_all P [Twisted, Tornado, Aiohttp, Wsgi, Hypercorn, Uvicorn]"

definition enum_ex_image :: "(image \<Rightarrow> bool) \<Rightarrow> bool" where
  "enum_ex_image P \<longleftrightarrow> list_ex P [Twisted, Tornado, Aiohttp, Wsgi, Hypercorn, Uvicorn]"

lemma all_images: "x \<in> {Twisted, Tornado, Aiohttp, Wsgi, Hypercorn, Uvicorn}"
  by (cases x) simp_all

instance
proof
  show "(UNIV :: image set) = set enum_class.enum"
    unfolding enum_image_def set_simps using all_images by blast
  show "distinct (enum_class.enum :: image list)"
    by (simp add: enum_image_def)
  show "enum_class.enum_all P \<longleftrightarrow> Ball UNIV P" for P :: "image \<Rightarrow> bool"
    unfolding enum_all_image_def list_all_iff set_simps using all_images by blast
  show "enum_class.enum_ex P \<longleftrightarrow> Bex UNIV P" for P :: "image \<Rightarrow> bool"
    unfolding enum_ex_image_def list_ex_iff set_simps using all_images by blast
qed

end

fun report_of :: "image \<Rightarrow> http_header list \<Rightarrow> bytes \<Rightarrow> bytes \<Rightarrow> bytes \<Rightarrow> bytes \<Rightarrow> bytes" where
  "report_of Twisted = twisted_respond"
| "report_of Tornado = tornado_handle"
| "report_of Aiohttp = aiohttp_report"
| "report_of Wsgi = wsgi_report"
| "report_of Hypercorn = hypercorn_report"
| "report_of Uvicorn = uvicorn_report"

interpretation any_image: report_format "report_of i" for i
proof (cases i)
qed (simp_all add: twisted.report_format_axioms tornado.report_format_axioms aiohttp.report_format_axioms
    wsgi.report_format_axioms hypercorn.report_format_axioms uvicorn.report_format_axioms)

text \<open>What a server was handed: headers, method, URI, version and body.\<close>

type_synonym handed = "http_header list \<times> bytes \<times> bytes \<times> bytes \<times> bytes"

definition report_on :: "image \<Rightarrow> handed \<Rightarrow> bytes" where
  "report_on i x = (case x of (hs, m, u, v, b) \<Rightarrow> report_of i hs m u v b)"

definition seen :: "handed \<Rightarrow> http_request" where
  "seen x = (case x of (hs, m, u, v, b) \<Rightarrow> seen_request hs m u v b)"

text \<open>A server that runs an image: what comes back over its connection is the report, in an answer with headers that
  announce its length.\<close>

definition runs_image :: "(server \<Rightarrow> sock result) \<Rightarrow> bytes list \<Rightarrow> handed \<Rightarrow> server \<times> image \<times> http_header list \<Rightarrow> bool" where
  "runs_image connect data x running =
     (case running of (s, i, added) \<Rightarrow>
       role s = Origin \<and> announces added (length (report_on i x)) \<and>
       (case exchange s (connect s) data of
          Inl e \<Rightarrow> False
        | Inr pieces \<Rightarrow> concat pieces = render_response (ok_answer added (report_on i x)) @ report_on i x))"

lemma runs_image_parsed:
  assumes "runs_image connect data x (s, i, added)"
  shows "parsed_roundtrip gunzip s (connect s) data = Some (Inr [ParsedRequest (seen x)])"
proof -
  obtain hs m u v b where x: "x = (hs, m, u, v, b)" by (metis prod.collapse)
  from assms obtain pieces where "exchange s (connect s) data = Inr pieces"
    and "concat pieces = render_response (ok_answer added (report_on i x)) @ report_on i x"
    and "role s = Origin" and "announces added (length (report_on i x))"
    unfolding runs_image_def by (cases "exchange s (connect s) data") auto
  with any_image.comes_back [of added i hs m u v b s "connect s" data pieces gunzip] x show ?thesis
    by (simp add: parsed_roundtrip_def report_on_def seen_def)
qed

lemma images_fanout:
  assumes "list_all (runs_image connect data x) running"
  shows "fanout gunzip connect data (map fst running) = Some (Inr (map (\<lambda>_. [ParsedRequest (seen x)]) running))"
proof -
  have each: "parsed_roundtrip gunzip (fst r) (connect (fst r)) data = Some (Inr [ParsedRequest (seen x)])"
    if "r \<in> set running" for r
    using assms that runs_image_parsed [of connect data x "fst r" "fst (snd r)" "snd (snd r)" gunzip]
    unfolding list_all_iff by simp
  then have "mapE (\<lambda>s. the (parsed_roundtrip gunzip s (connect s) data)) (map fst running) =
      Inr (map (\<lambda>_. [ParsedRequest (seen x)]) running)"
    by (induction running) simp_all
  with each show ?thesis
    by (simp add: fanout_def pmap_option_def eager_pmap_def list_ex_iff)
qed

section \<open>From the prompt to a green grid\<close>

definition all_ok :: "nat \<Rightarrow> ErrorType option list list" where
  "all_ok n = map (\<lambda>i. map (\<lambda>j. if j < i then None else Some OK) [0..<n]) [0..<n]"


definition example_handed :: handed where
  "example_handed = ([(ascii ''Host'', ascii ''a'')], ascii ''GET'', ascii ''/'', ascii ''HTTP/1.1'', ascii ''hi'')"

definition example_image :: "server \<Rightarrow> image" where
  "example_image s = (if allows_http_2 s then Twisted else Hypercorn)"

definition example_added :: "server \<Rightarrow> http_header list" where
  "example_added s = [(ascii ''Content-Length'', decimal (length (report_on (example_image s) example_handed)))]"

definition two_images :: repl_env where
  "two_images = example_env\<lparr>env_connect := (\<lambda>n s. Inr \<lparr>outgoing = [], incoming = [Received
     (render_response (ok_answer (example_added s) (report_on (example_image s) example_handed)) @
      report_on (example_image s) example_handed)]\<rparr>)\<rparr>"


end
