(* ===== verification/ProbeQuirks.thy ===== *)
theory ProbeQuirks
  imports Fanout Http2Typed HpackState PyState
begin

text \<open>
  \<open>tools/probe_quirks.py\<close>: each probe asks a server something and concludes from the answer whether it has a
  quirk. A server under test is a record: its configuration and what its round trips give, the \<open>n\<close>-th one on
  the bytes sent. The state of a probe is the number of round trips made, so that a server need not answer the same way twice.
  The lemmas say what each probe concludes from which answers, and which exceptions it can raise.
\<close>

section \<open>Servers under test\<close>

record probed =
  config :: server
  parsed :: "nat \<Rightarrow> bytes list \<Rightarrow> parsed_message list result"
  unparsed :: "nat \<Rightarrow> bytes list \<Rightarrow> bytes list result"

type_synonym 'a probe = "(nat, 'a) action"

definition ask :: "probed \<Rightarrow> bytes list \<Rightarrow> parsed_message list probe" where
  "ask server data n = (parsed server n data, Suc n)"

definition ask_raw :: "probed \<Rightarrow> bytes list \<Rightarrow> bytes list probe" where
  "ask_raw server data n = (unparsed server n data, Suc n)"

text \<open>An origin, reached by the connections \<open>connect\<close>.\<close>

definition probed_origin :: "(bytes \<Rightarrow> bytes result) \<Rightarrow> server \<Rightarrow> (nat \<Rightarrow> sock result) \<Rightarrow> probed" where
  "probed_origin gunzip s connect = \<lparr>config = s, parsed = (\<lambda>n data. origin_parsed_roundtrip gunzip s (connect n) data),
     unparsed = (\<lambda>n data. exchange s (connect n) data)\<rparr>"

fun is_parsed_request :: "parsed_message \<Rightarrow> bool" where
  "is_parsed_request (ParsedRequest r) = True"
| "is_parsed_request (ParsedResponse r) = False"

text \<open>\<open>pts[0]\<close>, and the same with \<open>assert isinstance(pts[0], HTTPRequest)\<close> in front.\<close>

definition first_of :: "parsed_message list \<Rightarrow> parsed_message result" where
  "first_of pts = (case pts of [] \<Rightarrow> Inl IndexError | m # _ \<Rightarrow> Inr m)"

definition first_request :: "parsed_message list \<Rightarrow> http_request result" where
  "first_request pts =
     bindE (first_of pts) (\<lambda>m. case m of ParsedRequest r \<Rightarrow> Inr r | ParsedResponse _ \<Rightarrow> Inl AssertionError)"

definition liftS :: "'a result \<Rightarrow> ('s, 'a) action" where
  "liftS r s = (r, s)"

definition raise_when :: "bool \<Rightarrow> exn \<Rightarrow> ('s, unit) action" where
  "raise_when b e s = (if b then Inl e else Inr (), s)"

text \<open>The bytes of a request, line by line.\<close>

definition crlf :: "string list \<Rightarrow> bytes" where
  "crlf ls = concat (map (\<lambda>l. ascii l @ [CR, LF]) ls)"

section \<open>Probes that look for one request\<close>

definition one_request :: "parsed_message list \<Rightarrow> bool" where
  "one_request pts \<longleftrightarrow> length pts = 1 \<and> is_parsed_request (hd pts)"

definition requires_specific_host_header_probe :: "probed \<Rightarrow> bool probe" where
  "requires_specific_host_header_probe server =
     bindS (ask server [crlf [''GET / HTTP/1.1'', ''Host: a'', '''']]) (\<lambda>pts.
     returnS (length pts \<noteq> 1 \<or> \<not> is_parsed_request (hd pts)))"

definition fails_sanity_check :: "probed \<Rightarrow> bool probe" where
  "fails_sanity_check server =
     bindS (ask server [crlf [''GET / HTTP/1.1'', ''Host: whatever'', '''']]) (\<lambda>pts.
     returnS (length pts \<noteq> 1 \<or> \<not> is_parsed_request (hd pts)))"

definition doesnt_support_persistence_probe :: "probed \<Rightarrow> bool probe" where
  "doesnt_support_persistence_probe server =
     bindS (ask server [crlf [''GET / HTTP/1.1'', ''Host: a'', ''''], crlf [''GET / HTTP/1.1'', ''Host: a'', '''']]) (\<lambda>pts.
     returnS (length pts \<noteq> 2 \<or> list_ex (\<lambda>pt. \<not> is_parsed_request pt) pts))"

section \<open>Methods\<close>

definition tchar_symbols :: bytes where
  "tchar_symbols = ascii ''!#$%&'' @ [0x27] @ ascii ''*+-.^_`|~''"

fun blacklist_loop :: "probed \<Rightarrow> bytes \<Rightarrow> bytes probe" where
  "blacklist_loop server [] = returnS []"
| "blacklist_loop server (b # bs) =
     bindS (ask server [ascii ''GET'' @ [b] @ crlf ['' / HTTP/1.1'', ''Host: a'', '''']]) (\<lambda>pts.
     if pts = [] then blacklist_loop server bs
     else bindS (raise_when (length pts \<noteq> 1) ValueError) (\<lambda>_.
     bindS (blacklist_loop server bs) (\<lambda>result.
     returnS (if \<not> is_parsed_request (hd pts) then b # result else result))))"

definition get_method_character_blacklist :: "probed \<Rightarrow> bytes probe" where
  "get_method_character_blacklist server = blacklist_loop server tchar_symbols"

fun whitelist_loop :: "probed \<Rightarrow> bytes list \<Rightarrow> bytes list probe" where
  "whitelist_loop server [] = returnS []"
| "whitelist_loop server (m # ms) =
     bindS (ask server [m @ crlf ['' / HTTP/1.1'', ''Host: a'', '''']]) (\<lambda>pts.
     bindS (whitelist_loop server ms) (\<lambda>result.
     returnS (if length pts = 1 \<and> is_parsed_request (hd pts) then m # result else result)))"

definition get_method_whitelist :: "probed \<Rightarrow> bytes list option probe" where
  "get_method_whitelist server =
     bindS (ask server [crlf [''SLUDGE / HTTP/1.1'', ''Host: a'', '''']]) (\<lambda>pts.
     if length pts = 1 \<and> is_parsed_request (hd pts) then returnS None
     else bindS (whitelist_loop server METHODS) (\<lambda>result. returnS (Some result)))"

definition requires_alphabetical_method :: "probed \<Rightarrow> bool probe" where
  "requires_alphabetical_method server =
     bindS (ask server [crlf [''0 / HTTP/1.1'', ''Host: a'', '''']]) (\<lambda>pts.
     bindS (raise_when (length pts \<noteq> 1) ValueError) (\<lambda>_.
     bindS (liftS (first_of pts)) (\<lambda>m. returnS (\<not> is_parsed_request m))))"

section \<open>Versions\<close>

definition allows_http_0_9_probe :: "probed \<Rightarrow> bool probe" where
  "allows_http_0_9_probe server =
     bindS (ask_raw server [crlf [''GET /'', '''']]) (\<lambda>pieces.
     let response = concat pieces;
         eol = (case bytes_find [LF] response of None \<Rightarrow> length response | Some i \<Rightarrow> i) in
     returnS (length response > 0 \<and> bytes_find (ascii ''400'') (take eol response) = None))"

definition http2_headers :: "bytes \<Rightarrow> hpack_field list" where
  "http2_headers authority = map (\<lambda>(k, v). HPACKLiteralHeaderField (HPACKString k) (HPACKString v) VERBATIM)
     [(ascii '':method'', ascii ''GET''), (ascii '':scheme'', ascii ''http''), (ascii '':path'', ascii ''/''),
      (ascii '':authority'', authority)]"

text \<open>The two pieces that are sent: the preface with the settings, and the acknowledgement with a request.\<close>

definition http2_request :: "bytes \<Rightarrow> bytes list result" where
  "http2_request authority =
     bindE (bindE (H2SettingsFrame False []) h2_to_bytes) (\<lambda>settings.
     bindE (bindE (H2SettingsFrame True []) h2_to_bytes) (\<lambda>ack.
     bindE (mapE hpack_field_to_bytes (http2_headers authority)) (\<lambda>fragment.
     bindE (bindE (H2HeadersFrame True True 1 None None None (concat fragment) None) h2_to_bytes) (\<lambda>headers.
     Inr [ascii ''PRI * HTTP/2.0'' @ [CR, LF, CR, LF] @ ascii ''SM'' @ [CR, LF, CR, LF] @ settings, ack @ headers]))))"

definition allows_http_2_probe :: "probed \<Rightarrow> bool probe" where
  "allows_http_2_probe server =
     bindS (liftS (http2_request (address (config server)))) (\<lambda>data.
     bindS (ask_raw server data) (\<lambda>pieces.
     case parse_generic_frames (concat pieces) of
       Inr fs \<Rightarrow> returnS True
     | Inl e \<Rightarrow> if e = H2Error then returnS False else raiseS e))"

definition doesnt_support_version_probe :: "probed \<Rightarrow> bool probe" where
  "doesnt_support_version_probe server =
     bindS (ask server [crlf [''GET / HTTP/1.1'', ''Host: a'', '''']]) (\<lambda>pts1.
     bindS (raise_when (length pts1 \<noteq> 1) ValueError) (\<lambda>_.
     bindS (liftS (first_request pts1)) (\<lambda>pt1.
     bindS (ask server [crlf [''GET / HTTP/1.0'', ''Host: a'', '''']]) (\<lambda>pts2.
     bindS (if length pts2 \<noteq> 1
            then bindS (ask server [crlf [''GET / HTTP/1.0'', '''']]) (\<lambda>pts2.
                 bindS (raise_when (length pts2 > 1) ValueError) (\<lambda>_. returnS pts2))
            else returnS pts2) (\<lambda>pts2.
     case pts2 of
       [] \<Rightarrow> returnS True
     | ParsedResponse _ # _ \<Rightarrow> raiseS ValueError
     | ParsedRequest pt2 # _ \<Rightarrow> returnS (req_version pt1 = req_version pt2))))))"

section \<open>Headers\<close>

definition duplicate_test :: bytes where
  "duplicate_test = crlf [''GET / HTTP/1.1'', ''Host: a'', ''Test: a'', ''Test: b'', '''']"

text \<open>The request with the duplicate header, or \<open>ValueError\<close>.\<close>

definition duplicate_answer :: "probed \<Rightarrow> http_request probe" where
  "duplicate_answer server =
     bindS (ask server [duplicate_test]) (\<lambda>pts.
     bindS (raise_when (length pts \<noteq> 1 \<or> \<not> is_parsed_request (hd pts)) ValueError) (\<lambda>_. liftS (first_request pts)))"

definition joins_duplicate_headers_probe :: "probed \<Rightarrow> bool probe" where
  "joins_duplicate_headers_probe server =
     bindS (duplicate_answer server) (\<lambda>pt.
     returnS (length (req_headers pt) = length (req_headers (remove_request_header pt (ascii ''Test''))) + 1))"

definition strip_ab :: "bytes \<Rightarrow> bytes" where
  "strip_ab v = rev (dropWhile (\<lambda>b. b = 0x62) (rev (dropWhile (\<lambda>b. b = 0x61) v)))"

definition get_duplicate_header_joiner :: "probed \<Rightarrow> bytes probe" where
  "get_duplicate_header_joiner server =
     bindS (duplicate_answer server) (\<lambda>pt.
     case find (\<lambda>(k, v). lower k = ascii ''test'') (req_headers pt) of
       Some (k, v) \<Rightarrow> returnS (strip_ab v)
     | None \<Rightarrow> raiseS ValueError)"

definition REMOVED_HEADERS :: "http_header list" where
  "REMOVED_HEADERS = map (\<lambda>(k, v). (ascii k, ascii v))
     [(''connection'', ''keep-alive''), (''connection'', ''close''), (''content-length'', ''0''),
      (''X-Forwarded-For'', ''172.18.0.1''), (''X-Forwarded-Port'', ''80''), (''Forwarded'', ''proto=http;host=whatever''),
      (''X-Forwarded-Proto'', ''http''), (''X-Forwarded-Host'', ''whatever''), (''Max-Forwards'', ''10'')]"

definition TRASHED_HEADERS :: "http_header list" where
  "TRASHED_HEADERS = [(ascii ''Host'', ascii ''a'')]"

text \<open>The loop over headers that are sent after the lines \<open>front\<close>, and looked for in the answer.\<close>

fun lost_headers_loop :: "probed \<Rightarrow> bytes \<Rightarrow> (bytes \<times> bytes) list \<Rightarrow> http_header list \<Rightarrow> bytes list probe" where
  "lost_headers_loop server front tr [] = returnS []"
| "lost_headers_loop server front tr ((key, val) # hs) =
     bindS (ask server [front @ key @ ascii '': '' @ val @ [CR, LF, CR, LF]]) (\<lambda>pts.
     bindS (raise_when (length pts \<noteq> 1) ValueError) (\<lambda>_.
     bindS (liftS (first_request pts)) (\<lambda>pt.
     bindS (lost_headers_loop server front tr hs) (\<lambda>result.
     returnS (if \<not> has_header pt (translate key tr) (Some val) then key # result else result)))))"

text \<open>\<open>list(set(...))\<close> is the argument \<open>uniq\<close>: its order is not specified.\<close>

definition get_removed_headers :: "(bytes list \<Rightarrow> bytes list) \<Rightarrow> probed \<Rightarrow> (bytes \<times> bytes) list \<Rightarrow> bytes list probe" where
  "get_removed_headers uniq server tr =
     bindS (lost_headers_loop server (crlf [''GET / HTTP/1.1'', ''Host: a'']) tr REMOVED_HEADERS) (\<lambda>result.
     returnS (uniq result))"

definition get_trashed_headers :: "probed \<Rightarrow> (bytes \<times> bytes) list \<Rightarrow> bytes list probe" where
  "get_trashed_headers server tr = lost_headers_loop server (crlf [''GET / HTTP/1.1'']) tr TRASHED_HEADERS"

fun added_headers_loop :: "probed \<Rightarrow> bytes list \<Rightarrow> bytes list probe" where
  "added_headers_loop server [] = returnS []"
| "added_headers_loop server (datum # streams) =
     bindS (ask server [datum]) (\<lambda>pts.
     bindS (raise_when (length pts \<noteq> 1) ValueError) (\<lambda>_.
     bindS (liftS (first_request pts)) (\<lambda>pt.
     bindS (added_headers_loop server streams) (\<lambda>result.
     returnS (map fst (req_headers (remove_request_header pt (ascii ''host''))) @ result)))))"

definition get_added_headers ::
  "(bytes list \<Rightarrow> bytes list) \<Rightarrow> probed \<Rightarrow> bytes list option \<Rightarrow> bool \<Rightarrow> bytes list probe" where
  "get_added_headers uniq server whitelist does_allow_missing_host_header =
     bindS (added_headers_loop server (crlf [''GET / HTTP/1.1'', ''Host: a'', ''''] #
       (if (case whitelist of None \<Rightarrow> True | Some ms \<Rightarrow> ascii ''DELETE'' \<in> set ms)
        then [crlf [''DELETE / HTTP/1.1'', ''Host: a'', '''']] else []))) (\<lambda>result.
     bindS (if does_allow_missing_host_header
            then bindS (ask server [crlf [''GET / HTTP/1.1'', '''']]) (\<lambda>pts.
                 returnS (case pts of ParsedRequest r # _ \<Rightarrow> result @ map fst (req_headers r) | _ \<Rightarrow> result))
            else returnS result) (\<lambda>result.
     returnS (uniq result)))"

definition requires_length_in_post_probe :: "probed \<Rightarrow> bool probe" where
  "requires_length_in_post_probe server =
     bindS (ask server [crlf [''POST / HTTP/1.1'', ''Host: a'', '''']]) (\<lambda>pts.
     bindS (raise_when (length pts > 1) ValueError) (\<lambda>_.
     returnS (pts = [] \<or> \<not> is_parsed_request (hd pts))))"

definition allows_missing_host_header_probe :: "probed \<Rightarrow> bool probe" where
  "allows_missing_host_header_probe server =
     bindS (ask server [crlf [''GET / HTTP/1.1'', '''']]) (\<lambda>pts.
     bindS (raise_when (length pts > 1) ValueError) (\<lambda>_.
     returnS (pts \<noteq> [] \<and> is_parsed_request (hd pts))))"

definition get_header_name_translation :: "probed \<Rightarrow> (bytes \<times> bytes) list probe" where
  "get_header_name_translation server =
     bindS (ask server [crlf [''GET / HTTP/1.1'', ''Host: a'', ''a-b: test'', '''']]) (\<lambda>pts.
     bindS (raise_when (length pts \<noteq> 1) ValueError) (\<lambda>_.
     bindS (liftS (first_request pts)) (\<lambda>pt.
     returnS (if has_header pt (ascii ''a_b'') None then [(ascii ''-'', ascii ''_'')] else []))))"

section \<open>The diagnosis\<close>

text \<open>The values of the dictionary \<open>quirks\<close>: texts, lists of texts and dictionaries of texts, decoded as Latin-1.\<close>

datatype quirk_value = QText bytes | QWords "bytes list" | QTable "(bytes \<times> bytes) list"

type_synonym quirk_dict = "(string \<times> quirk_value) list"

text \<open>The methods a server accepts, or, when it accepts any word, the symbols and digits it refuses.\<close>

definition method_quirks :: "probed \<Rightarrow> (bytes list option \<times> bytes \<times> bool) probe" where
  "method_quirks server =
     bindS (get_method_whitelist server) (\<lambda>whitelist.
     case whitelist of
       Some ms \<Rightarrow> returnS (Some ms, [], False)
     | None \<Rightarrow> bindS (get_method_character_blacklist server) (\<lambda>blacklist.
         bindS (requires_alphabetical_method server) (\<lambda>alphabetical. returnS (None, blacklist, alphabetical))))"

text \<open>What the probes concluded.\<close>

record conclusions =
  c_specific_host :: bool
  c_http_0_9 :: bool
  c_http_2 :: bool
  c_version :: bool
  c_missing_host :: bool
  c_whitelist :: "bytes list option"
  c_blacklist :: bytes
  c_alphabetical :: bool
  c_translation :: "(bytes \<times> bytes) list"
  c_added :: "bytes list"
  c_removed :: "bytes list"
  c_trashed :: "bytes list"
  c_length :: bool
  c_persistence :: bool
  c_joiner :: "bytes option"

definition conclude :: "(bytes list \<Rightarrow> bytes list) \<Rightarrow> probed \<Rightarrow> conclusions probe" where
  "conclude uniq server =
     bindS (allows_http_0_9_probe server) (\<lambda>old.
     bindS (allows_http_2_probe server) (\<lambda>http2.
     bindS (doesnt_support_version_probe server) (\<lambda>version.
     bindS (allows_missing_host_header_probe server) (\<lambda>missing.
     bindS (method_quirks server) (\<lambda>(whitelist, blacklist, alphabetical).
     bindS (get_header_name_translation server) (\<lambda>translation.
     bindS (get_added_headers uniq server whitelist missing) (\<lambda>added.
     bindS (get_removed_headers uniq server translation) (\<lambda>removed.
     bindS (get_trashed_headers server translation) (\<lambda>trashed.
     bindS (requires_length_in_post_probe server) (\<lambda>post.
     bindS (doesnt_support_persistence_probe server) (\<lambda>persistence.
     bindS (joins_duplicate_headers_probe server) (\<lambda>joins.
     bindS (if joins then bindS (get_duplicate_header_joiner server) (\<lambda>j. returnS (Some j)) else returnS None) (\<lambda>joiner.
     returnS \<lparr>c_specific_host = requires_specific_host_header (config server), c_http_0_9 = old, c_http_2 = http2,
       c_version = version, c_missing_host = missing, c_whitelist = whitelist, c_blacklist = blacklist,
       c_alphabetical = alphabetical, c_translation = translation, c_added = added, c_removed = removed,
       c_trashed = trashed, c_length = post, c_persistence = persistence, c_joiner = joiner\<rparr>)))))))))))))"

definition when_true :: "bool \<Rightarrow> string \<Rightarrow> quirk_dict" where
  "when_true b k = (if b then [(k, QText (ascii ''true''))] else [])"

definition when_words :: "bytes list \<Rightarrow> string \<Rightarrow> quirk_dict" where
  "when_words ws k = (if length ws > 0 then [(k, QWords ws)] else [])"

definition in_quotes :: "bytes \<Rightarrow> bytes" where
  "in_quotes t = [0x22] @ t @ [0x22]"

definition quirk_dict :: "conclusions \<Rightarrow> quirk_dict" where
  "quirk_dict c =
     when_true (c_specific_host c) ''requires-specific-host-header'' @
     when_true (c_http_0_9 c) ''allows-http-0-9'' @ when_true (c_http_2 c) ''allows-http-2'' @
     when_true (c_version c) ''doesnt-support-version'' @ when_true (c_missing_host c) ''allows-missing-host-header'' @
     (case c_whitelist c of
        Some ms \<Rightarrow> [(''method-whitelist'', QWords ms)]
      | None \<Rightarrow>
          (if length (c_blacklist c) > 0 then [(''method-character-blacklist'', QText (in_quotes (c_blacklist c)))] else []) @
          when_true (c_alphabetical c) ''requires-alphabetical-method'') @
     (if length (c_translation c) > 0 then [(''header-name-translation'', QTable (c_translation c))] else []) @
     when_words (c_added c) ''added-headers'' @ when_words (c_removed c) ''removed-headers'' @
     when_words (c_trashed c) ''trashed-headers'' @
     when_true (c_length c) ''requires-length-in-post'' @ when_true (c_persistence c) ''doesnt-support-persistence'' @
     (case c_joiner c of
        None \<Rightarrow> []
      | Some j \<Rightarrow> when_true True ''joins-duplicate-headers'' @ [(''duplicate-header-joiner'', QText (in_quotes j))])"

definition diagnose_quirks :: "(bytes list \<Rightarrow> bytes list) \<Rightarrow> probed \<Rightarrow> quirk_dict probe" where
  "diagnose_quirks uniq server = bindS (conclude uniq server) (\<lambda>c. returnS (quirk_dict c))"

section \<open>The script\<close>

text \<open>\<open>repr\<close> of a text of Latin-1 characters.\<close>

definition hex_byte :: "nat \<Rightarrow> byte" where
  "hex_byte n = of_nat (if n < 10 then 0x30 + n else 0x57 + n)"

definition repr_char :: "byte \<Rightarrow> byte \<Rightarrow> bytes" where
  "repr_char q c =
     (if c = q \<or> c = 0x5C then [0x5C, c]
      else if c = 0x09 then ascii (CHR 0x5C # ''t'') else if c = LF then ascii (CHR 0x5C # ''n'')
      else if c = CR then ascii (CHR 0x5C # ''r'')
      else if c < 0x20 \<or> 0x7F \<le> c \<and> c \<le> 0xA0 \<or> c = 0xAD
      then ascii (CHR 0x5C # ''x'') @ [hex_byte (unat c div 16), hex_byte (unat c mod 16)]
      else [c])"

definition repr_text :: "bytes \<Rightarrow> bytes" where
  "repr_text t = (let q = (if 0x27 \<in> set t \<and> 0x22 \<notin> set t then 0x22 else 0x27) in [q] @ concat (map (repr_char q) t) @ [q])"

text \<open>A quirk as the format string of \<open>main\<close> prints it, and the lines printed for a server.\<close>

fun quirk_text :: "quirk_value \<Rightarrow> bytes" where
  "quirk_text (QText t) = t"
| "quirk_text (QWords ws) = ascii ''['' @ bytes_join (ascii '', '') (map repr_text ws) @ ascii '']''"
| "quirk_text (QTable kvs) =
     ascii ''{'' @ bytes_join (ascii '', '') (map (\<lambda>(k, v). repr_text k @ ascii '': '' @ repr_text v) kvs) @ ascii ''}''"

definition server_lines :: "string \<Rightarrow> quirk_dict \<Rightarrow> bytes" where
  "server_lines n quirks =
     ascii n @ ascii '':'' @ [LF] @ concat (map (\<lambda>(k, v). ascii ''  '' @ ascii k @ ascii '': '' @ quirk_text v @ [LF]) quirks)"

text \<open>A stage runs a probe on every server, in threads, and hands on the number of round trips of each.\<close>

definition stage :: "(probed \<Rightarrow> 'a probe) \<Rightarrow> (probed \<times> nat) list \<Rightarrow> ('a \<times> nat) list result" where
  "stage p servers =
     eager_pmap (\<lambda>(server, n). case p server n of (Inl e, m) \<Rightarrow> Inl e | (Inr x, m) \<Rightarrow> Inr (x, m)) servers"

text \<open>The origins as \<open>(server, connections)\<close>. The setting of \<open>requires_specific_host_header\<close> changes the round trips after it.\<close>

definition probe_main :: "(bytes \<Rightarrow> bytes result) \<Rightarrow> (bytes list \<Rightarrow> bytes list) \<Rightarrow>
    (server \<times> (nat \<Rightarrow> sock result)) list \<Rightarrow> bytes result" where
  "probe_main gunzip uniq origins =
     (let probe_at = (\<lambda>origins counts. zip (map (\<lambda>(s, connect). probed_origin gunzip s connect) origins) counts) in
     bindE (stage fails_sanity_check (probe_at origins (replicate (length origins) 0))) (\<lambda>first.
     bindE (stage requires_specific_host_header_probe (probe_at origins (map snd first))) (\<lambda>hosts.
     let origins = map (\<lambda>((s, connect), b). (s\<lparr>requires_specific_host_header := b\<rparr>, connect)) (zip origins (map fst hosts)) in
     bindE (stage fails_sanity_check (probe_at origins (map snd hosts))) (\<lambda>failed.
     if list_ex fst failed then Inl ValueError
     else bindE (stage (diagnose_quirks uniq) (probe_at origins (map snd failed))) (\<lambda>all_quirks.
     Inr (concat (map (\<lambda>((s, connect), quirks, n). server_lines (name s) quirks) (zip origins all_quirks))))))))"

text \<open>The servers named on the command line, all when there is no such option, and the whole output.\<close>

definition select_origins :: "(string \<times> 'a) list \<Rightarrow> string option \<Rightarrow> 'a list result" where
  "select_origins origin_dict servers =
     (case servers of
        None \<Rightarrow> Inr (map snd origin_dict)
      | Some names \<Rightarrow>
          mapE (\<lambda>s. case map_of origin_dict s of None \<Rightarrow> Inl KeyError | Some v \<Rightarrow> Inr v)
            (filter (\<lambda>s. length s > 0) (list_split names (CHR '',''))))"

definition probe_script :: "(bytes \<Rightarrow> bytes result) \<Rightarrow> (bytes list \<Rightarrow> bytes list) \<Rightarrow>
    (string \<times> server \<times> (nat \<Rightarrow> sock result)) list \<Rightarrow> string option \<Rightarrow> bytes result" where
  "probe_script gunzip uniq origin_dict servers =
     bindE (select_origins origin_dict servers) (\<lambda>origins.
     bindE (probe_main gunzip uniq origins) (\<lambda>out.
     Inr (ascii ''# This file generated by diagnose_quirks.py'' @ [LF] @
       ascii ''# This yaml file tracks the acceptable parsing quirks in the servers.'' @ [LF] @ out)))"

section \<open>Round trips and errors of a probe\<close>

text \<open>A probe that makes at most \<open>k\<close> round trips and raises only exceptions in \<open>E\<close>.\<close>

definition probing :: "nat \<Rightarrow> (exn \<Rightarrow> bool) \<Rightarrow> 'a probe \<Rightarrow> bool" where
  "probing k E m \<longleftrightarrow> (\<forall>n. snd (m n) \<le> n + k \<and> (\<forall>e. fst (m n) = Inl e \<longrightarrow> E e))"

named_theorems probing_intros

lemma probing_bind: "probing i E m \<Longrightarrow> (\<And>x. probing j E (f x)) \<Longrightarrow> probing (i + j) E (bindS m f)"
proof (unfold probing_def, intro allI, goal_cases)
  case (1 n)
  obtain r n' where "m n = (r, n')" by fastforce
  with 1(1) [rule_format, of n] have m: "n' \<le> n + i" "\<And>e. r = Inl e \<Longrightarrow> E e" by auto
  show ?case
  proof (cases r)
    case (Inr x)
    from 1(2) [rule_format, of x n'] have "snd (f x n') \<le> n' + j" "\<And>e. fst (f x n') = Inl e \<Longrightarrow> E e" by auto
    with m(1) Inr \<open>m n = (r, n')\<close> show ?thesis by (simp add: bindS_def)
  qed (use m \<open>m n = (r, n')\<close> in \<open>simp add: bindS_def\<close>)
qed

lemma probing_mono: "probing i E m \<Longrightarrow> i \<le> k \<Longrightarrow> probing k E m"
  unfolding probing_def by (meson add_le_cancel_left order_trans)

lemma probing_return [probing_intros]: "probing k E (returnS x)"
  by (simp add: probing_def)

lemma probing_raise [probing_intros]: "E e \<Longrightarrow> probing k E (raiseS e)"
  by (simp add: probing_def)

lemma probing_if [probing_intros]: "(b \<Longrightarrow> probing k E m) \<Longrightarrow> (\<not> b \<Longrightarrow> probing k E m') \<Longrightarrow> probing k E (if b then m else m')"
  by simp

lemma probing_raise_when [probing_intros]:
  "(b \<Longrightarrow> E e) \<Longrightarrow> (\<not> b \<Longrightarrow> probing k E (f ())) \<Longrightarrow> probing k E (bindS (raise_when b e) f)"
  by (auto simp: probing_def bindS_def raise_when_def)

lemma probing_lift [probing_intros]:
  "(\<And>e. r = Inl e \<Longrightarrow> E e) \<Longrightarrow> (\<And>x. r = Inr x \<Longrightarrow> probing k E (f x)) \<Longrightarrow> probing k E (bindS (liftS r) f)"
  by (cases r) (auto simp: probing_def bindS_def liftS_def)

lemma probing_liftS [probing_intros]: "(\<And>e. r = Inl e \<Longrightarrow> E e) \<Longrightarrow> probing k E (liftS r)"
  by (auto simp: probing_def liftS_def)

text \<open>What a diagnosis can raise: its own exceptions, those of a round trip, and those of printing the frames of the HTTP/2 probe.\<close>

definition diagnosis_error :: "probed \<Rightarrow> exn \<Rightarrow> bool" where
  "diagnosis_error server e \<longleftrightarrow> e = ValueError \<or> e = AssertionError \<or> (\<exists>n data. parsed server n data = Inl e) \<or>
     (\<exists>n data. unparsed server n data = Inl e) \<or> http2_request (address (config server)) = Inl e"

lemma diagnosis_error_own [intro, simp]: "diagnosis_error server ValueError" "diagnosis_error server AssertionError"
  by (simp_all add: diagnosis_error_def)

lemma probing_ask [probing_intros]:
  "(\<And>pts. probing k (diagnosis_error server) (f pts)) \<Longrightarrow> probing (Suc k) (diagnosis_error server) (bindS (ask server data) f)"
proof (unfold probing_def, intro allI, goal_cases)
  case (1 n)
  show ?case
  proof (cases "parsed server n data")
    case (Inr pts)
    with 1 [rule_format, of pts "Suc n"] show ?thesis by (simp add: bindS_def ask_def)
  qed (auto simp: bindS_def ask_def diagnosis_error_def)
qed

lemma probing_ask_raw [probing_intros]:
  "(\<And>ps. probing k (diagnosis_error server) (f ps)) \<Longrightarrow> probing (Suc k) (diagnosis_error server) (bindS (ask_raw server data) f)"
proof (unfold probing_def, intro allI, goal_cases)
  case (1 n)
  show ?case
  proof (cases "unparsed server n data")
    case (Inr pts)
    with 1 [rule_format, of pts "Suc n"] show ?thesis by (simp add: bindS_def ask_raw_def)
  qed (auto simp: bindS_def ask_raw_def diagnosis_error_def)
qed

lemma first_of_one: "length pts = 1 \<Longrightarrow> first_of pts = Inr (hd pts)"
  by (cases pts) (simp_all add: first_of_def)

lemma first_request_error:
  "\<not> length pts \<noteq> 1 \<Longrightarrow> first_request pts = Inl e \<Longrightarrow> diagnosis_error server e"
  by (auto simp: first_request_def first_of_one split: parsed_message.splits)

lemma frames_error: "parse_generic_frames bs = Inl e \<Longrightarrow> e = H2Error"
proof (induction bs rule: parse_generic_frames.induct)
  case (1 it)
  show ?case
  proof (cases "H2GenericFrame_parse it")
    case (Inl e')
    with 1(2) frame_parse_errors [OF Inl] show ?thesis
      by (auto simp: parse_generic_frames.simps [of it])
  next
    case (Inr fr)
    with 1 show ?thesis by (cases fr) (auto simp: parse_generic_frames.simps [of it] bindE_eq_Inl)
  qed
qed

lemma requires_specific_host_header_probing: "probing 1 (diagnosis_error server) (requires_specific_host_header_probe server)"
  and fails_sanity_check_probing: "probing 1 (diagnosis_error server) (fails_sanity_check server)"
  and persistence_probing: "probing 1 (diagnosis_error server) (doesnt_support_persistence_probe server)"
  and http_0_9_probing: "probing 1 (diagnosis_error server) (allows_http_0_9_probe server)"
  unfolding requires_specific_host_header_probe_def fails_sanity_check_def doesnt_support_persistence_probe_def
    allows_http_0_9_probe_def One_nat_def Let_def
  by (intro probing_intros)+

lemma http_2_probing: "probing 1 (diagnosis_error server) (allows_http_2_probe server)"
  unfolding allows_http_2_probe_def One_nat_def
  by (intro probing_intros) (auto simp: diagnosis_error_def split: sum.splits dest: frames_error intro!: probing_intros)

lemma probing_then [probing_intros]: "probing k E m \<Longrightarrow> probing k E (bindS m (\<lambda>x. returnS (g x)))"
  using probing_bind [of k E m 0 "\<lambda>x. returnS (g x)"] by (simp add: probing_return)

lemma blacklist_probing: "probing (length bs) (diagnosis_error server) (blacklist_loop server bs)"
proof (induction bs)
  case (Cons x bs)
  then show ?case
    unfolding blacklist_loop.simps list.size(4) add_Suc_right add_0_right by (intro probing_intros) simp_all
qed (simp only: blacklist_loop.simps probing_return)

lemma whitelist_probing: "probing (length ms) (diagnosis_error server) (whitelist_loop server ms)"
proof (induction ms)
  case (Cons x ms)
  then show ?case
    unfolding whitelist_loop.simps list.size(4) add_Suc_right add_0_right by (intro probing_intros) simp_all
qed (simp only: whitelist_loop.simps probing_return)

lemma method_probing: "probing (1 + length METHODS) (diagnosis_error server) (method_quirks server)"
proof -
  have "probing 1 (diagnosis_error server) (requires_alphabetical_method server)"
    unfolding requires_alphabetical_method_def One_nat_def
    by (intro probing_intros) (simp_all add: first_of_one)
  then have "probing (length tchar_symbols + 1) (diagnosis_error server)
      (bindS (get_method_character_blacklist server) (\<lambda>blacklist.
       bindS (requires_alphabetical_method server) (\<lambda>alphabetical. returnS (None, blacklist, alphabetical))))"
    unfolding get_method_character_blacklist_def by (intro probing_bind blacklist_probing probing_then)
  then have none: "probing (length METHODS) (diagnosis_error server)
      (bindS (get_method_character_blacklist server) (\<lambda>blacklist.
       bindS (requires_alphabetical_method server) (\<lambda>alphabetical. returnS (None, blacklist, alphabetical))))"
    by (rule probing_mono) (simp add: tchar_symbols_def METHODS_def)
  have eq: "method_quirks server =
      bindS (ask server [crlf [''SLUDGE / HTTP/1.1'', ''Host: a'', '''']]) (\<lambda>pts.
      if length pts = 1 \<and> is_parsed_request (hd pts)
      then bindS (get_method_character_blacklist server) (\<lambda>blacklist.
        bindS (requires_alphabetical_method server) (\<lambda>alphabetical. returnS (None, blacklist, alphabetical)))
      else bindS (whitelist_loop server METHODS) (\<lambda>result. returnS (Some result, [], False)))"
    by (auto simp: method_quirks_def get_method_whitelist_def fun_eq_iff bindS_def split: sum.splits prod.splits)
  have "probing (Suc (length METHODS)) (diagnosis_error server) (method_quirks server)"
    unfolding eq by (intro probing_intros none probing_then whitelist_probing)
  then show ?thesis by simp
qed

lemma version_probing: "probing 3 (diagnosis_error server) (doesnt_support_version_probe server)"
proof -
  have final: "probing 0 (diagnosis_error server) (case pts of [] \<Rightarrow> returnS True | ParsedResponse x # _ \<Rightarrow> raiseS ValueError
      | ParsedRequest r # _ \<Rightarrow> returnS (v r))" for pts and v :: "http_request \<Rightarrow> bool"
    by (auto split: list.splits parsed_message.splits intro!: probing_intros)
  have "probing (Suc (Suc (Suc 0 + 0))) (diagnosis_error server) (doesnt_support_version_probe server)"
    unfolding doesnt_support_version_probe_def
    by (intro probing_raise_when probing_lift probing_ask probing_bind [OF _ final] probing_if probing_return
        diagnosis_error_own) (rule first_request_error, assumption+)
  then show ?thesis by (simp add: numeral_3_eq_3)
qed

lemma lost_headers_probing: "probing (length hs) (diagnosis_error server) (lost_headers_loop server front tr hs)"
proof (induction hs)
  case (Cons h hs)
  obtain key val where h: "h = (key, val)" by fastforce
  show ?case
    unfolding h lost_headers_loop.simps list.size(4) add_Suc_right add_0_right
    by (intro probing_intros Cons diagnosis_error_own) (rule first_request_error, simp_all)
qed (simp only: lost_headers_loop.simps probing_return)

lemma added_headers_loop_probing: "probing (length ds) (diagnosis_error server) (added_headers_loop server ds)"
proof (induction ds)
  case (Cons d ds)
  show ?case
    unfolding added_headers_loop.simps list.size(4) add_Suc_right add_0_right
    by (intro probing_intros Cons diagnosis_error_own) (rule first_request_error, simp_all)
qed (simp only: added_headers_loop.simps probing_return)

lemma added_headers_probing: "probing 3 (diagnosis_error server) (get_added_headers uniq server ms missing)"
proof -
  have extra: "probing 1 (diagnosis_error server) (bindS (if missing
            then bindS (ask server [crlf [''GET / HTTP/1.1'', '''']]) (\<lambda>pts.
                 returnS (case pts of ParsedRequest r # _ \<Rightarrow> result @ map fst (req_headers r) | _ \<Rightarrow> result))
            else returnS result) (\<lambda>result. returnS (uniq result)))" for result
    unfolding One_nat_def by (intro probing_intros)
  have "probing 2 (diagnosis_error server) (added_headers_loop server (d # (if b then [d'] else [])))" for d d' b
    by (rule probing_mono [OF added_headers_loop_probing]) simp
  from probing_bind [OF this extra] show ?thesis
    unfolding get_added_headers_def by simp
qed

lemma small_probings:
  "probing 1 (diagnosis_error server) (allows_missing_host_header_probe server)"
  "probing 1 (diagnosis_error server) (get_header_name_translation server)"
  "probing 1 (diagnosis_error server) (requires_length_in_post_probe server)"
  "probing 1 (diagnosis_error server) (joins_duplicate_headers_probe server)"
  "probing 1 (diagnosis_error server) (get_duplicate_header_joiner server)"
proof -
  have answer: "probing 1 (diagnosis_error server) (duplicate_answer server)"
    unfolding duplicate_answer_def One_nat_def
    by (intro probing_intros diagnosis_error_own) (rule first_request_error [where server = server], auto)
  then show "probing 1 (diagnosis_error server) (joins_duplicate_headers_probe server)"
    unfolding joins_duplicate_headers_probe_def by (intro probing_then)
  have "probing 0 (diagnosis_error server) (case find (\<lambda>(k, v). lower k = ascii ''test'') (req_headers pt) of
       Some (k, v) \<Rightarrow> returnS (strip_ab v) | None \<Rightarrow> raiseS ValueError)" for pt
    by (cases "find (\<lambda>(k, v). lower k = ascii ''test'') (req_headers pt)") (simp_all only: option.case split: prod.splits, auto intro!: probing_intros)
  from probing_bind [OF answer this] show "probing 1 (diagnosis_error server) (get_duplicate_header_joiner server)"
    unfolding get_duplicate_header_joiner_def by simp
qed (unfold allows_missing_host_header_probe_def get_header_name_translation_def requires_length_in_post_probe_def One_nat_def,
    (intro probing_intros diagnosis_error_own; rule first_request_error [where server = server], simp_all)+)

lemma probing_prod: "(\<And>a b. p = (a, b) \<Longrightarrow> probing k E (f a b)) \<Longrightarrow> probing k E (case p of (a, b) \<Rightarrow> f a b)"
  by (cases p) simp

lemma removed_headers_probing: "probing 9 (diagnosis_error server) (get_removed_headers uniq server tr)"
  and trashed_headers_probing: "probing 1 (diagnosis_error server) (get_trashed_headers server tr)"
  unfolding get_removed_headers_def get_trashed_headers_def
  by (rule probing_then, rule probing_mono [OF lost_headers_probing], simp add: REMOVED_HEADERS_def)
    (rule probing_mono [OF lost_headers_probing], simp add: TRASHED_HEADERS_def)

definition DIAGNOSIS_TRIPS :: nat where
  "DIAGNOSIS_TRIPS = 1 + (1 + (3 + (1 + ((1 + length METHODS) + (1 + (3 + (9 + (1 + (1 + (1 + (1 + 1)))))))))))"

lemma diagnosis_probing: "probing DIAGNOSIS_TRIPS (diagnosis_error server) (diagnose_quirks uniq server)"
proof -
  have joiner: "probing 1 (diagnosis_error server)
      (bindS (if joins then bindS (get_duplicate_header_joiner server) (\<lambda>j. returnS (Some j)) else returnS None) (\<lambda>x. returnS (g x)))"
    for joins and g :: "bytes option \<Rightarrow> conclusions"
    by (intro probing_then probing_if small_probings probing_return)
  have "probing DIAGNOSIS_TRIPS (diagnosis_error server) (conclude uniq server)"
    unfolding DIAGNOSIS_TRIPS_def conclude_def
    by (intro probing_bind [OF http_0_9_probing] probing_bind [OF http_2_probing] probing_bind [OF version_probing]
        probing_bind [OF small_probings(1)] probing_bind [OF method_probing] probing_prod probing_bind [OF small_probings(2)]
        probing_bind [OF added_headers_probing] probing_bind [OF removed_headers_probing]
        probing_bind [OF trashed_headers_probing] probing_bind [OF small_probings(3)] probing_bind [OF persistence_probing]
        probing_bind [OF small_probings(4)] joiner)
  then show ?thesis
    unfolding diagnose_quirks_def by (rule probing_then)
qed

section \<open>Properties\<close>

text \<open>C33: the cost of a diagnosis. Whatever the server answers, and whether or not the diagnosis ends with an exception, it makes
  at most 25 round trips and one for each known method.\<close>

theorem diagnosis_is_bounded: "snd (diagnose_quirks uniq server n) \<le> n + 25 + length METHODS"
proof -
  have "snd (diagnose_quirks uniq server n) \<le> n + DIAGNOSIS_TRIPS"
    using diagnosis_probing [of server uniq] by (simp add: probing_def)
  then show ?thesis by (simp add: DIAGNOSIS_TRIPS_def)
qed


definition silent_server :: probed where
  "silent_server = \<lparr>config = plain_server, parsed = (\<lambda>n data. Inr []), unparsed = (\<lambda>n data. Inr [])\<rparr>"

lemma silent_diagnosis: "diagnose_quirks uniq silent_server 0 = (Inl ValueError, 3)"
proof -
  have "allows_http_0_9_probe silent_server 0 = (Inr False, 1)"
    by (simp add: allows_http_0_9_probe_def bindS_def ask_raw_def silent_server_def)
  moreover have "is_ok (http2_request [])"
    by code_simp
  then have "allows_http_2_probe silent_server 1 = (Inr True, 2)"
    by (auto simp: allows_http_2_probe_def bindS_def ask_raw_def silent_server_def liftS_def plain_server_def is_ok_iff
        parse_generic_frames.simps [of "[]"] H2GenericFrame_parse_def)
  moreover have "doesnt_support_version_probe silent_server 2 = (Inl ValueError, 3)"
    by (simp add: doesnt_support_version_probe_def bindS_def ask_def silent_server_def raise_when_def)
  ultimately show ?thesis
    by (simp add: diagnose_quirks_def conclude_def bindS_def)
qed


text \<open>A server that does not answer at all counts as one that speaks HTTP/2: no frame is read from its answer, and none is missing.\<close>

lemma silence_is_http_2: "fst (allows_http_2_probe silent_server 0) = Inr True"
proof -
  have "is_ok (http2_request [])"
    by code_simp
  then show ?thesis
    by (auto simp: allows_http_2_probe_def bindS_def ask_raw_def silent_server_def liftS_def plain_server_def is_ok_iff
        parse_generic_frames.simps [of "[]"] H2GenericFrame_parse_def)
qed

section \<open>Methods of a steady server\<close>

text \<open>The request for a method, and whether the answer to it is one parsed request.\<close>

definition method_request :: "bytes \<Rightarrow> bytes list" where
  "method_request m = [m @ crlf ['' / HTTP/1.1'', ''Host: a'', '''']]"

lemma whitelist_loop_steady:
  assumes "\<And>n data. parsed server n data = Inr (answer data)"
  shows "whitelist_loop server ms n = (Inr (filter (\<lambda>m. one_request (answer (method_request m))) ms), n + length ms)"
  by (induction ms arbitrary: n) (simp_all add: bindS_def ask_def assms one_request_def method_request_def)

lemma blacklist_loop_steady:
  assumes "\<And>n data. parsed server n data = Inr (answer data)"
  shows "fst (blacklist_loop server bs n) =
    (if list_all (\<lambda>b. length (answer (method_request (ascii ''GET'' @ [b]))) \<le> 1) bs
     then Inr (filter (\<lambda>b. list_ex (\<lambda>m. \<not> is_parsed_request m) (answer (method_request (ascii ''GET'' @ [b])))) bs)
     else Inl ValueError)"
proof (induction bs arbitrary: n)
  case (Cons b bs)
  have ask: "ask server [ascii ''GET'' @ b # crlf ['' / HTTP/1.1'', ''Host: a'', '''']] n =
      (Inr (answer (method_request (ascii ''GET'' @ [b]))), Suc n)"
    by (simp add: ask_def assms method_request_def)
  show ?case
  proof (cases "answer (method_request (ascii ''GET'' @ [b]))")
    case Nil
    with Cons [of "Suc n"] show ?thesis
      by (simp add: bindS_def ask)
  next
    case (Cons m ms)
    obtain r n' where rest: "blacklist_loop server bs (Suc n) = (r, n')" by fastforce
    with Cons.IH [of "Suc n"] Cons show ?thesis
      by (auto simp: bindS_def ask raise_when_def split: if_splits)
  qed
qed simp

text \<open>The methods of a server whose answers depend on the request only. It has a whitelist only if it refuses the made-up
  method, and then the whitelist is the known methods it accepts, in order. The blacklist is the symbols it answers with a
  response after a method that it should know; it cannot be told, and \<open>ValueError\<close> is raised, if and only if one of them gets more than
  one answer.\<close>

theorem methods_of_a_steady_server:
  assumes "\<forall>n data. parsed server n data = Inr (answer data)"
  shows "fst (get_method_whitelist server n) =
      Inr (if one_request (answer (method_request (ascii ''SLUDGE''))) then None
           else Some (filter (\<lambda>m. one_request (answer (method_request m))) METHODS)) \<and>
    fst (get_method_character_blacklist server n) =
      (if list_all (\<lambda>b. length (answer (method_request (ascii ''GET'' @ [b]))) \<le> 1) tchar_symbols
       then Inr (filter (\<lambda>b. list_ex (\<lambda>m. \<not> is_parsed_request m) (answer (method_request (ascii ''GET'' @ [b])))) tchar_symbols)
       else Inl ValueError)"
proof
  have steady: "\<And>n data. parsed server n data = Inr (answer data)" using assms by simp
  have "method_request (ascii ''SLUDGE'') = [crlf [''SLUDGE / HTTP/1.1'', ''Host: a'', '''']]"
    by (simp add: method_request_def crlf_def ascii_def)
  then show "fst (get_method_whitelist server n) =
      Inr (if one_request (answer (method_request (ascii ''SLUDGE''))) then None
           else Some (filter (\<lambda>m. one_request (answer (method_request m))) METHODS))"
    using whitelist_loop_steady [OF steady]
    by (simp add: get_method_whitelist_def bindS_def ask_def steady one_request_def)
  show "fst (get_method_character_blacklist server n) =
      (if list_all (\<lambda>b. length (answer (method_request (ascii ''GET'' @ [b]))) \<le> 1) tchar_symbols
       then Inr (filter (\<lambda>b. list_ex (\<lambda>m. \<not> is_parsed_request m) (answer (method_request (ascii ''GET'' @ [b])))) tchar_symbols)
       else Inl ValueError)"
    unfolding get_method_character_blacklist_def by (rule blacklist_loop_steady [OF steady])
qed

definition only_get :: "bytes list \<Rightarrow> parsed_message list" where
  "only_get data = (if data = method_request (ascii ''GET'') then [ParsedRequest example_reported] else [ParsedResponse example_rejection])"

definition get_server :: probed where
  "get_server = silent_server\<lparr>parsed := \<lambda>n data. Inr (only_get data)\<rparr>"

theorem methods_of_a_steady_server_witness:
  "fst (get_method_whitelist get_server 0) = Inr (Some [ascii ''GET'']) \<and>
    fst (get_method_character_blacklist get_server 0) = Inr tchar_symbols"
proof -
  have "one_request (only_get (method_request m)) \<longleftrightarrow> m = ascii ''GET''" for m
    by (simp add: only_get_def one_request_def method_request_def)
  moreover have "filter (\<lambda>m. m = ascii ''GET'') METHODS = [ascii ''GET''] \<and> ascii ''SLUDGE'' \<noteq> ascii ''GET''"
    by code_simp
  moreover have "only_get (method_request (ascii ''GET'' @ [b])) = [ParsedResponse example_rejection]" for b
    by (simp add: only_get_def method_request_def)
  ultimately show ?thesis
    using methods_of_a_steady_server [of get_server only_get 0] by (simp add: get_server_def list_all_iff)
qed

section \<open>The request of the HTTP/2 probe\<close>

lemma verbatim_headers_read:
  assumes "\<forall>(k, v) \<in> set hs. 4 * int (length k) \<le> sys_maxsize \<and> 4 * int (length v) \<le> sys_maxsize"
    and "table_size s \<le> table_capacity s"
    and "mapE hpack_field_to_bytes (map (\<lambda>(k, v). HPACKLiteralHeaderField (HPACKString k) (HPACKString v) VERBATIM) hs) = Inr bss"
  shows "\<exists>fs. parse_field_block (concat bss) = Inr fs \<and> process_field_block fs s = (Inr hs, s)"
proof -
  let ?ls = "map (\<lambda>(k, v). (HPACKString k, HPACKString v, VERBATIM)) hs"
  have data: "str_data (HPACKString b) = b" and wf: "wf_string (HPACKString b) \<longleftrightarrow> 4 * int (length b) \<le> sys_maxsize" for b
    by (simp_all add: HPACKString_def wf_string_def)
  have uncached: "VERBATIM \<noteq> CACHED" by (simp add: VERBATIM_def CACHED_def)
  have "\<exists>bss fs. mapE (\<lambda>(k, v, p). hpack_field_to_bytes (HPACKLiteralHeaderField k v p)) ?ls = Inr bss \<and>
    parse_field_block (concat bss) = Inr fs \<and>
    process_field_block fs s = (Inr (map (\<lambda>(k, v, p). (str_data k, str_data v)) ?ls),
      s\<lparr>dynamic_table := fitting (table_capacity s)
        (rev (map (\<lambda>(k, v, p). (str_data k, str_data v)) (filter (\<lambda>(k, v, p). p = CACHED) ?ls)) @ dynamic_table s)\<rparr>)"
    using assms(1,2) by (intro literal_headers_processed) (auto simp: wf)
  moreover have "mapE (\<lambda>(k, v, p). hpack_field_to_bytes (HPACKLiteralHeaderField k v p)) ?ls = Inr bss"
    using assms(3) by (simp only: mapE_map case_prod_unfold fst_conv snd_conv)
  moreover have "map (\<lambda>(k, v, p). (str_data k, str_data v)) ?ls = hs"
    by (induction hs) (auto simp: data)
  moreover have "filter (\<lambda>(k, v, p). p = CACHED) ?ls = []"
    using uncached by (induction hs) auto
  moreover have "s\<lparr>dynamic_table := fitting (table_capacity s) (dynamic_table s)\<rparr> = s"
    using assms(2) by (simp add: fitting_all table_size_def)
  ultimately show ?thesis by auto
qed

text \<open>C35: the request of the HTTP/2 probe is well formed. After the preface, what is sent reads as an empty SETTINGS frame, its
  acknowledgement and one HEADERS frame that opens and ends stream 1, whose field block decodes, in any state of a decoder,
  to a GET request for \<open>/\<close> with the address as its authority, and leaves the decoder's table as it was.\<close>

theorem http_2_probe_request:
  assumes "http2_request authority = Inr data" and "4 * int (length authority) \<le> sys_maxsize"
    and "table_size s \<le> table_capacity s"
  shows "\<exists>opening request fragment fs.
    data = [ascii ''PRI * HTTP/2.0'' @ [CR, LF, CR, LF] @ ascii ''SM'' @ [CR, LF, CR, LF] @ opening, request] \<and>
    parse_frames (opening @ request) =
      Inr [SettingsFrame False [], SettingsFrame True [], HeadersFrame True True 1 None None None fragment None] \<and>
    parse_field_block fragment = Inr fs \<and>
    process_field_block fs s = (Inr [(ascii '':method'', ascii ''GET''), (ascii '':scheme'', ascii ''http''),
      (ascii '':path'', ascii ''/''), (ascii '':authority'', authority)], s)"
proof -
  let ?hs = "[(ascii '':method'', ascii ''GET''), (ascii '':scheme'', ascii ''http''), (ascii '':path'', ascii ''/''), (ascii '':authority'', authority)]"
  from assms(1) obtain settings ack bss headers where
    printed: "bindE (H2SettingsFrame False []) h2_to_bytes = Inr settings" "bindE (H2SettingsFrame True []) h2_to_bytes = Inr ack"
      "mapE hpack_field_to_bytes (http2_headers authority) = Inr bss"
      "bindE (H2HeadersFrame True True 1 None None None (concat bss) None) h2_to_bytes = Inr headers"
    and data: "data = [ascii ''PRI * HTTP/2.0'' @ [CR, LF, CR, LF] @ ascii ''SM'' @ [CR, LF, CR, LF] @ settings, ack @ headers]"
    unfolding http2_request_def by (auto simp: bindE_eq_Inr simp del: mapE.simps)
  have headers: "H2HeadersFrame True True 1 None None None b None = Inr (HeadersFrame True True 1 None None None b None)" for b
    by (simp add: H2HeadersFrame_def check_stream_id_def check_priority_def check_pad_length_def raise_if_def)
  have settings: "H2SettingsFrame b [] = Inr (SettingsFrame b [])" for b
    by (simp add: H2SettingsFrame_def raise_if_def)
  have "mapE h2_to_bytes [SettingsFrame False [], SettingsFrame True [], HeadersFrame True True 1 None None None (concat bss) None] =
      Inr [settings, ack, headers]"
    using printed by (simp add: settings headers)
  then have "parse_frames (concat [settings, ack, headers]) =
      Inr [SettingsFrame False [], SettingsFrame True [], HeadersFrame True True 1 None None None (concat bss) None]"
    by (intro parse_frames_prints) (auto simp: settings headers)
  moreover have "\<exists>fs. parse_field_block (concat bss) = Inr fs \<and> process_field_block fs s = (Inr ?hs, s)"
    using assms(2,3) printed(3)
    by (intro verbatim_headers_read) (auto simp: http2_headers_def ascii_def sys_maxsize_def simp del: mapE.simps)
  ultimately show ?thesis
    using data by auto
qed

theorem http_2_probe_request_witness:
  "\<exists>data opening request fragment fs. http2_request (ascii ''10.0.0.1'') = Inr data \<and> data = [opening, request] \<and>
    parse_field_block fragment = Inr fs \<and>
    process_field_block fs HPACKState = (Inr [(ascii '':method'', ascii ''GET''), (ascii '':scheme'', ascii ''http''),
      (ascii '':path'', ascii ''/''), (ascii '':authority'', ascii ''10.0.0.1'')], HPACKState)"
proof -
  have "is_ok (http2_request (ascii ''10.0.0.1''))"
    by code_simp
  then obtain data where "http2_request (ascii ''10.0.0.1'') = Inr data"
    by (auto simp: is_ok_iff)
  with http_2_probe_request [OF this, of HPACKState] show ?thesis
    by (fastforce simp: ascii_def sys_maxsize_def HPACKState_def table_size_def)
qed

end
