(* ===== verification/QuirkFile.thy ===== *)
theory QuirkFile
  imports ProbeQuirks Services
begin

text \<open>
  \<open>quirks.yml\<close> between the two programs: \<open>tools/probe_quirks.py\<close> prints what it concluded of a server, and
  \<open>tools/targets.py\<close> loads it. How YAML reads the text of one quirk is an argument, of which only the documented meaning
  of the scalars and flow collections that are printed is assumed. The lemmas show what a server knows of the conclusions.
\<close>

section \<open>Reading YAML\<close>

text \<open>Texts that stand for themselves between double quotes, and texts that \<open>repr\<close> puts between single quotes unchanged.\<close>

definition quotable :: "bytes \<Rightarrow> bool" where
  "quotable t \<longleftrightarrow> list_all (\<lambda>c. 0x20 \<le> c \<and> c \<le> 0x7E \<and> c \<noteq> 0x22 \<and> c \<noteq> 0x5C) t"

definition plain_text :: "bytes \<Rightarrow> bool" where
  "plain_text t \<longleftrightarrow> quotable t \<and> 0x27 \<notin> set t"

text \<open>The word \<open>true\<close>, a text in double quotes, and lists and dictionaries of texts in single quotes.\<close>

definition reads_quirks :: "(bytes \<Rightarrow> yaml) \<Rightarrow> bool" where
  "reads_quirks read \<longleftrightarrow> read (ascii ''true'') = YBool True \<and>
     (\<forall>t. quotable t \<longrightarrow> read (in_quotes t) = YText t) \<and>
     (\<forall>ws. list_all plain_text ws \<longrightarrow> read (quirk_text (QWords ws)) = YList (map YText ws)) \<and>
     (\<forall>kvs. list_all (\<lambda>(k, v). plain_text k \<and> plain_text v) kvs \<longrightarrow> distinct (map fst kvs) \<longrightarrow>
        read (quirk_text (QTable kvs)) = YDict (map (\<lambda>(k, v). (k, YText v)) kvs))"

definition loaded_quirks :: "(bytes \<Rightarrow> yaml) \<Rightarrow> quirk_dict \<Rightarrow> yaml_dict" where
  "loaded_quirks read quirks = map (\<lambda>(k, v). (ascii k, read (quirk_text v))) quirks"

text \<open>The conclusions whose texts can be printed and read back.\<close>

definition printable_conclusions :: "conclusions \<Rightarrow> bool" where
  "printable_conclusions c \<longleftrightarrow> (case c_whitelist c of None \<Rightarrow> True | Some ms \<Rightarrow> list_all plain_text ms) \<and> quotable (c_blacklist c) \<and>
     list_all (\<lambda>(k, v). plain_text k \<and> plain_text v) (c_translation c) \<and> distinct (map fst (c_translation c)) \<and>
     list_all plain_text (c_added c) \<and> list_all plain_text (c_removed c) \<and> list_all plain_text (c_trashed c) \<and>
     (case c_joiner c of None \<Rightarrow> True | Some j \<Rightarrow> quotable j)"

section \<open>Looking a quirk up\<close>

lemma map_of_when_true [simp]:
  "map_of (when_true b k') k = (if b \<and> k = k' then Some (QText (ascii ''true'')) else None)"
  by (simp add: when_true_def)

lemma map_of_when_words [simp]: "map_of (when_words ws k') k = (if ws \<noteq> [] \<and> k = k' then Some (QWords ws) else None)"
  by (simp add: when_words_def)

lemma map_of_loaded: "map_of (loaded_quirks read quirks) (ascii k) = map_option (\<lambda>v. read (quirk_text v)) (map_of quirks k)"
  by (induction quirks) (auto simp: loaded_quirks_def ascii_inj)

lemma quirk_lookup:
  "map_of (quirk_dict c) ''requires-specific-host-header'' = (if c_specific_host c then Some (QText (ascii ''true'')) else None)"
  "map_of (quirk_dict c) ''allows-http-0-9'' = (if c_http_0_9 c then Some (QText (ascii ''true'')) else None)"
  "map_of (quirk_dict c) ''allows-http-2'' = (if c_http_2 c then Some (QText (ascii ''true'')) else None)"
  "map_of (quirk_dict c) ''doesnt-support-version'' = (if c_version c then Some (QText (ascii ''true'')) else None)"
  "map_of (quirk_dict c) ''allows-missing-host-header'' = (if c_missing_host c then Some (QText (ascii ''true'')) else None)"
  "map_of (quirk_dict c) ''requires-length-in-post'' = (if c_length c then Some (QText (ascii ''true'')) else None)"
  "map_of (quirk_dict c) ''doesnt-support-persistence'' = (if c_persistence c then Some (QText (ascii ''true'')) else None)"
  "map_of (quirk_dict c) ''joins-duplicate-headers'' = (if c_joiner c \<noteq> None then Some (QText (ascii ''true'')) else None)"
  "map_of (quirk_dict c) ''duplicate-header-joiner'' = map_option (\<lambda>j. QText (in_quotes j)) (c_joiner c)"
  "map_of (quirk_dict c) ''method-whitelist'' = map_option QWords (c_whitelist c)"
  "map_of (quirk_dict c) ''method-character-blacklist'' =
     (if c_whitelist c = None \<and> c_blacklist c \<noteq> [] then Some (QText (in_quotes (c_blacklist c))) else None)"
  "map_of (quirk_dict c) ''header-name-translation'' = (if c_translation c \<noteq> [] then Some (QTable (c_translation c)) else None)"
  "map_of (quirk_dict c) ''added-headers'' = (if c_added c \<noteq> [] then Some (QWords (c_added c)) else None)"
  "map_of (quirk_dict c) ''removed-headers'' = (if c_removed c \<noteq> [] then Some (QWords (c_removed c)) else None)"
  "map_of (quirk_dict c) ''trashed-headers'' = (if c_trashed c \<noteq> [] then Some (QWords (c_trashed c)) else None)"
  by (cases "c_whitelist c"; cases "c_joiner c"; simp add: quirk_dict_def map_add_def)+



section \<open>What a server is loaded with\<close>

lemma encoded_all_texts [simp]: "encoded_all (map YText ws) = Some ws"
  by (induction ws) simp_all

lemma encoded_table_texts [simp]: "encoded_table (YDict (map (\<lambda>(k, v). (k, YText v)) kvs)) = Some kvs"
proof -
  have "map snd (map (\<lambda>(k, v). (k, YText v)) kvs) = map YText (map snd kvs)"
    "map fst (map (\<lambda>(k, v). (k, YText v)) kvs) = map fst kvs"
    by (induction kvs) auto
  then show ?thesis by (simp only: encoded_table.simps encoded_all_texts option.map zip_map_fst_snd)
qed

lemma loaded_flags:
  assumes "reads_quirks read" and "map_of (quirk_dict c) k = (if b then Some (QText (ascii ''true'')) else None)"
  shows "flag (loaded_quirks read (quirk_dict c)) k = b"
  using assms by (simp add: flag_def map_of_loaded reads_quirks_def)

lemma loaded_words:
  assumes "reads_quirks read" and "map_of (quirk_dict c) k = (if ws \<noteq> [] then Some (QWords ws) else None)" and "list_all plain_text ws"
  shows "words (loaded_quirks read (quirk_dict c)) k = Some ws"
  using assms by (simp add: words_def map_of_loaded reads_quirks_def del: quirk_text.simps)

lemma loaded_text:
  assumes "reads_quirks read" and "map_of (quirk_dict c) k = map_option (\<lambda>t. QText (in_quotes t)) t" and "(case t of None \<Rightarrow> True | Some j \<Rightarrow> quotable j)"
  shows "text_of (loaded_quirks read (quirk_dict c)) k = Some (case t of None \<Rightarrow> [] | Some t \<Rightarrow> t)"
  using assms by (cases t) (simp_all add: text_of_def map_of_loaded reads_quirks_def)

lemma loaded_server:
  assumes reads: "reads_quirks read" and c: "printable_conclusions c" and p: "service_port x_props = Some p"
  shows "make_server n a x_props (loaded_quirks read (quirk_dict c)) =
    Some \<lparr>role = service_role x_props, name = n, address = a, port = p, requires_tls = flag x_props ''requires-tls'',
      allows_http_0_9 = c_http_0_9 c, allows_http_2 = c_http_2 c, added_headers = c_added c,
      requires_length_in_post = c_length c, allows_missing_host_header = c_missing_host c,
      header_name_translation = c_translation c, doesnt_support_version = c_version c,
      method_character_blacklist = (if c_whitelist c = None then c_blacklist c else []),
      method_whitelist = (if c_whitelist c = Some [] then None else c_whitelist c),
      removed_headers = c_removed c, trashed_headers = c_trashed c, doesnt_support_persistence = c_persistence c,
      requires_specific_host_header = c_specific_host c, joins_duplicate_headers = (c_joiner c \<noteq> None),
      duplicate_header_joiner = (case c_joiner c of None \<Rightarrow> [] | Some j \<Rightarrow> j)\<rparr>"
proof -
  let ?d = "loaded_quirks read (quirk_dict c)"
  note flags = quirk_lookup(1-8) [THEN loaded_flags [OF reads]]
  have plain: "list_all plain_text (c_added c)" "list_all plain_text (c_removed c)" "list_all plain_text (c_trashed c)"
    "(case c_whitelist c of None \<Rightarrow> True | Some ms \<Rightarrow> list_all plain_text ms)" "quotable (c_blacklist c)" "(case c_joiner c of None \<Rightarrow> True | Some j \<Rightarrow> quotable j)"
    using c by (simp_all add: printable_conclusions_def)
  note some_words = loaded_words [OF reads quirk_lookup(13) plain(1)] loaded_words [OF reads quirk_lookup(14) plain(2)]
    loaded_words [OF reads quirk_lookup(15) plain(3)]
  have whitelist: "words ?d ''method-whitelist'' = Some (case c_whitelist c of None \<Rightarrow> [] | Some ms \<Rightarrow> ms)"
    using plain(4) reads by (cases "c_whitelist c")
      (simp_all add: words_def map_of_loaded quirk_lookup(10) reads_quirks_def del: quirk_text.simps)
  have blacklist: "text_of ?d ''method-character-blacklist'' = Some (if c_whitelist c = None then c_blacklist c else [])"
    using loaded_text [OF reads, of c _ "if c_whitelist c = None \<and> c_blacklist c \<noteq> [] then Some (c_blacklist c) else None"] plain(5)
    by (auto simp: quirk_lookup(11) split: if_splits)
  have translation: "table_of ?d ''header-name-translation'' = Some (c_translation c)"
    using c reads by (simp add: table_of_def map_of_loaded quirk_lookup(12) reads_quirks_def printable_conclusions_def
        del: quirk_text.simps encoded_table.simps)
  show ?thesis
    unfolding make_server_def
    by (simp add: p flags some_words whitelist blacklist translation loaded_text [OF reads quirk_lookup(9) plain(6)]
        split: option.split)
qed

section \<open>A reader\<close>

text \<open>The texts between single quotes, and a reader that only knows them, the word \<open>true\<close> and double quotes.\<close>

function quoted_texts :: "bytes \<Rightarrow> bytes list" where
  "quoted_texts bs =
     (case dropWhile (\<lambda>c. c \<noteq> 0x27) bs of
        [] \<Rightarrow> []
      | q # rest \<Rightarrow> takeWhile (\<lambda>c. c \<noteq> 0x27) rest # quoted_texts (drop 1 (dropWhile (\<lambda>c. c \<noteq> 0x27) rest)))"
  by pat_completeness auto
termination
proof (relation "measure length")
  fix bs rest :: bytes and q
  assume "dropWhile (\<lambda>c. c \<noteq> 0x27) bs = q # rest"
  then have "length rest < length bs"
    using length_dropWhile_le [of "\<lambda>c. c \<noteq> 0x27" bs] by simp
  then show "(drop 1 (dropWhile (\<lambda>c. c \<noteq> 0x27) rest), bs) \<in> measure length"
    using length_dropWhile_le [of "\<lambda>c. c \<noteq> 0x27" rest] by simp
qed simp

declare quoted_texts.simps [simp del]

fun text_pairs :: "bytes list \<Rightarrow> (bytes \<times> yaml) list" where
  "text_pairs (k # v # ts) = (k, YText v) # text_pairs ts"
| "text_pairs ts = []"

fun example_reader :: "bytes \<Rightarrow> yaml" where
  "example_reader [] = YText []"
| "example_reader (b # bs) =
     (if b = 0x22 then YText (butlast bs)
      else if b = 0x5B then YList (map YText (quoted_texts bs))
      else if b = 0x7B then YDict (text_pairs (quoted_texts bs))
      else if b # bs = ascii ''true'' then YBool True else YText (b # bs))"

lemma quoted_texts_none: "0x27 \<notin> set bs \<Longrightarrow> quoted_texts (bs @ rest) = quoted_texts rest"
  by (subst (1 2) quoted_texts.simps, subst dropWhile_append2) auto

lemma quoted_texts_quote: "0x27 \<notin> set t \<Longrightarrow> quoted_texts (0x27 # t @ 0x27 # rest) = t # quoted_texts rest"
proof -
  assume t: "0x27 \<notin> set t"
  then have "takeWhile (\<lambda>c. c \<noteq> 0x27) (t @ 0x27 # rest) = t" "dropWhile (\<lambda>c. c \<noteq> 0x27) (t @ 0x27 # rest) = 0x27 # rest"
    by (subst takeWhile_append2 dropWhile_append2; auto)+
  then show ?thesis by (simp add: quoted_texts.simps [of "0x27 # t @ 0x27 # rest"])
qed

lemma quoted_texts_Nil [simp]: "quoted_texts [] = []"
  by (simp add: quoted_texts.simps)

lemma quoted_texts_join:
  assumes "\<And>x rest. x \<in> set xs \<Longrightarrow> quoted_texts (item x @ rest) = texts x @ quoted_texts rest" and "0x27 \<notin> set sep"
  shows "quoted_texts (bytes_join sep (map item xs) @ rest) = concat (map texts xs) @ quoted_texts rest"
  using assms(1)
proof (induction xs)
  case (Cons x xs)
  then have IH: "quoted_texts (bytes_join sep (map item xs) @ rest) = concat (map texts xs) @ quoted_texts rest"
    and x: "quoted_texts (item x @ r) = texts x @ quoted_texts r" for r
    by simp_all
  show ?case
  proof (cases xs)
    case (Cons y ys)
    then have "bytes_join sep (map item (x # xs)) @ rest = item x @ sep @ bytes_join sep (map item xs) @ rest" by simp
    then show ?thesis using x IH quoted_texts_none [OF assms(2)] by simp
  qed (simp add: x)
qed simp

lemma repr_plain: "plain_text t \<Longrightarrow> repr_text t = 0x27 # t @ [0x27]"
proof -
  assume t: "plain_text t"
  have "repr_char 0x27 c = [c]" if "c \<in> set t" for c
  proof -
    from t that have c: "0x20 \<le> c" "c \<le> 0x7E" "c \<noteq> 0x5C" "c \<noteq> 0x27"
      by (auto simp: plain_text_def quotable_def list_all_iff)
    from c(1) have "\<not> c < 0x20" "c \<noteq> 0x09" "c \<noteq> LF" "c \<noteq> CR" by (auto simp: not_less)
    moreover have "\<not> 0x7F \<le> c" using c(2) le_less_trans [of c "0x7E" "0x7F"] by (simp add: not_le)
    moreover have "c \<noteq> 0xAD" using c(2) by auto
    ultimately show ?thesis using c by (simp add: repr_char_def)
  qed
  then have "concat (map (repr_char 0x27) t) = t"
    by (induction t) simp_all
  with t show ?thesis by (simp add: repr_text_def plain_text_def)
qed

lemma example_reader_reads: "reads_quirks example_reader"
proof -
  have word: "quoted_texts (repr_text w @ rest) = [w] @ quoted_texts rest" if "plain_text w" for w rest
    using that quoted_texts_quote [of w rest] by (simp add: repr_plain plain_text_def)
  have words: "quoted_texts (bytes_join (ascii '', '') (map repr_text ws) @ ascii '']'') = ws" if "list_all plain_text ws" for ws
  proof -
    have "quoted_texts (bytes_join (ascii '', '') (map repr_text ws) @ ascii '']'') =
        concat (map (\<lambda>w. [w]) ws) @ quoted_texts (ascii '']'')"
      using that word by (intro quoted_texts_join) (auto simp: list_all_iff ascii_def)
    then show ?thesis by (simp add: quoted_texts.simps ascii_def)
  qed
  have pair: "quoted_texts ((\<lambda>(k, v). repr_text k @ ascii '': '' @ repr_text v) kv @ rest) = [fst kv, snd kv] @ quoted_texts rest"
    if "plain_text (fst kv)" "plain_text (snd kv)" for kv rest
    using word [OF that(1)] word [OF that(2)] quoted_texts_none [of "ascii '': ''"]
    by (simp add: case_prod_unfold ascii_def)
  have pairs: "text_pairs (quoted_texts (bytes_join (ascii '', '') (map (\<lambda>(k, v). repr_text k @ ascii '': '' @ repr_text v) kvs) @ ascii ''}'')) =
      map (\<lambda>(k, v). (k, YText v)) kvs" if "list_all (\<lambda>(k, v). plain_text k \<and> plain_text v) kvs" for kvs
  proof -
    have "quoted_texts (bytes_join (ascii '', '') (map (\<lambda>(k, v). repr_text k @ ascii '': '' @ repr_text v) kvs) @ ascii ''}'') =
        concat (map (\<lambda>kv. [fst kv, snd kv]) kvs) @ quoted_texts (ascii ''}'')"
      using that pair by (intro quoted_texts_join) (auto simp: list_all_iff ascii_def)
    moreover have "quoted_texts (ascii ''}'') = []" by (simp add: quoted_texts.simps ascii_def)
    moreover have "text_pairs (concat (map (\<lambda>kv. [fst kv, snd kv]) kvs)) = map (\<lambda>(k, v). (k, YText v)) kvs"
      by (induction kvs) auto
    ultimately show ?thesis by simp
  qed
  have "example_reader (ascii ''['' @ bs) = YList (map YText (quoted_texts bs))"
    "example_reader (ascii ''{'' @ bs) = YDict (text_pairs (quoted_texts bs))"
    "example_reader (in_quotes bs) = YText bs" "example_reader (ascii ''true'') = YBool True" for bs
    by (simp_all add: ascii_def in_quotes_def)
  with words pairs show ?thesis
    by (simp add: reads_quirks_def)
qed

section \<open>What is lost\<close>

text \<open>The line of an empty whitelist is printed, but \<open>[] or None\<close> is \<open>None\<close>: every method counts as allowed.\<close>

lemma empty_whitelist_is_lost:
  assumes "reads_quirks read" and "printable_conclusions c" and "service_port x_props = Some p" and "c_whitelist c = Some []"
  shows "map_option method_whitelist (make_server svc a x_props (loaded_quirks read (quirk_dict c))) = Some None"
  using loaded_server [OF assms(1-3), of svc a] assms(4) by simp

text \<open>The line \<open>requires-alphabetical-method\<close> is printed, but not read.\<close>

lemma alphabetical_method_is_lost:
  assumes "reads_quirks read" and "printable_conclusions c" and "service_port x_props = Some p"
  shows "make_server svc a x_props (loaded_quirks read (quirk_dict (c\<lparr>c_alphabetical := b\<rparr>))) =
    make_server svc a x_props (loaded_quirks read (quirk_dict c))"
proof -
  have "printable_conclusions (c\<lparr>c_alphabetical := b\<rparr>)"
    using assms(2) by (simp add: printable_conclusions_def)
  from loaded_server [OF assms(1) this assms(3)] loaded_server [OF assms] show ?thesis by simp
qed

section \<open>Properties\<close>


text \<open>A server that answers every request with one.\<close>

definition agreeable_server :: probed where
  "agreeable_server = silent_server\<lparr>parsed := \<lambda>n data. Inr [ParsedRequest example_reported]\<rparr>"

lemma agreeable_diagnosis:
  "case conclude remdups agreeable_server 0 of (Inl e, n) \<Rightarrow> False
     | (Inr c, n) \<Rightarrow> printable_conclusions c \<and> c_removed c \<noteq> [] \<and> c_missing_host c \<and> n < 60"
  by code_simp


end
