(* ===== verification/ComposeFile.thy ===== *)
theory ComposeFile
  imports Services ReplFrames Http1Json
begin

text \<open>
  \<open>tools/update.py\<close>, which brings the hashes of commits in \<open>docker-compose.yml\<close> up to date, and
  \<open>tools/generate_readme_tables.py\<close>, which lists its servers. The loaded file and the output of \<open>git ls-remote\<close> are
  arguments. The lemmas show which hash is found in a listing, and what an update changes.
\<close>

section \<open>The head of a branch in a listing\<close>

text \<open>\<open>re.findall\<close> for a pattern that never matches the empty string, giving one group of each match.\<close>

function find_all :: "string \<Rightarrow> regex \<Rightarrow> bytes \<Rightarrow> bytes list" where
  "find_all x r s =
     (case re_search r s of
        None \<Rightarrow> []
      | Some (i, cs, t) \<Rightarrow> if length t < length s then the (group cs x) # find_all x r t else [])"
  by pat_completeness auto
termination
  by (relation "measure (\<lambda>(x, r, s). length s)") auto

declare find_all.simps [simp del]

text \<open>The name of a branch inside the pattern, where it is not escaped: a dot is any character but a newline.
  Other special characters are not modelled.\<close>

definition special_chars :: bytes where
  "special_chars = ascii ''^$*+?{}[]|()'' @ [0x5C]"

definition branch_char :: "byte \<Rightarrow> byte \<Rightarrow> bool" where
  "branch_char c b \<longleftrightarrow> (if c = of_char (CHR ''.'') then not_newline b else b = c)"

definition branch_re :: "bytes \<Rightarrow> regex option" where
  "branch_re branch =
     (if list_ex (\<lambda>c. c \<in> set special_chars) branch then None else Some (Cat (map (\<lambda>c. Class (branch_char c)) branch)))"

definition head_re :: "regex \<Rightarrow> regex list" where
  "head_re branch = [Named ''hash'' (Many1 is_hex_digit), Many1 str_space, lit ''refs/heads/'', branch, Class (\<lambda>b. b = LF)]"

text \<open>\<open>(?:\A|\n)\<close> in front: the first alternative at the start of the output only, the second one everywhere.\<close>

definition branch_heads :: "regex \<Rightarrow> bytes \<Rightarrow> bytes list" where
  "branch_heads branch output =
     (case re_match (Cat (head_re branch)) output of
        Some (cs, t) \<Rightarrow> the (group cs ''hash'') # find_all ''hash'' (Cat (Class (\<lambda>b. b = LF) # head_re branch)) t
      | None \<Rightarrow> find_all ''hash'' (Cat (Class (\<lambda>b. b = LF) # head_re branch)) output)"

section \<open>\<open>update.py\<close>\<close>

text \<open>How the script can end early: a key that is missing, a value of a type it does not expect, a failing \<open>git\<close>, a number
  of matching branches other than one. \<open>Unmodelled\<close> is a value whose text, or a branch whose pattern, is not in the model.\<close>

datatype update_error = MissingKey bytes | UnexpectedType | GitFailed | BranchesNotFound bytes | Unmodelled

definition get_key :: "yaml_dict \<Rightarrow> bytes \<Rightarrow> update_error + yaml" where
  "get_key d k = (case map_of d k of None \<Rightarrow> Inl (MissingKey k) | Some v \<Rightarrow> Inr v)"

fun set_key :: "('a \<times> 'b) list \<Rightarrow> 'a \<Rightarrow> 'b \<Rightarrow> ('a \<times> 'b) list" where
  "set_key [] k v = [(k, v)]"
| "set_key ((k', v') # d) k v = (if k' = k then (k, v) # d else (k', v') # set_key d k v)"

text \<open>\<open>"args" in build\<close>.\<close>

fun has_key :: "yaml \<Rightarrow> bytes \<Rightarrow> update_error + bool" where
  "has_key (YDict d) k = Inr (map_of d k \<noteq> None)"
| "has_key (YList vs) k = Inr (YText k \<in> set vs)"
| "has_key (YText t) k = Inr (bytes_find k t \<noteq> None)"
| "has_key v k = Inl UnexpectedType"

text \<open>A value in an f-string.\<close>

fun formatted :: "yaml \<Rightarrow> bytes option" where
  "formatted (YText t) = Some t"
| "formatted (YFloat t) = Some t"
| "formatted (YInt n) = Some ((if n < 0 then ascii ''-'' else []) @ decimal (nat \<bar>n\<bar>))"
| "formatted (YBool b) = Some (ascii (if b then ''True'' else ''False''))"
| "formatted v = None"

definition REPO :: bytes where
  "REPO = ascii ''_REPO''"

definition BRANCH :: bytes where
  "BRANCH = ascii ''_BRANCH''"

definition VERSION :: bytes where
  "VERSION = ascii ''_VERSION''"

definition is_repo :: "bytes \<Rightarrow> bool" where
  "is_repo key \<longleftrightarrow> length REPO \<le> length key \<and> drop (length key - length REPO) key = REPO"

definition key_prefix :: "bytes \<Rightarrow> bytes" where
  "key_prefix key = take (length key - length REPO) key"

text \<open>The loop over a copy of the items of \<open>args\<close>, which it changes.\<close>

fun update_args ::
  "(bytes \<Rightarrow> bytes option) \<Rightarrow> bytes \<Rightarrow> (bytes \<times> yaml) list \<Rightarrow> yaml_dict \<Rightarrow> update_error + yaml_dict" where
  "update_args ls_remote service_name [] args = Inr args"
| "update_args ls_remote service_name ((key, val) # items) args =
     (if is_repo key then
        case val of
          YText repo \<Rightarrow>
            (case ls_remote repo of
               None \<Rightarrow> Inl GitFailed
             | Some output \<Rightarrow>
                 (case get_key args (key_prefix key @ BRANCH) of
                    Inl e \<Rightarrow> Inl e
                  | Inr branch \<Rightarrow>
                      (case formatted branch of
                         None \<Rightarrow> Inl Unmodelled
                       | Some b \<Rightarrow>
                           (case branch_re b of
                              None \<Rightarrow> Inl Unmodelled
                            | Some r \<Rightarrow>
                                (case branch_heads r output of
                                   [the_hash] \<Rightarrow>
                                     update_args ls_remote service_name items
                                       (set_key args (key_prefix key @ VERSION) (YText the_hash))
                                 | _ \<Rightarrow> Inl (BranchesNotFound service_name))))))
        | _ \<Rightarrow> Inl UnexpectedType
      else update_args ls_remote service_name items args)"

text \<open>\<open>"x-props" in service and service["x-props"].get("version_frozen")\<close>.\<close>

definition is_frozen :: "yaml_dict \<Rightarrow> update_error + bool" where
  "is_frozen service =
     (case map_of service (ascii ''x-props'') of
        None \<Rightarrow> Inr False
      | Some (YDict x_props) \<Rightarrow> Inr (flag x_props ''version_frozen'')
      | Some v \<Rightarrow> Inl UnexpectedType)"

definition update_service ::
  "(bytes \<Rightarrow> bytes option) \<Rightarrow> bytes \<Rightarrow> yaml \<Rightarrow> update_error + yaml" where
  "update_service ls_remote service_name service =
     (case service of
        YDict d \<Rightarrow>
          (case get_key d (ascii ''build'') of
             Inl e \<Rightarrow> Inl e
           | Inr build \<Rightarrow>
               (case has_key build (ascii ''args'') of
                  Inl e \<Rightarrow> Inl e
                | Inr has_args \<Rightarrow>
                    if \<not> has_args then Inr service
                    else
                      case is_frozen d of
                        Inl e \<Rightarrow> Inl e
                      | Inr frozen \<Rightarrow>
                          if frozen then Inr service
                          else
                            case build of
                              YDict b \<Rightarrow>
                                (case get_key b (ascii ''args'') of
                                   Inr (YDict args) \<Rightarrow>
                                     map_sum id (\<lambda>args. YDict (set_key d (ascii ''build'') (YDict (set_key b (ascii ''args'') (YDict args)))))
                                       (update_args ls_remote service_name args args)
                                 | _ \<Rightarrow> Inl UnexpectedType)
                            | _ \<Rightarrow> Inl UnexpectedType))
      | _ \<Rightarrow> Inl UnexpectedType)"

fun update_services :: "(bytes \<Rightarrow> bytes option) \<Rightarrow> (bytes \<times> yaml) list \<Rightarrow> update_error + (bytes \<times> yaml) list" where
  "update_services ls_remote [] = Inr []"
| "update_services ls_remote ((service_name, service) # services) =
     (case update_service ls_remote service_name service of
        Inl e \<Rightarrow> Inl e
      | Inr s \<Rightarrow> map_sum id (\<lambda>rest. (service_name, s) # rest) (update_services ls_remote services))"

section \<open>\<open>generate_readme_tables.py\<close>\<close>

text \<open>The rows of the table of a role, without those of services that have no \<open>x-props\<close>. Of a script that ends in an
  error, the lines printed before it are left out.\<close>

definition readme_row :: "string \<Rightarrow> bytes \<Rightarrow> yaml_dict \<Rightarrow> update_error + bytes list" where
  "readme_row the_role service_name props =
     (case map_of props (ascii ''x-props'') of
        None \<Rightarrow> Inr []
      | Some (YDict x_props) \<Rightarrow>
          (case get_key x_props (ascii ''role'') of
             Inl e \<Rightarrow> Inl e
           | Inr r \<Rightarrow>
               if r \<noteq> YText (ascii the_role) then Inr []
               else case get_key props (ascii ''build'') of
                 Inr (YDict build) \<Rightarrow>
                   (case get_key build (ascii ''args'') of
                      Inr (YDict args) \<Rightarrow>
                        (case (case map_of args (ascii ''APP_REPO'') of None \<Rightarrow> Some (ascii ''None'') | Some v \<Rightarrow> formatted v) of
                           None \<Rightarrow> Inl Unmodelled
                         | Some repo \<Rightarrow> Inr [ascii ''| ['' @ service_name @ ascii '']('' @ repo @ ascii '') |''])
                    | Inr v \<Rightarrow> Inl UnexpectedType
                    | Inl e \<Rightarrow> Inl e)
               | Inr v \<Rightarrow> Inl UnexpectedType
               | Inl e \<Rightarrow> Inl e)
      | Some v \<Rightarrow> Inl UnexpectedType)"

fun readme_rows :: "string \<Rightarrow> (bytes \<times> yaml_dict) list \<Rightarrow> update_error + bytes list" where
  "readme_rows the_role [] = Inr []"
| "readme_rows the_role ((service_name, props) # services) =
     (case readme_row the_role service_name props of
        Inl e \<Rightarrow> Inl e
      | Inr rows \<Rightarrow> map_sum id (\<lambda>rest. rows @ rest) (readme_rows the_role services))"

definition readme_tables :: "(bytes \<times> yaml_dict) list \<Rightarrow> update_error + bytes list" where
  "readme_tables services =
     (case readme_rows ''origin'' services of
        Inl e \<Rightarrow> Inl e
      | Inr servers \<Rightarrow>
          map_sum id (\<lambda>transducers.
              [ascii ''### HTTP Servers'', ascii ''|-|''] @ servers @ [[], ascii ''### HTTP Transducers'', ascii ''|-|''] @ transducers)
            (readme_rows ''transducer'' services))"

section \<open>Ways to match a line\<close>

lemma runs_classes:
  "runs (Cat (Cat (map Class ps) # rs)) s =
    (if list_all2 (\<lambda>p c. p c) ps (take (length ps) s) then runs (Cat rs) (drop (length ps) s) else [])"
proof -
  have "runs (Cat (map Class ps)) s =
      (if list_all2 (\<lambda>p c. p c) ps (take (length ps) s) then [([], drop (length ps) s)] else [])"
  proof (induction ps arbitrary: s)
    case (Cons p ps)
    then show ?case by (cases s) auto
  qed simp
  then show ?thesis by simp
qed

lemma lit_classes: "lit s = Cat (map Class (map (\<lambda>c b. b = of_char c) s))"
  by (simp add: lit_def one_def comp_def)

text \<open>Classes that end where the line ends.\<close>

lemma classes_end_line:
  assumes "LF \<notin> set r" and "\<And>p. p \<in> set ps \<Longrightarrow> \<not> p LF"
  shows "runs (Cat [Cat (map Class ps), Class (\<lambda>b. b = LF)]) (r @ LF # rest) =
    (if list_all2 (\<lambda>p c. p c) ps r then [([], rest)] else [])"
proof -
  have "runs (Cat [Class (\<lambda>b. b = LF)]) (drop (length ps) (r @ LF # rest)) =
      (if length ps = length r then [([], rest)] else [])" if "length ps \<le> length r"
  proof (cases "drop (length ps) r")
    case (Cons c t)
    then have "c \<in> set r" by (metis in_set_dropD list.set_intros(1))
    with assms(1) have "c \<noteq> LF" by blast
    moreover have "length ps \<noteq> length r" using Cons by auto
    ultimately show ?thesis using that Cons by simp
  qed (use that in simp)
  moreover have "\<not> list_all2 (\<lambda>p c. p c) ps (take (length ps) (r @ LF # rest))" if "length r < length ps"
  proof
    assume "list_all2 (\<lambda>p c. p c) ps (take (length ps) (r @ LF # rest))"
    then have "(ps ! length r) (take (length ps) (r @ LF # rest) ! length r)"
      using that by (rule list_all2_nthD)
    then have "(ps ! length r) LF" using that by (simp add: nth_append)
    moreover have "ps ! length r \<in> set ps" using that by simp
    ultimately show False using assms(2) by blast
  qed
  moreover have "length ps = length r" if "list_all2 (\<lambda>p c. p c) ps r"
    using that by (rule list_all2_lengthD)
  ultimately show ?thesis
    unfolding runs_classes by (cases "length r < length ps"; cases "length ps = length r") auto
qed

definition ref_pattern :: "bytes \<Rightarrow> (byte \<Rightarrow> bool) list" where
  "ref_pattern branch = map (\<lambda>c b. b = of_char c) ''refs/heads/'' @ map branch_char branch"

definition ref_matches :: "bytes \<Rightarrow> bytes \<Rightarrow> bool" where
  "ref_matches branch r \<longleftrightarrow> list_all2 (\<lambda>p c. p c) (ref_pattern branch) r"

lemma ref_pattern_no_newline:
  assumes "LF \<notin> set branch" and "p \<in> set (ref_pattern branch)"
  shows "\<not> p LF"
proof -
  consider c where "c \<in> set ''refs/heads/''" and "p = (\<lambda>b. b = of_char c)" | c where "c \<in> set branch" and "p = branch_char c"
    using assms(2) unfolding ref_pattern_def set_append set_map by blast
  then show ?thesis
  proof cases
    case 1
    have "list_all (\<lambda>c. of_char c \<noteq> LF) ''refs/heads/''" by simp
    then have "of_char c \<noteq> LF" using 1(1) unfolding list_all_iff by blast
    with 1(2) show ?thesis by metis
  next
    case 2
    with assms(1) have "LF \<noteq> c" by blast
    with 2 show ?thesis by (simp add: branch_char_def not_newline_def)
  qed
qed

lemma runs_two_classes:
  "runs (Cat (Cat (map Class ps) # Cat (map Class qs) # rs)) s = runs (Cat (Cat (map Class (ps @ qs)) # rs)) s"
proof -
  have "list_all2 (\<lambda>p c. p c) (ps @ qs) (take (length ps + length qs) s) \<longleftrightarrow>
      list_all2 (\<lambda>p c. p c) ps (take (length ps) s) \<and>
      list_all2 (\<lambda>p c. p c) qs (take (length qs) (drop (length ps) s))"
  proof (cases "length ps \<le> length s")
    case True
    then show ?thesis by (simp add: take_add list_all2_append)
  next
    case False
    then have "length (take (length ps + length qs) s) \<noteq> length (ps @ qs)" and "length (take (length ps) s) \<noteq> length ps"
      by auto
    then show ?thesis by (metis list_all2_lengthD)
  qed
  then show ?thesis unfolding runs_classes by (simp add: add.commute)
qed

abbreviation TAB :: byte where "TAB \<equiv> 0x09"

text \<open>A line of \<open>git ls-remote\<close>: a hash in hexadecimal and the name of a reference, which has no blanks.\<close>

definition listed :: "bytes \<times> bytes \<Rightarrow> bool" where
  "listed l \<longleftrightarrow> fst l \<noteq> [] \<and> list_all is_hex_digit (fst l) \<and> snd l \<noteq> [] \<and> list_all (\<lambda>c. \<not> str_space c) (snd l)"

fun listing :: "(bytes \<times> bytes) list \<Rightarrow> bytes" where
  "listing [] = []"
| "listing ((h, r) # ls) = h @ TAB # r @ LF # listing ls"

lemma hex_not_space: "is_hex_digit c \<Longrightarrow> \<not> str_space c"
  unfolding is_hex_digit_def str_space_def by (auto simp: word_le_nat_alt)

lemma space_run:
  assumes "r \<noteq> []" and "list_all (\<lambda>c. \<not> str_space c) r"
  shows "runs (Cat (Many1 str_space # rs)) (TAB # r @ rest) = runs (Cat rs) (r @ rest)"
proof -
  obtain c t where "r = c # t" using assms(1) by (cases r) auto
  moreover have "str_space TAB" by code_simp
  ultimately have "takeWhile str_space (TAB # r @ rest) = [TAB]" using assms(2) by simp
  then have "runs (Many1 str_space) (TAB # r @ rest) = [([], r @ rest)]" by (simp add: runs.simps)
  then show ?thesis by simp
qed

lemma no_space_run: "\<not> str_space c \<Longrightarrow> runs (Cat (Many1 str_space # rs)) (c # s) = []"
  by (simp add: runs.simps)

text \<open>The digits of the hash, of which only the longest run is followed by a blank.\<close>

lemma hash_run:
  assumes "h \<noteq> []" and "list_all is_hex_digit h" and "runs (Cat rs) (TAB # s) = out"
    and "\<And>c t. is_hex_digit c \<Longrightarrow> runs (Cat rs) (c # t) = []"
  shows "runs (Cat (Named x (Many1 is_hex_digit) # rs)) (h @ TAB # s) = map (\<lambda>(cs, t). ((x, h) # cs, t)) out"
proof -
  let ?s = "h @ TAB # s" and ?n = "length h"
  let ?f = "\<lambda>k. map (\<lambda>(cs, t). ((x, take (length ?s - length (drop k ?s)) ?s) # cs, t)) (runs (Cat rs) (drop k ?s))"
  have "\<not> is_hex_digit TAB" by code_simp
  with assms(2) have "takeWhile is_hex_digit ?s = h" by (simp add: list_all_iff takeWhile_append2)
  then have "runs (Cat (Named x (Many1 is_hex_digit) # rs)) ?s = concat (map ?f (rev [1..<Suc ?n]))"
    by (simp add: runs.simps comp_def)
  also have "rev [1..<Suc ?n] = ?n # rev [1..<?n]" using assms(1) by (cases h) auto
  also have "concat (map ?f (?n # rev [1..<?n])) = ?f ?n @ concat (map ?f (rev [1..<?n]))" by simp
  also have "concat (map ?f (rev [1..<?n])) = []"
  proof -
    have "runs (Cat rs) (drop k ?s) = []" if "k < ?n" for k
    proof -
      have "drop k ?s = h ! k # drop (Suc k) h @ TAB # s" using that by (simp add: Cons_nth_drop_Suc [symmetric])
      moreover have "is_hex_digit (h ! k)" using assms(2) that by (simp add: list_all_length)
      ultimately show ?thesis using assms(4) by simp
    qed
    then show ?thesis by simp
  qed
  finally show ?thesis using assms(3) by (simp add: case_prod_unfold)
qed

definition classes_re :: "bytes \<Rightarrow> regex" where
  "classes_re branch = Cat (map Class (map branch_char branch))"

lemma ls_line_run:
  assumes "listed (h, r)" and "LF \<notin> set branch"
  shows "runs (Cat (head_re (classes_re branch))) (h @ TAB # r @ LF # rest) =
    (if ref_matches branch r then [([(''hash'', h)], rest)] else [])"
proof -
  let ?rs = "[lit ''refs/heads/'', classes_re branch, Class (\<lambda>b. b = LF)]"
  have h: "h \<noteq> []" "list_all is_hex_digit h" and r: "r \<noteq> []" "list_all (\<lambda>c. \<not> str_space c) r"
    using assms(1) unfolding listed_def by simp_all
  have "LF \<notin> set r" using r(2) unfolding list_all_iff by (auto simp: str_space_def word_le_nat_alt)
  then have "runs (Cat ?rs) (r @ LF # rest) = (if ref_matches branch r then [([], rest)] else [])"
    unfolding lit_classes classes_re_def runs_two_classes ref_matches_def ref_pattern_def [symmetric]
    using ref_pattern_no_newline [OF assms(2)] by (rule classes_end_line)
  then have "runs (Cat (Many1 str_space # ?rs)) (TAB # r @ LF # rest) = (if ref_matches branch r then [([], rest)] else [])"
    unfolding space_run [OF r] .
  from hash_run [OF h this no_space_run [OF hex_not_space]] show ?thesis
    by (simp add: head_re_def split: if_splits)
qed

lemma head_re_needs_a_digit: "runs (Cat (head_re r)) [] = []"
  by (simp add: head_re_def runs.simps)

lemma find_all_None: "re_search r s = None \<Longrightarrow> find_all x r s = []"
  by (subst find_all.simps) simp

lemma find_all_Some:
  "re_search r s = Some (i, cs, t) \<Longrightarrow> length t < length s \<Longrightarrow> find_all x r s = the (group cs x) # find_all x r t"
  by (subst find_all.simps) simp

text \<open>A pattern that starts with a newline is looked for after the end of the line.\<close>

lemma newline_match_shorter:
  assumes "re_match (Cat (Class p # rs)) s = Some (cs, t)"
  shows "length t < length s"
proof (cases s)
  case Nil
  with assms show ?thesis by (simp add: re_match_def)
next
  case (Cons c u)
  with assms have "re_match (Cat rs) u = Some (cs, t)"
    by (auto simp: re_match_def comp_def case_prod_unfold split: if_splits list.splits)
  then have "length t \<le> length u" by (rule re_match_length)
  with Cons show ?thesis by simp
qed

lemma newline_search_shorter:
  "re_search (Cat (Class p # rs)) s = Some (i, cs, t) \<Longrightarrow> length t < length s"
proof (induction s arbitrary: i)
  case Nil
  then show ?case by (simp add: re_search.simps re_match_def)
next
  case (Cons c s)
  show ?case
  proof (cases "re_match (Cat (Class p # rs)) (c # s)")
    case None
    from Cons.prems have "\<exists>j. re_search (Cat (Class p # rs)) s = Some (j, cs, t)"
      unfolding re_search_next [OF None] by auto
    then show ?thesis using Cons.IH by fastforce
  next
    case (Some m)
    obtain ds u where m: "m = (ds, u)" by (metis prod.collapse)
    with Some have "re_match (Cat (Class p # rs)) (c # s) = Some (ds, u)" by simp
    with Cons.prems re_search_here [OF this] show ?thesis using newline_match_shorter by fastforce
  qed
qed

lemma find_all_next:
  assumes "re_match (Cat (Class p # rs)) (c # s) = None"
  shows "find_all x (Cat (Class p # rs)) (c # s) = find_all x (Cat (Class p # rs)) s"
proof (cases "re_search (Cat (Class p # rs)) s")
  case None
  with re_search_next [OF assms] show ?thesis by (simp add: find_all_None)
next
  case (Some m)
  obtain i cs t where m: "m = (i, cs, t)" by (metis prod.collapse)
  then have here: "re_search (Cat (Class p # rs)) s = Some (i, cs, t)" using Some by simp
  then have "length t < length s" by (rule newline_search_shorter)
  moreover have "re_search (Cat (Class p # rs)) (c # s) = Some (Suc i, cs, t)" using re_search_next [OF assms] here by simp
  ultimately show ?thesis using find_all_Some [OF here] by (simp add: find_all_Some)
qed

lemma find_all_skips_line:
  "LF \<notin> set w \<Longrightarrow>
    find_all x (Cat (Class (\<lambda>b. b = LF) # rs)) (w @ s) = find_all x (Cat (Class (\<lambda>b. b = LF) # rs)) s"
proof (induction w)
  case (Cons c w)
  then have "re_match (Cat (Class (\<lambda>b. b = LF) # rs)) (c # w @ s) = None" by (simp add: re_match_None)
  from find_all_next [OF this] Cons show ?case by simp
qed simp

text \<open>The hashes that are found. The newline behind a match is part of it, so the line after it is not looked at.\<close>

fun heads :: "bytes \<Rightarrow> (bytes \<times> bytes) list \<Rightarrow> bytes list" where
  "heads branch [] = []"
| "heads branch ((h, r) # ls) = (if ref_matches branch r then h # heads branch (drop 1 ls) else heads branch ls)"

definition line_re :: "bytes \<Rightarrow> regex" where
  "line_re branch = Cat (Class (\<lambda>b. b = LF) # head_re (classes_re branch))"

lemma line_match:
  assumes "listed (h, r)" and "LF \<notin> set branch"
  shows "re_match (line_re branch) (LF # h @ TAB # r @ LF # rest) =
      (if ref_matches branch r then Some ([(''hash'', h)], rest) else None)"
    and "re_match (Cat (head_re (classes_re branch))) (h @ TAB # r @ LF # rest) =
      (if ref_matches branch r then Some ([(''hash'', h)], rest) else None)"
  using ls_line_run [OF assms, of rest] by (simp_all add: re_match_def line_re_def)

lemma listed_no_newline:
  assumes "listed (h, r)"
  shows "LF \<notin> set (h @ TAB # r)"
proof -
  have "str_space LF" and "LF \<noteq> TAB" and "\<not> is_hex_digit LF" by code_simp+
  with assms show ?thesis unfolding listed_def list_all_iff by auto
qed

lemma find_all_listing_tail:
  assumes "list_all listed ls"
  shows "find_all x (line_re branch) (listing ls) = find_all x (line_re branch) (LF # listing (drop 1 ls))"
proof (cases ls)
  case Nil
  have "re_match (line_re branch) [LF] = None" by (simp add: re_match_None line_re_def head_re_needs_a_digit)
  then show ?thesis using Nil unfolding line_re_def by (simp add: find_all_next)
next
  case (Cons l ls')
  obtain h r where "l = (h, r)" by (metis prod.collapse)
  with Cons assms have "listed (h, r)" by simp
  then have "LF \<notin> set (h @ TAB # r)" by (rule listed_no_newline)
  from find_all_skips_line [OF this] Cons \<open>l = (h, r)\<close> show ?thesis by (simp add: line_re_def)
qed

lemma find_all_listing:
  "list_all listed ls \<Longrightarrow> LF \<notin> set branch \<Longrightarrow>
    find_all ''hash'' (line_re branch) (LF # listing ls) = heads branch ls"
proof (induction branch ls rule: heads.induct)
  case (1 branch)
  then show ?case using find_all_listing_tail [of "[]" "''hash''" branch]
    by (simp add: find_all_None re_search.simps re_match_def line_re_def)
next
  case (2 branch h r ls)
  then have l: "listed (h, r)" and ls: "list_all listed ls" by simp_all
  show ?case
  proof (cases "ref_matches branch r")
    case True
    then have "re_match (line_re branch) (LF # listing ((h, r) # ls)) = Some ([(''hash'', h)], listing ls)"
      using line_match(1) [OF l 2(4)] by simp
    from find_all_Some [OF re_search_here [OF this]]
    have "find_all ''hash'' (line_re branch) (LF # listing ((h, r) # ls)) =
        h # find_all ''hash'' (line_re branch) (listing ls)"
      by (simp add: group_def)
    also have "find_all ''hash'' (line_re branch) (listing ls) = heads branch (drop 1 ls)"
      unfolding find_all_listing_tail [OF ls] by (rule 2(1) [OF True _ 2(4)]) (use ls in \<open>cases ls; simp\<close>)
    finally show ?thesis using True by simp
  next
    case False
    then have "re_match (line_re branch) (LF # listing ((h, r) # ls)) = None"
      using line_match(1) [OF l 2(4)] by simp
    then have "find_all ''hash'' (line_re branch) (LF # listing ((h, r) # ls)) =
        find_all ''hash'' (line_re branch) (listing ((h, r) # ls))"
      unfolding line_re_def by (rule find_all_next)
    also have "\<dots> = find_all ''hash'' (line_re branch) (LF # listing ls)"
      using find_all_listing_tail [OF 2(3)] by simp
    also have "\<dots> = heads branch ls" using 2(2) [OF False ls 2(4)] .
    finally show ?thesis using False by simp
  qed
qed

lemma branch_heads_listing:
  assumes "list_all listed ls" and "LF \<notin> set branch"
  shows "branch_heads (classes_re branch) (listing ls) = heads branch ls"
proof (cases ls)
  case Nil
  have "re_match (Cat (head_re (classes_re branch))) [] = None" by (simp add: re_match_None head_re_needs_a_digit)
  then show ?thesis using Nil find_all_listing [OF assms] find_all_listing_tail [OF assms(1), of "''hash''" branch]
    by (simp add: branch_heads_def line_re_def)
next
  case (Cons l ls')
  obtain h r where l: "l = (h, r)" by (metis prod.collapse)
  with Cons assms have ok: "listed (h, r)" and ls': "list_all listed ls'" by simp_all
  have "list_all listed (drop 1 ls')" using ls' by (cases ls') simp_all
  then have tail: "find_all ''hash'' (line_re branch) (listing ls') = heads branch (drop 1 ls')"
    using find_all_listing_tail [OF ls'] find_all_listing [OF _ assms(2)] by simp
  have all: "find_all ''hash'' (line_re branch) (listing ls) = heads branch ls'"
    using find_all_listing_tail [OF assms(1)] find_all_listing [OF ls' assms(2)] Cons by simp
  show ?thesis
    using line_match(2) [OF ok assms(2), of "listing ls'"] tail all Cons l
    by (simp add: branch_heads_def line_re_def group_def)
qed

text \<open>A branch without a dot is looked up by its name.\<close>

definition branch_ref :: "bytes \<Rightarrow> bytes" where
  "branch_ref branch = ascii ''refs/heads/'' @ branch"

lemma ref_matches_plain:
  assumes "of_char (CHR ''.'') \<notin> set branch"
  shows "ref_matches branch r \<longleftrightarrow> r = branch_ref branch"
proof -
  have "map branch_char branch = map (\<lambda>c b. b = c) branch"
    using assms by (intro map_cong refl ext) (auto simp: branch_char_def)
  then have "ref_pattern branch = map (\<lambda>c b. b = c) (branch_ref branch)"
    unfolding ref_pattern_def branch_ref_def ascii_def by (simp add: comp_def)
  moreover have "list_all2 (\<lambda>p c. p c) (map (\<lambda>c b. b = c) w) r \<longleftrightarrow> r = w" for w :: bytes
    unfolding list_all2_map1 by (simp add: list_all2_eq [symmetric] list_all2_conv_all_nth list_eq_iff_nth_eq) metis
  ultimately show ?thesis unfolding ref_matches_def by simp
qed

lemma heads_lookup:
  assumes "of_char (CHR ''.'') \<notin> set branch" and "distinct (map snd ls)"
  shows "heads branch ls = (case map_of (map prod.swap ls) (branch_ref branch) of None \<Rightarrow> [] | Some h \<Rightarrow> [h])"
  using assms
proof (induction branch ls rule: heads.induct)
  case (2 branch h r ls)
  have none: "map_of (map prod.swap ls) r = None" "map_of (map prod.swap (drop 1 ls)) r = None"
    using 2(4) by (force simp: map_of_eq_None_iff dest: in_set_dropD)+
  show ?case
  proof (cases "r = branch_ref branch")
    case True
    then have "ref_matches branch r" using ref_matches_plain [OF 2(3)] by simp
    moreover have "distinct (map snd (drop 1 ls))" using 2(4) by (cases ls) auto
    ultimately have "heads branch (drop 1 ls) = []" using 2(1) [OF _ 2(3)] none(2) True by simp
    with \<open>ref_matches branch r\<close> True show ?thesis by simp
  next
    case False
    then have "\<not> ref_matches branch r" using ref_matches_plain [OF 2(3)] by simp
    with 2(2) [OF _ 2(3)] 2(4) False show ?thesis by simp
  qed
qed simp

lemma branch_re_classes: "branch_re branch = Some r \<Longrightarrow> r = classes_re branch"
  by (simp add: branch_re_def classes_re_def comp_def split: if_splits)

lemma branch_heads_lookup:
  assumes "list_all listed ls" and "distinct (map snd ls)" and "LF \<notin> set branch" and "of_char (CHR ''.'') \<notin> set branch"
    and "branch_re branch = Some r"
  shows "branch_heads r (listing ls) =
    (case map_of (map prod.swap ls) (branch_ref branch) of None \<Rightarrow> [] | Some h \<Rightarrow> [h])"
  using heads_lookup [OF assms(4,2)] branch_heads_listing [OF assms(1,3)] branch_re_classes [OF assms(5)] by simp

section \<open>What an update changes\<close>

lemma map_of_set_key: "map_of (set_key d k v) = (map_of d)(k \<mapsto> v)"
  by (induction d) auto

lemma set_key_same: "map_of d k = Some v \<Longrightarrow> set_key d k v = d"
  by (induction d) (auto split: if_splits)

lemma set_key_twice [simp]: "set_key (set_key d k v) k w = set_key d k w"
  by (induction d) auto

text \<open>The version that an entry of \<open>args\<close> asks for.\<close>

definition head_of :: "(bytes \<Rightarrow> bytes option) \<Rightarrow> bytes \<Rightarrow> yaml_dict \<Rightarrow> bytes \<Rightarrow> yaml \<Rightarrow> update_error + bytes" where
  "head_of ls_remote service_name args key val =
     (case val of
        YText repo \<Rightarrow>
          (case ls_remote repo of
             None \<Rightarrow> Inl GitFailed
           | Some output \<Rightarrow>
               (case get_key args (key_prefix key @ BRANCH) of
                  Inl e \<Rightarrow> Inl e
                | Inr branch \<Rightarrow>
                    (case formatted branch of
                       None \<Rightarrow> Inl Unmodelled
                     | Some b \<Rightarrow>
                         (case branch_re b of
                            None \<Rightarrow> Inl Unmodelled
                          | Some r \<Rightarrow>
                              (case branch_heads r output of
                                 [the_hash] \<Rightarrow> Inr the_hash
                               | _ \<Rightarrow> Inl (BranchesNotFound service_name))))))
      | _ \<Rightarrow> Inl UnexpectedType)"

definition version_key :: "bytes \<Rightarrow> bytes" where
  "version_key key = key_prefix key @ VERSION"

lemma update_args_step:
  "update_args ls_remote n ((key, val) # items) args =
    (if is_repo key then
       case head_of ls_remote n args key val of
         Inl e \<Rightarrow> Inl e
       | Inr h \<Rightarrow> update_args ls_remote n items (set_key args (version_key key) (YText h))
     else update_args ls_remote n items args)"
  unfolding head_of_def version_key_def
  by (simp split: yaml.split option.split sum.split list.split)

lemma version_key_last: "last (version_key k) = of_char (CHR ''N'')" "version_key k \<noteq> []"
  by (simp_all add: version_key_def VERSION_def ascii_def)

lemma version_key_no_repo: "is_repo k \<Longrightarrow> k \<noteq> version_key k'"
proof
  assume repo: "is_repo k" and "k = version_key k'"
  from repo have "k = key_prefix k @ REPO" unfolding is_repo_def key_prefix_def by (metis append_take_drop_id)
  then have "last k = last REPO" by (metis REPO_def ascii_def last_appendR list.map_disc_iff list.distinct(1))
  then show False using version_key_last [of k'] \<open>k = version_key k'\<close> by (simp add: REPO_def ascii_def)
qed

lemma version_key_no_branch: "p @ BRANCH \<noteq> version_key k"
proof
  assume "p @ BRANCH = version_key k"
  then have "last (p @ BRANCH) = last (version_key k)" by (rule arg_cong)
  then show False unfolding version_key_last by (simp add: BRANCH_def ascii_def)
qed

lemma version_key_inject: "is_repo k \<Longrightarrow> is_repo k' \<Longrightarrow> version_key k = version_key k' \<longleftrightarrow> k = k'"
  unfolding version_key_def is_repo_def key_prefix_def by (metis append_take_drop_id append_same_eq)

lemma head_of_cong:
  assumes "map_of a (key_prefix k @ BRANCH) = map_of a' (key_prefix k @ BRANCH)"
  shows "head_of l n a k v = head_of l n a' k v"
proof -
  have "get_key a (key_prefix k @ BRANCH) = get_key a' (key_prefix k @ BRANCH)" using assms by (simp add: get_key_def)
  then show ?thesis unfolding head_of_def by (rule ssubst) (rule refl)
qed

lemma head_of_set_version [simp]: "head_of l n (set_key a (version_key k') w) k v = head_of l n a k v"
  by (rule head_of_cong) (simp add: map_of_set_key version_key_no_branch)

text \<open>An update as one assignment for each repository, and the hashes as those of the first contents of \<open>args\<close>.\<close>

definition assign_versions :: "(bytes \<Rightarrow> yaml \<Rightarrow> bytes) \<Rightarrow> (bytes \<times> yaml) list \<Rightarrow> yaml_dict \<Rightarrow> yaml_dict" where
  "assign_versions h items args = fold (\<lambda>(k, v) a. set_key a (version_key k) (YText (h k v))) items args"

lemma update_args_assigns:
  "update_args l n items args = Inr args' \<longleftrightarrow>
    (\<forall>(k, v) \<in> set (filter (\<lambda>kv. is_repo (fst kv)) items). \<exists>h. head_of l n args k v = Inr h) \<and>
    args' = assign_versions (\<lambda>k v. projr (head_of l n args k v)) (filter (\<lambda>kv. is_repo (fst kv)) items) args"
proof (induction items arbitrary: args)
  case Nil
  then show ?case by (auto simp: assign_versions_def)
next
  case (Cons kv items)
  obtain k v where kv: "kv = (k, v)" by (metis prod.collapse)
  show ?case
  proof (cases "is_repo k")
    case False
    then show ?thesis using Cons.IH [of args] unfolding kv update_args_step by simp
  next
    case True
    then show ?thesis
    proof (cases "head_of l n args k v")
      case (Inl e)
      then show ?thesis using True unfolding kv update_args_step by simp
    next
      case (Inr h)
      then show ?thesis using True Cons.IH [of "set_key args (version_key k) (YText h)"]
        unfolding kv update_args_step by (simp add: assign_versions_def)
    qed
  qed
qed

lemma assign_versions_other:
  "k \<notin> (\<lambda>kv. version_key (fst kv)) ` set items \<Longrightarrow> map_of (assign_versions h items args) k = map_of args k"
  by (induction items arbitrary: args) (auto simp: assign_versions_def map_of_set_key)

lemma assign_versions_own:
  assumes "(k, v) \<in> set items" and "distinct (map fst items)" and "\<forall>kv \<in> set items. is_repo (fst kv)"
  shows "map_of (assign_versions h items args) (version_key k) = Some (YText (h k v))"
  using assms
proof (induction items arbitrary: args)
  case (Cons kv items)
  show ?case
  proof (cases "kv = (k, v)")
    case True
    have "version_key k \<notin> (\<lambda>kv. version_key (fst kv)) ` set items"
      using Cons.prems(2,3) True version_key_inject by fastforce
    from assign_versions_other [OF this] True show ?thesis by (simp add: assign_versions_def map_of_set_key)
  next
    case False
    with Cons.prems have "(k, v) \<in> set items" by auto
    with Cons show ?thesis by (simp add: assign_versions_def case_prod_unfold)
  qed
qed simp

lemma assign_versions_repos:
  "filter (\<lambda>kv. is_repo (fst kv)) (assign_versions h items args) = filter (\<lambda>kv. is_repo (fst kv)) args"
proof (induction items arbitrary: args)
  case (Cons kv items)
  have "filter (\<lambda>kv. is_repo (fst kv)) (set_key a (version_key k) w) = filter (\<lambda>kv. is_repo (fst kv)) a" for a k w
    by (induction a) (auto dest: version_key_no_repo)
  with Cons show ?case by (simp add: assign_versions_def case_prod_unfold)
qed (simp add: assign_versions_def)

text \<open>Assigning the same versions again changes nothing.\<close>

lemma assign_versions_again:
  "(\<And>k v. (k, v) \<in> set items \<Longrightarrow> map_of args (version_key k) = Some (YText (h k v))) \<Longrightarrow>
    assign_versions h items args = args"
  by (induction items) (auto simp: assign_versions_def set_key_same)

lemma update_args_again:
  assumes "update_args l n args args = Inr args'" and "distinct (map fst args)"
  shows "update_args l n args' args' = Inr args'"
proof -
  let ?repos = "filter (\<lambda>kv. is_repo (fst kv)) args"
  let ?h = "\<lambda>a k v. projr (head_of l n a k v)"
  from assms(1) have heads: "\<forall>(k, v) \<in> set ?repos. \<exists>h. head_of l n args k v = Inr h"
    and args': "args' = assign_versions (?h args) ?repos args"
    unfolding update_args_assigns by simp_all
  have repos: "filter (\<lambda>kv. is_repo (fst kv)) args' = ?repos" unfolding args' by (rule assign_versions_repos)
  have same: "head_of l n args' k v = head_of l n args k v" for k v
    unfolding args' by (rule head_of_cong, rule assign_versions_other) (auto simp: version_key_no_branch)
  have own: "map_of args' (version_key k) = Some (YText (?h args k v))" if "(k, v) \<in> set ?repos" for k v
    unfolding args' by (rule assign_versions_own [OF that]) (use assms(2) in \<open>auto intro: distinct_map_filter\<close>)
  have "assign_versions (?h args) ?repos args' = args'" by (rule assign_versions_again) (rule own)
  with heads show ?thesis unfolding update_args_assigns repos same by simp
qed

text \<open>The dictionaries of Python have every key once.\<close>

definition args_distinct :: "yaml \<Rightarrow> bool" where
  "args_distinct service =
     (case service of
        YDict d \<Rightarrow>
          (case map_of d (ascii ''build'') of
             Some (YDict b) \<Rightarrow> (case map_of b (ascii ''args'') of Some (YDict args) \<Rightarrow> distinct (map fst args) | _ \<Rightarrow> True)
           | _ \<Rightarrow> True)
      | _ \<Rightarrow> True)"

lemma update_service_cases:
  assumes "update_service l n service = Inr service'"
  obtains "service' = service"
  | d b args args' where "service = YDict d" and "map_of d (ascii ''build'') = Some (YDict b)"
      and "is_frozen d = Inr False" and "map_of b (ascii ''args'') = Some (YDict args)"
      and "update_args l n args args = Inr args'"
      and "service' = YDict (set_key d (ascii ''build'') (YDict (set_key b (ascii ''args'') (YDict args'))))"
  using assms unfolding update_service_def get_key_def
  by (auto split: yaml.splits option.splits sum.splits if_splits simp: map_sum_def)

lemma update_service_again:
  assumes "update_service l n service = Inr service'" and "args_distinct service"
  shows "update_service l n service' = Inr service'"
  using assms(1)
proof (cases rule: update_service_cases)
  case (2 d b args args')
  have "distinct (map fst args)" using assms(2) 2(1,2,4) by (simp add: args_distinct_def)
  with 2(5) have again: "update_args l n args' args' = Inr args'" by (rule update_args_again)
  have "is_frozen (set_key d (ascii ''build'') v) = is_frozen d" for v
    by (simp add: is_frozen_def map_of_set_key ascii_inj)
  with 2(3) again show ?thesis
    unfolding 2(6) update_service_def by (simp add: get_key_def map_of_set_key)
qed (use assms in simp)

lemma update_services_again:
  "update_services l services = Inr services' \<Longrightarrow> \<forall>(n, s) \<in> set services. args_distinct s \<Longrightarrow>
    update_services l services' = Inr services'"
proof (induction services arbitrary: services')
  case (Cons x services)
  obtain n s where x: "x = (n, s)" by (metis prod.collapse)
  from Cons.prems(1) x obtain s' rest where s': "update_service l n s = Inr s'" and rest: "update_services l services = Inr rest"
    and services': "services' = (n, s') # rest"
    by (auto split: sum.splits simp: map_sum_def)
  have "update_service l n s' = Inr s'" using s' Cons.prems(2) x by (auto intro: update_service_again)
  moreover have "update_services l rest = Inr rest" using Cons.IH [OF rest] Cons.prems(2) by simp
  ultimately show ?case unfolding services' by simp
qed simp

text \<open>C30: an update is done after one run: with the same remote repositories a second run leaves the file as it is. This
  rests on the loop reading the keys of a copy of \<open>args\<close> while it writes into \<open>args\<close>, and on a version never being
  the repository or the branch of another entry.\<close>

theorem update_is_idempotent:
  assumes "update_services ls_remote services = Inr services'" and "\<forall>(n, s) \<in> set services. args_distinct s"
  shows "update_services ls_remote services' = Inr services'"
  using assms by (rule update_services_again)

definition app_args :: "string \<Rightarrow> string \<Rightarrow> yaml" where
  "app_args branch version =
     YDict [(ascii ''build'', YDict [(ascii ''args'',
       YDict [(ascii ''APP_REPO'', YText (ascii ''git://h'')), (ascii ''APP_BRANCH'', YText (ascii branch)),
              (ascii ''APP_VERSION'', YText (ascii version))])])]"

definition h_remote :: "bytes \<Rightarrow> bytes option" where
  "h_remote repo = (if repo = ascii ''git://h'' then Some (listing
     [(ascii ''01'', ascii ''HEAD''), (ascii ''0b'', ascii ''refs/heads/dev''), (ascii ''01'', ascii ''refs/heads/main'')]) else None)"

lemma update_is_idempotent_witness:
  "update_services h_remote [(ascii ''s'', app_args ''main'' ''01'')] = Inr [(ascii ''s'', app_args ''main'' ''01'')]"
proof (rule update_is_idempotent)
  show "update_services h_remote [(ascii ''s'', app_args ''main'' ''00'')] = Inr [(ascii ''s'', app_args ''main'' ''01'')]"
    by code_simp
  show "\<forall>(n, s) \<in> set [(ascii ''s'', app_args ''main'' ''00'')]. args_distinct s" by code_simp
qed

text \<open>The versions that are not given by a repository, and everything else, stay.\<close>

lemma head_of_hash:
  assumes "head_of (\<lambda>repo. map_option listing (remotes repo)) n args k (YText repo) = Inr h"
    and "map_of args (key_prefix k @ BRANCH) = Some (YText b)"
  shows "\<exists>ls r. remotes repo = Some ls \<and> branch_re b = Some r \<and> branch_heads r (listing ls) = [h]"
proof -
  have get: "get_key args (key_prefix k @ BRANCH) = Inr (YText b)" using assms(2) by (simp add: get_key_def)
  obtain ls where ls: "remotes repo = Some ls" using assms(1) by (cases "remotes repo") (simp_all add: head_of_def)
  obtain r where r: "branch_re b = Some r" using assms(1) ls get by (cases "branch_re b") (simp_all add: head_of_def)
  from assms(1) have "(case branch_heads r (listing ls) of [the_hash] \<Rightarrow> Inr the_hash | _ \<Rightarrow> Inl (BranchesNotFound n)) = Inr h"
    by (simp add: head_of_def ls r get)
  then have "branch_heads r (listing ls) = [h]" by (simp split: list.split_asm)
  with ls r show ?thesis by blast
qed

lemma update_args_versions:
  assumes "update_args (\<lambda>repo. map_option listing (remotes repo)) n args args = Inr args'"
    and "distinct (map fst args)" and "is_repo k" and "(k, YText repo) \<in> set args"
    and "map_of args (key_prefix k @ BRANCH) = Some (YText b)"
    and "\<forall>ls. remotes repo = Some ls \<longrightarrow> list_all listed ls \<and> distinct (map snd ls)"
    and "LF \<notin> set b" and "of_char (CHR ''.'') \<notin> set b"
  shows "\<exists>ls h. remotes repo = Some ls \<and> map_of (map prod.swap ls) (branch_ref b) = Some h \<and>
    map_of args' (version_key k) = Some (YText h)"
proof -
  let ?l = "\<lambda>repo. map_option listing (remotes repo)"
  let ?repos = "filter (\<lambda>kv. is_repo (fst kv)) args"
  from assms(1) have heads: "\<forall>(k, v) \<in> set ?repos. \<exists>h. head_of ?l n args k v = Inr h"
    and args': "args' = assign_versions (\<lambda>k v. projr (head_of ?l n args k v)) ?repos args"
    unfolding update_args_assigns by simp_all
  have mem: "(k, YText repo) \<in> set ?repos" using assms(3,4) by simp
  with heads obtain h where h: "head_of ?l n args k (YText repo) = Inr h" by fastforce
  then obtain ls r where ls: "remotes repo = Some ls" and r: "branch_re b = Some r" and hd: "branch_heads r (listing ls) = [h]"
    using head_of_hash [OF _ assms(5)] by blast
  have "list_all listed ls" and "distinct (map snd ls)" using assms(6) ls by simp_all
  from branch_heads_lookup [OF this assms(7,8) r] hd have "map_of (map prod.swap ls) (branch_ref b) = Some h"
    by (simp split: option.splits)
  moreover have "map_of args' (version_key k) = Some (YText h)"
  proof -
    have "map_of args' (version_key k) = Some (YText (projr (head_of ?l n args k (YText repo))))"
      unfolding args' by (rule assign_versions_own [OF mem distinct_map_filter [OF assms(2)]]) simp
    with h show ?thesis by simp
  qed
  ultimately show ?thesis using ls by blast
qed

text \<open>A branch whose name has no dot and no newline.\<close>

definition plain_branch :: "bytes \<Rightarrow> bool" where
  "plain_branch b \<longleftrightarrow> LF \<notin> set b \<and> of_char (CHR ''.'') \<notin> set b"

text \<open>C28: the regular expression of \<open>update.py\<close> is a lookup. In the output of \<open>git ls-remote\<close> for any list of hashes and
  distinct references, the groups that \<open>re.findall\<close> returns for a branch without special characters are the one hash listed
  for \<open>refs/heads/\<close> and that branch, or none: no other reference whose name contains, begins or ends with
  the branch is found, no part of a hash is taken, and the newline that is part of a match hides no line that is asked for.\<close>

theorem branch_head_is_looked_up:
  assumes "branch_re branch = Some r" and "plain_branch branch"
    and "list_all listed ls" and "distinct (map snd ls)"
  shows "branch_heads r (listing ls) =
    (case map_of (map prod.swap ls) (ascii ''refs/heads/'' @ branch) of None \<Rightarrow> [] | Some h \<Rightarrow> [h])"
  using branch_heads_lookup [OF assms(3,4) _ _ assms(1)] assms(2) unfolding plain_branch_def branch_ref_def by blast

definition some_refs :: "(bytes \<times> bytes) list" where
  "some_refs = [(ascii ''01'', ascii ''HEAD''), (ascii ''02'', ascii ''refs/heads/dev''), (ascii ''0b'', ascii ''refs/heads/main''),
     (ascii ''03'', ascii ''refs/heads/main-2''), (ascii ''04'', ascii ''refs/heads/x/main'')]"

lemma branch_head_is_looked_up_witness:
  "branch_heads (classes_re (ascii ''main'')) (listing some_refs) = [ascii ''0b'']"
proof -
  have "branch_re (ascii ''main'') = Some (classes_re (ascii ''main''))"
    by (simp add: branch_re_def special_chars_def classes_re_def comp_def ascii_def)
  moreover have "plain_branch (ascii ''main'')" and "list_all listed some_refs" and "distinct (map snd some_refs)"
    by code_simp+
  moreover have "map_of (map prod.swap some_refs) (ascii ''refs/heads/'' @ ascii ''main'') = Some (ascii ''0b'')"
    by code_simp
  ultimately show ?thesis using branch_head_is_looked_up [of "ascii ''main''" _ some_refs] by simp
qed

text \<open>A dot is not escaped: \<open>4.2\<close> also finds \<open>4x2\<close>, and then the number of matches is wrong.\<close>

lemma dot_matches_any_character:
  "update_services (\<lambda>repo. Some (listing [(ascii ''01'', ascii ''refs/heads/4.2''), (ascii ''02'', ascii ''refs/heads/dev''),
       (ascii ''03'', ascii ''refs/heads/4x2'')]))
     [(ascii ''s'', app_args ''4.2'' ''00'')] = Inl (BranchesNotFound (ascii ''s''))"
  by code_simp


definition main_args :: yaml_dict where
  "main_args = [(ascii ''APP_REPO'', YText []), (ascii ''APP_BRANCH'', YText (ascii ''main''))]"


section \<open>The tables of the README\<close>

definition has_role :: "string \<Rightarrow> yaml_dict \<Rightarrow> bool" where
  "has_role the_role props =
     (case map_of props (ascii ''x-props'') of
        Some (YDict x_props) \<Rightarrow> map_of x_props (ascii ''role'') = Some (YText (ascii the_role))
      | _ \<Rightarrow> False)"

lemma readme_row_outcome:
  assumes "readme_row the_role n props = Inr rows"
  shows "if has_role the_role props then \<exists>repo. rows = [ascii ''| ['' @ n @ ascii '']('' @ repo @ ascii '') |''] else rows = []"
  using assms unfolding readme_row_def get_key_def has_role_def
  by (simp split: option.splits yaml.splits if_splits) blast+

text \<open>A table has one row for each service of the role, in the order of the file.\<close>

lemma readme_rows_are_the_services:
  "readme_rows the_role services = Inr rows \<Longrightarrow>
    list_all2 (\<lambda>row (n, props). \<exists>repo. row = ascii ''| ['' @ n @ ascii '']('' @ repo @ ascii '') |'')
      rows (filter (\<lambda>(n, props). has_role the_role props) services)"
proof (induction services arbitrary: rows)
  case (Cons s services)
  obtain n props where s: "s = (n, props)" by (metis prod.collapse)
  from Cons.prems s obtain row rest where row: "readme_row the_role n props = Inr row"
    and rest: "readme_rows the_role services = Inr rest" and rows: "rows = row @ rest"
    by (auto split: sum.splits simp: map_sum_def)
  from readme_row_outcome [OF row] Cons.IH [OF rest] show ?case
    unfolding s rows by (auto split: if_splits)
qed simp

end
