(* ===== verification/Spec2Isabelle.thy ===== *)
theory Spec2Isabelle
  imports HpackState Http2Typed Fanout EchoLoop Mutations ReplText Garden QuirkFile ComposeFile
begin

text \<open>
  A model of the HTTP Garden, the programs under \<open>tools/\<close>, with the theorems that say what they do.

  \<^bold>\<open>The program.\<close> The Garden sends the same bytes to many HTTP servers (origins) and proxies (transducers) and
  reports where they disagree about what the bytes mean. An origin answers with the request it saw, as JSON with
  Base64 fields; a transducer forwards to \<open>echo_server.py\<close>, which answers with the bytes it was sent.
  \<open>targets.py\<close> knows the servers, connects, and turns what comes back into requests and responses by the
  parsers of \<open>http1.py\<close> and \<open>http2.py\<close>; \<open>fanout.py\<close> does this for many servers at once; \<open>diff.py\<close> compares
  two results, making allowance for known quirks; \<open>grid.py\<close> compares all pairs. \<open>hpack.py\<close> is the header
  compression of HTTP/2, used by the echo server. \<open>mutations.py\<close> makes new inputs from old ones, and \<open>repl.py\<close>
  is the prompt that ties it together. \<open>util.py\<close> holds helpers and the use of sockets.

  \<^bold>\<open>Theories.\<close>
  \<^item> \<open>Prelude\<close>, \<open>PyBytes\<close>, \<open>PyState\<close>: exceptions by class as values of a sum type and the sequencing of calls that
    raise; bytes as lists of 8 bit words with \<open>int.to_bytes\<close> and \<open>int.from_bytes\<close>; methods that change an object
    as functions from the object to a result and the object, which is there after an exception too.
  \<^item> \<open>Util\<close>, \<open>Sockets\<close>: \<open>util.py\<close>. A socket is a script of what \<open>recv\<close> gives and how many sends succeed.
  \<^item> \<open>Codec\<close>: the contracts of a printer with its parser, as locales; every codec of the program interprets them.
  \<^item> \<open>HpackInt\<close>, \<open>HuffmanTable\<close>, \<open>HpackString\<close>, \<open>HpackField\<close>, \<open>HpackState\<close>: \<open>hpack.py\<close>, from integers to the decoder
    with its dynamic table.
  \<^item> \<open>Http2Base\<close>, \<open>Http2Frames\<close>, \<open>Http2Typed\<close>: \<open>http2.py\<close>: flags and checks, generic frames, the ten classes of frames.
  \<^item> \<open>PyRegex\<close>, \<open>Http1\<close>, \<open>Http1Parse\<close>, \<open>Base64\<close>, \<open>PyJson\<close>, \<open>Http1Json\<close>: \<open>http1.py\<close> with what it uses of \<open>re\<close>
    (backtracking in Python's order), \<open>base64\<close> and \<open>json\<close>.
  \<^item> \<open>ServerConfig\<close>, \<open>Targets\<close>, \<open>Services\<close>: the class \<open>Server\<close>, the round trips of \<open>targets.py\<close>, and how servers are made
    from the configuration.
  \<^item> \<open>Diff\<close>, \<open>Grid\<close>, \<open>Fanout\<close>: \<open>diff.py\<close>, \<open>grid.py\<close>, \<open>fanout.py\<close>. Requests are objects in a store, because
    \<open>normalize_request\<close> sorts headers in place.
  \<^item> \<open>Decimal\<close>, \<open>EchoServer\<close>, \<open>EchoLoop\<close>: \<open>echo_server.py\<close>, one connection at a time, and the abstract server it
    refines, which keeps one list of live frames.
  \<^item> \<open>Mutations\<close>: \<open>mutations.py\<close>, with the random numbers as a script.
  \<^item> \<open>ProbeQuirks\<close>, \<open>QuirkFile\<close>: the probes of \<open>probe_quirks.py\<close>, what they conclude and print, and what a server is
    made of the printed lines. A probe is an action on the number of round trips made so far.
  \<^item> \<open>ReplFrames\<close>, \<open>ReplMain\<close>, \<open>ReplLex\<close>, \<open>ReplText\<close>: \<open>repl.py\<close>: the language of the command \<open>h2frames\<close>, every command with
    pipelines and lines, the lexer with the loop over lines, and the text that is printed.
  \<^item> \<open>ServerImages\<close>: the applications in \<open>images/\<close> that report a request from inside a server.
  \<^item> \<open>Garden\<close>: the way from a line at the prompt through the fan-out to these applications, and back into a grid.
  \<^item> \<open>ComposeFile\<close>: \<open>update.py\<close> and \<open>generate_readme_tables.py\<close>, which rewrite and list \<open>docker-compose.yml\<close>.

  \<^bold>\<open>What the lemmas show.\<close> Round trips of every codec, with arbitrary bytes after the printed ones, and which inputs
  the parsers accept; for each parser the exceptions it can raise; the invariants of the dynamic table and of the
  echo server's stored frames; that the grid is the table of pairwise comparisons, when it is, and an example
  where it is not; that clusters are a partition; when the loop of a transducer and of the echo server never end;
  that the echo server refines the abstract one; that requests forwarded by a proxy come back through the echo
  server as they were; what each mutation does to a stream, and that \<open>mutate\<close> always finds one that works; how a session
  at the prompt can end, that what it prints of a stream can be typed in, and that its grids have straight columns; that
  the reports of all images are read back; that the dictionaries of servers hold what was configured; how many
  round trips a diagnosis makes, what it can raise, and that its conclusions reach the server; that servers running any of the images are green in the grid of a session when they were handed the same request;
  that \<open>update.py\<close> looks a branch up by its name, sets the versions and nothing else, and is done after one run.

  \<^bold>\<open>Bounds and parameters.\<close> Python's integers are \<open>int\<close> or \<open>nat\<close>; a byte is an 8 bit word. There is no fuel: parse loops
  end because what is left gets shorter, and the two loops that may not end, \<open>Transducer.unparsed_roundtrip\<close>
  and the HTTP/2 loop of the echo server, are partial functions whose value \<open>None\<close> is running for ever; the lemmas
  say exactly when that is. What the code does not define is an argument: \<open>gzip.decompress\<close> (its result or
  exception), what connecting gives and TLS makes of it, what a socket delivers, the order in which other connections
  touch the echo server's state, what YAML, Docker and \<open>git ls-remote\<close> give, the order in which a set is listed, the
  numbers \<open>random\<close> draws, the characters that \<open>\N{...}\<close> names. Exceptions are kept by class, without their texts.
  The limits of the interpreter that the code can run into are in the model: at most 4300
  digits in a decimal integer, at most 4294967294 repetitions in a regular expression.

  \<^bold>\<open>Not modelled.\<close> Warnings and the \<open>repr\<close> of objects other than bytes, named integers and flags; reading the command
  line; threads and processes (a pool's \<open>map\<close> is the map, or the first exception). A null in a YAML file, and in
  \<open>update.py\<close> a branch whose name has characters other than the dot that are special in a regular expression, have no
  value in the model; reading and writing the files and running \<open>git ls-remote\<close> are arguments and results.
\<close>

end
